(* ===== verification/MQ_Prelude.thy ===== *)
theory MQ_Prelude
  imports Main "HOL-Library.Word" "HOL-Library.Multiset"
begin

text \<open>
  Shared vocabulary of the development: the machine types of the C++ broker, the bytes of
  a \<open>std::string\<close>, the three ways a call of the broker can end, checked reads of byte
  vectors, and the big-endian reference encoding against which the wire protocol and the
  write-ahead log are verified.
\<close>

unbundle bit_operations_syntax

named_theorems outcome_simps \<open>evaluation of the outcome monad\<close>
named_theorems codec_simps \<open>round trips of byte encodings\<close>


section \<open>Machine types\<close>

type_synonym u8 = "8 word"
type_synonym u16 = "16 word"
type_synonym u32 = "32 word"
type_synonym u64 = "64 word"
type_synonym bytes = "u8 list"

text \<open>\<open>intptr_t\<close>: the broker only stores, compares and prints client identifiers.\<close>

type_synonym ClientId = int

text \<open>A \<open>std::chrono::steady_clock\<close> time point, in milliseconds.\<close>

type_synonym time_point = int


section \<open>How a call ends\<close>

text \<open>
  A call of the broker returns (\<open>Done\<close>), waits on a condition variable that only another
  thread can signal (\<open>Blocked\<close>: \<open>SafeQueue::push\<close> on a full queue), or has undefined
  behaviour (\<open>Fault\<close>: a read outside a vector).
\<close>

datatype 'a outcome = Done 'a | Blocked | Fault

fun obind :: "'a outcome \<Rightarrow> ('a \<Rightarrow> 'b outcome) \<Rightarrow> 'b outcome" where
  "obind (Done x) f = f x"
| "obind Blocked f = Blocked"
| "obind Fault f = Fault"

declare obind.simps [outcome_simps]

fun_cases obind_DoneE: "obind m f = Done y"

lemma obind_eq_Done_iff [outcome_simps]: "obind m f = Done y \<longleftrightarrow> (\<exists>x. m = Done x \<and> f x = Done y)"
  by (cases m) auto

lemma obind_eq_Fault_iff [outcome_simps]: "obind m f = Fault \<longleftrightarrow> m = Fault \<or> (\<exists>x. m = Done x \<and> f x = Fault)"
  by (cases m) auto

lemma obind_eq_Blocked_iff [outcome_simps]: "obind m f = Blocked \<longleftrightarrow> m = Blocked \<or> (\<exists>x. m = Done x \<and> f x = Blocked)"
  by (cases m) auto

lemma obind_assoc: "obind (obind m f) g = obind m (\<lambda>x. obind (f x) g)"
  by (cases m) auto

lemma obind_Done_right [simp]: "obind m Done = m"
  by (cases m) auto

lemma obind_cong [fundef_cong]:
  "m = m' \<Longrightarrow> (\<And>x. m' = Done x \<Longrightarrow> f x = f' x) \<Longrightarrow> obind m f = obind m' f'"
  by (cases m') auto


text \<open>A computation that neither faults nor ends in a state outside the given set.\<close>

definition safe_outcome :: "('a \<Rightarrow> bool) \<Rightarrow> 'a outcome \<Rightarrow> bool" where
  "safe_outcome P r \<longleftrightarrow> r \<noteq> Fault \<and> (\<forall>x. r = Done x \<longrightarrow> P x)"

lemma safe_outcome_simps [simp]:
  "safe_outcome P (Done x) \<longleftrightarrow> P x" "safe_outcome P Blocked" "\<not> safe_outcome P Fault"
  by (simp_all add: safe_outcome_def)

lemma safe_outcome_obind:
  "safe_outcome P m \<Longrightarrow> (\<And>x. P x \<Longrightarrow> safe_outcome Q (f x)) \<Longrightarrow> safe_outcome Q (obind m f)"
  by (cases m) simp_all


section \<open>Checked reads\<close>

definition byte_at :: "'a list \<Rightarrow> nat \<Rightarrow> 'a outcome" where
  "byte_at xs i = (if i < length xs then Done (xs ! i) else Fault)"

definition subvec :: "'a list \<Rightarrow> nat \<Rightarrow> nat \<Rightarrow> 'a list outcome" where
  "subvec xs i j = (if i \<le> j \<and> j \<le> length xs then Done (take (j - i) (drop i xs)) else Fault)"

lemma byte_at_in [simp]: "i < length xs \<Longrightarrow> byte_at xs i = Done (xs ! i)"
  by (simp add: byte_at_def)

lemma subvec_in [simp]: "i \<le> j \<Longrightarrow> j \<le> length xs \<Longrightarrow> subvec xs i j = Done (take (j - i) (drop i xs))"
  by (simp add: subvec_def)


section \<open>Characters and bytes\<close>

text \<open>A \<open>char\<close> of a \<open>std::string\<close> is one byte; \<open>reinterpret_cast\<close> keeps its value.\<close>

definition byte_of_char :: "char \<Rightarrow> u8" where
  "byte_of_char c = of_nat (of_char c)"

definition char_of_byte :: "u8 \<Rightarrow> char" where
  "char_of_byte b = char_of (unat b)"

abbreviation bytes_of_string :: "string \<Rightarrow> bytes" where
  "bytes_of_string \<equiv> map byte_of_char"

abbreviation string_of_bytes :: "bytes \<Rightarrow> string" where
  "string_of_bytes \<equiv> map char_of_byte"

lemma unat_byte_of_char: "unat (byte_of_char c) = of_char c"
  by (simp add: byte_of_char_def unat_of_nat of_char_mod_256)

lemma char_of_byte_of_char [simp, codec_simps]: "char_of_byte (byte_of_char c) = c"
  by (simp add: char_of_byte_def unat_byte_of_char)

lemma byte_of_char_of_byte [simp, codec_simps]: "byte_of_char (char_of_byte b) = b"
proof -
  have "unat b < 256"
    using unsigned_less [of b, where ?'a = nat] by simp
  then have "unat (byte_of_char (char_of_byte b)) = unat b"
    by (simp add: char_of_byte_def unat_byte_of_char)
  then show ?thesis
    by (simp add: word_unat_eq_iff)
qed

lemma char_byte_comp [simp]: "char_of_byte \<circ> byte_of_char = id" "byte_of_char \<circ> char_of_byte = id"
  by (auto simp: fun_eq_iff)

lemma string_of_bytes_of_string [simp, codec_simps]: "string_of_bytes (bytes_of_string s) = s"
  by (simp add: map_idI)

lemma bytes_of_string_of_bytes [simp, codec_simps]: "bytes_of_string (string_of_bytes bs) = bs"
  by (simp add: map_idI)


section \<open>\<open>std::to_string\<close>\<close>

definition digit_char :: "nat \<Rightarrow> char" where
  "digit_char d = char_of (48 + d)"

fun nat_digits :: "nat \<Rightarrow> string" where
  "nat_digits n = (if n < 10 then [digit_char n] else nat_digits (n div 10) @ [digit_char (n mod 10)])"

declare nat_digits.simps [simp del]

definition to_string :: "int \<Rightarrow> string" where
  "to_string i = (if i < 0 then ''-'' @ nat_digits (nat (- i)) else nat_digits (nat i))"

definition digits_val :: "string \<Rightarrow> nat" where
  "digits_val s = foldl (\<lambda>a c. 10 * a + (of_char c - 48)) 0 s"

lemma of_char_digit [simp]: "d < 10 \<Longrightarrow> of_char (digit_char d) = 48 + d"
  by (simp add: digit_char_def)

lemma digits_val_nat_digits [simp]: "digits_val (nat_digits n) = n"
proof (induction n rule: nat_digits.induct)
  case (1 n)
  show ?case
  proof (cases "n < 10")
    case True
    then show ?thesis by (subst nat_digits.simps) (simp add: digits_val_def)
  next
    case False
    with 1 have "digits_val (nat_digits (n div 10)) = n div 10" by simp
    moreover have "digits_val (nat_digits n) = 10 * digits_val (nat_digits (n div 10)) + n mod 10"
      using False by (subst nat_digits.simps) (simp add: digits_val_def)
    ultimately show ?thesis by simp
  qed
qed

lemma nat_digits_inj: "nat_digits m = nat_digits n \<longleftrightarrow> m = n"
  by (metis digits_val_nat_digits)

lemma digits_in_nat_digits: "c \<in> set (nat_digits n) \<Longrightarrow> \<exists>d < 10. c = digit_char d"
proof (induction n rule: nat_digits.induct)
  case (1 n)
  then show ?case
    by (subst (asm) (2) nat_digits.simps)
      (auto split: if_splits intro: exI [of _ "n mod 10"])
qed

lemma minus_not_digit: "CHR ''-'' \<notin> set (nat_digits n)"
proof
  assume "CHR ''-'' \<in> set (nat_digits n)"
  then obtain d where "d < 10" "CHR ''-'' = digit_char d"
    using digits_in_nat_digits by blast
  then have "of_char CHR ''-'' = 48 + d"
    using of_char_digit [of d] by simp
  then show False by simp
qed

lemma minus_digits_neq: "CHR ''-'' # nat_digits m \<noteq> nat_digits n"
  using minus_not_digit [of n] by (metis list.set_intros(1))

lemma to_string_inj: "to_string i = to_string j \<longleftrightarrow> i = j"
  by (cases "i < 0"; cases "j < 0")
    (auto simp: to_string_def nat_digits_inj minus_digits_neq minus_digits_neq [symmetric])

text \<open>Occurrences in lists.\<close>

lemma count_list_distinct: "distinct xs \<Longrightarrow> count_list xs x = (if x \<in> set xs then 1 else 0)"
  by (induction xs) auto

lemma count_list_concat: "count_list (concat xss) x = sum_list (map (\<lambda>xs. count_list xs x) xss)"
  by (induction xss) simp_all

lemma sum_list_only:
  assumes "distinct xs" "x \<in> set xs" "\<And>y. y \<in> set xs \<Longrightarrow> y \<noteq> x \<Longrightarrow> f y = (0 :: nat)"
  shows "sum_list (map f xs) = f x"
  using assms by (simp add: sum_list_distinct_conv_sum_set sum.remove [of "set xs" x])

end
