(* ===== verification/MQ_Endian.thy ===== *)
theory MQ_Endian
  imports MQ_Prelude
begin

text \<open>
  The byte-order helpers of \<open>Protocol.hpp\<close> and the 16-bit swap of \<open>WalWriter.cpp\<close>. The
  broker swaps an integer in a register and then copies its object representation; on the
  little-endian hosts it is built for, the result has to be the big-endian encoding. The
  locale \<open>byte_swap\<close> is the contract of such a helper, with the encoding and decoding
  facts proved once; it is interpreted for the 16, 32 and 64 bit helpers.
\<close>

section \<open>Big-endian reference encoding\<close>

fun be_bytes :: "nat \<Rightarrow> nat \<Rightarrow> bytes" where
  "be_bytes 0 x = []"
| "be_bytes (Suc n) x = be_bytes n (x div 256) @ [of_nat x]"

definition be_val :: "bytes \<Rightarrow> nat" where
  "be_val bs = foldl (\<lambda>a b. 256 * a + unat b) 0 bs"

lemma length_be_bytes [simp]: "length (be_bytes n x) = n"
  by (induction n arbitrary: x) auto

lemma be_val_Nil [simp]: "be_val [] = 0"
  by (simp add: be_val_def)

lemma be_val_snoc [simp]: "be_val (bs @ [b]) = 256 * be_val bs + unat b"
  by (simp add: be_val_def)

lemma unat_u8_less: "unat (b :: u8) < 256"
  using unsigned_less [of b, where ?'a = nat] by simp

lemma be_val_be_bytes [codec_simps]: "be_val (be_bytes n x) = x mod 256 ^ n"
proof (induction n arbitrary: x)
  case (Suc n)
  have "x mod 256 ^ Suc n = 256 * (x div 256 mod 256 ^ n) + x mod 256"
    by (simp add: mod_mult2_eq)
  with Suc show ?case
    by (simp add: unat_of_nat)
qed simp

lemma be_bytes_be_val [codec_simps]: "be_bytes (length bs) (be_val bs) = bs"
proof (induction bs rule: rev_induct)
  case (snoc b bs)
  have "(256 * be_val bs + unat b) div 256 = be_val bs"
    using unat_u8_less [of b] by simp
  moreover have "(of_nat (256 * be_val bs + unat b) :: u8) = b"
    unfolding word_unat_eq_iff unat_of_nat using unat_u8_less [of b] by simp
  ultimately show ?case
    using snoc by simp
qed simp


section \<open>Object representation of integers\<close>

text \<open>
  \<open>reinterpret_cast<uint8_t*>(&v)\<close> and \<open>memcpy\<close> into an integer, on a little-endian host.
\<close>

definition le_bytes :: "nat \<Rightarrow> 'a::len word \<Rightarrow> bytes" where
  "le_bytes n v = map (\<lambda>k. ucast (drop_bit (8 * k) v)) [0..<n]"

fun load_le :: "bytes \<Rightarrow> 'a::len word" where
  "load_le [] = 0"
| "load_le (b # bs) = ucast b OR push_bit 8 (load_le bs)"

lemma length_le_bytes [simp]: "length (le_bytes n v) = n"
  by (simp add: le_bytes_def)

lemma bit_load_le:
  "bit (load_le bs :: 'a::len word) n \<longleftrightarrow>
     n < LENGTH('a) \<and> n div 8 < length bs \<and> bit (bs ! (n div 8)) (n mod 8)"
proof (induction bs arbitrary: n)
  case (Cons b bs)
  show ?case
  proof (cases "n < 8")
    case True
    then show ?thesis by (auto simp: bit_simps)
  next
    case False
    then have "n div 8 = Suc ((n - 8) div 8)" "n mod 8 = (n - 8) mod 8"
      by (auto simp: le_div_geq le_mod_geq)
    with False Cons [of "n - 8"] show ?thesis
      by (auto simp: bit_simps dest: bit_imp_le_length)
  qed
qed simp

lemma load_le_le_bytes [codec_simps]:
  assumes "LENGTH('a) = 8 * n"
  shows "load_le (le_bytes n (v :: 'a::len word)) = v"
proof (rule bit_word_eqI)
  fix i assume "i < LENGTH('a)"
  with assms show "bit (load_le (le_bytes n v) :: 'a word) i = bit v i"
    by (auto simp: bit_load_le le_bytes_def bit_simps less_mult_imp_div_less mult.commute)
qed

lemma le_bytes_load_le [codec_simps]:
  assumes "LENGTH('a) = 8 * n" "length bs = n"
  shows "le_bytes n (load_le bs :: 'a::len word) = bs"
proof (rule nth_equalityI)
  fix i assume "i < length (le_bytes n (load_le bs :: 'a word))"
  then have "i < n" by simp
  then have "bit (ucast (drop_bit (8 * i) (load_le bs :: 'a word)) :: u8) k = bit (bs ! i) k"
    if "k < 8" for k
    using assms that by (auto simp: bit_load_le bit_simps)
  with \<open>i < n\<close> show "le_bytes n (load_le bs :: 'a word) ! i = bs ! i"
    by (auto simp: le_bytes_def intro!: bit_word_eqI)
qed (use assms in simp)

lemma of_nat_unat_div:
  "(of_nat (unat v div 2 ^ k) :: u8) = ucast (drop_bit k (v :: 'a::len word))"
proof -
  have "unat v div 2 ^ k = unat (drop_bit k v)"
    by (simp add: unat_drop_bit_eq drop_bit_eq_div [symmetric] del: drop_bit_eq_div)
  then show ?thesis
    by (simp del: drop_bit_eq_div)
qed

lemma be_bytes_shifted:
  "be_bytes n (unat (v :: 'a::len word) div 2 ^ k) =
   rev (map (\<lambda>i. ucast (drop_bit (k + 8 * i) v)) [0..<n])"
proof (induction n arbitrary: k)
  case (Suc n)
  have "unat v div 2 ^ k div 256 = unat v div 2 ^ (k + 8)"
    by (simp add: div_mult2_eq power_add)
  moreover have "map (\<lambda>i. ucast (drop_bit (k + 8 * i) v) :: u8) [0..<Suc n] =
    ucast (drop_bit k v) # map (\<lambda>i. ucast (drop_bit (k + 8 + 8 * i) v)) [0..<n]"
    by (simp add: upt_conv_Cons map_Suc_upt [symmetric] o_def ac_simps del: upt_Suc)
  ultimately show ?case
    using Suc [of "k + 8"] by (simp add: of_nat_unat_div del: upt_Suc)
qed simp

lemma be_bytes_unat: "be_bytes n (unat (v :: 'a::len word)) = rev (le_bytes n v)"
  using be_bytes_shifted [of n v 0] by (simp add: le_bytes_def)

lemma unat_load_le:
  assumes "LENGTH('a) = 8 * n" "length bs = n"
  shows "unat (load_le bs :: 'a::len word) = be_val (rev bs)"
proof -
  have "be_bytes n (unat (load_le bs :: 'a word)) = rev bs"
    using assms by (simp add: be_bytes_unat le_bytes_load_le)
  then have "be_val (rev bs) = unat (load_le bs :: 'a word) mod 256 ^ n"
    by (metis be_val_be_bytes)
  moreover have "unat (load_le bs :: 'a word) < 256 ^ n"
    using unsigned_less [of "load_le bs :: 'a word", where ?'a = nat] assms by (simp add: power_mult)
  ultimately show ?thesis by simp
qed


section \<open>The contract of a byte-swap helper\<close>

locale byte_swap =
  fixes width :: nat
    and swap :: "'a::len word \<Rightarrow> 'a word"
  assumes width: "LENGTH('a) = 8 * width"
    and swaps: "le_bytes width (swap v) = rev (le_bytes width v)"
begin

lemma swap_swap: "swap (swap v) = v"
proof -
  have "le_bytes width (swap (swap v)) = le_bytes width v"
    by (simp add: swaps)
  then show ?thesis
    by (metis load_le_le_bytes width)
qed

lemma stored_is_be: "le_bytes width (swap v) = be_bytes width (unat v)"
  by (simp add: swaps be_bytes_unat)

lemma load_stored: "swap (load_le (be_bytes width (unat v))) = v"
  by (metis load_le_le_bytes stored_is_be swap_swap width)

end


section \<open>The helpers of the broker\<close>

definition to_be32 :: "u32 \<Rightarrow> u32" where
  "to_be32 v = drop_bit 24 (v AND 0xFF000000) OR
               drop_bit 8 (v AND 0x00FF0000) OR
               push_bit 8 (v AND 0x0000FF00) OR
               push_bit 24 (v AND 0x000000FF)"

definition to_be64 :: "u64 \<Rightarrow> u64" where
  "to_be64 v = push_bit 32 (ucast (to_be32 (ucast (v AND 0xFFFFFFFF)))) OR
               ucast (to_be32 (ucast (drop_bit 32 v)))"

definition from_be32 :: "u32 \<Rightarrow> u32" where
  "from_be32 v = to_be32 v"

definition from_be64 :: "u64 \<Rightarrow> u64" where
  "from_be64 v = to_be64 v"

text \<open>The expression \<open>static_cast<uint16_t>((v >> 8) | (v << 8))\<close> of \<open>write_be16\<close> and \<open>read_be16\<close>.\<close>

definition swap16 :: "u16 \<Rightarrow> u16" where
  "swap16 v = drop_bit 8 v OR push_bit 8 v"

lemma byte_masks:
  "(0xFF :: u32) = mask 8" "(0xFF00 :: u32) = push_bit 8 (mask 8)"
  "(0xFF0000 :: u32) = push_bit 16 (mask 8)" "(0xFF000000 :: u32) = push_bit 24 (mask 8)"
  by (simp_all add: mask_eq_exp_minus_1)

lemma to_be32_pieces:
  "bit (drop_bit 24 (v AND push_bit 24 (mask 8)) :: u32) n \<longleftrightarrow> n < 8 \<and> bit v (n + 24)"
  "bit (drop_bit 8 (v AND push_bit 16 (mask 8)) :: u32) n \<longleftrightarrow> 8 \<le> n \<and> n < 16 \<and> bit v (n + 8)"
  "bit (push_bit 8 (v AND push_bit 8 (mask 8)) :: u32) n \<longleftrightarrow> 16 \<le> n \<and> n < 24 \<and> bit v (n - 8)"
  "bit (push_bit 24 (v AND mask 8) :: u32) n \<longleftrightarrow> 24 \<le> n \<and> n < 32 \<and> bit v (n - 24)"
  subgoal by (auto simp: bit_simps ac_simps)
  subgoal by (auto simp: bit_simps ac_simps)
  subgoal by (auto simp: bit_simps)
  subgoal by (auto simp: bit_simps)
  done

lemma bit_to_be32:
  "bit (to_be32 v) n \<longleftrightarrow>
     n < 8 \<and> bit v (n + 24) \<or> 8 \<le> n \<and> n < 16 \<and> bit v (n + 8) \<or>
     16 \<le> n \<and> n < 24 \<and> bit v (n - 8) \<or> 24 \<le> n \<and> n < 32 \<and> bit v (n - 24)"
  unfolding to_be32_def byte_masks bit_or_iff to_be32_pieces by blast

lemma to_be32_bytes:
  "ucast (to_be32 v) = (ucast (drop_bit 24 v) :: u8)"
  "ucast (drop_bit 8 (to_be32 v)) = (ucast (drop_bit 16 v) :: u8)"
  "ucast (drop_bit 16 (to_be32 v)) = (ucast (drop_bit 8 v) :: u8)"
  "ucast (drop_bit 24 (to_be32 v)) = (ucast v :: u8)"
  by (rule bit_word_eqI; simp add: bit_simps bit_to_be32 ac_simps)+

lemma le_bytes_to_be32: "le_bytes 4 (to_be32 v) = rev (le_bytes 4 v)"
  by (simp add: le_bytes_def upt_rec to_be32_bytes)

lemma bit_to_be64:
  "bit (to_be64 v) n \<longleftrightarrow>
     (if n < 32 then bit (to_be32 (ucast (drop_bit 32 v))) n
      else n < 64 \<and> bit (to_be32 (ucast v)) (n - 32))"
proof -
  have m: "(0xFFFFFFFF :: u64) = mask 32"
    by (simp add: mask_eq_exp_minus_1)
  have "(ucast (v AND 0xFFFFFFFF) :: u32) = ucast v"
    unfolding m by (rule bit_word_eqI) (simp add: bit_simps)
  then show ?thesis
    by (auto simp: to_be64_def bit_simps dest: bit_imp_le_length)
qed

lemma le_bytes_to_be64: "le_bytes 8 (to_be64 v) = rev (le_bytes 8 v)"
proof -
  have hi: "ucast (to_be64 v) = to_be32 (ucast (drop_bit 32 v))" for v
    by (rule bit_word_eqI) (simp add: bit_simps bit_to_be64)
  have lo: "ucast (drop_bit 32 (to_be64 v)) = to_be32 (ucast v)" for v
    by (rule bit_word_eqI) (simp add: bit_simps bit_to_be64)
  have halves: "le_bytes 8 w = le_bytes 4 (ucast w :: u32) @ le_bytes 4 (ucast (drop_bit 32 w) :: u32)"
    for w :: u64
    by (simp add: le_bytes_def upt_rec; intro conjI; rule bit_word_eqI; simp add: bit_simps ac_simps)
  show ?thesis
    unfolding halves hi lo le_bytes_to_be32 by simp
qed

lemma le_bytes_swap16: "le_bytes 2 (swap16 v) = rev (le_bytes 2 v)"
  by (simp add: le_bytes_def upt_rec swap16_def; intro conjI; rule bit_word_eqI;
      auto simp: bit_simps ac_simps dest: bit_imp_le_length)

interpretation be16: byte_swap 2 swap16
  by unfold_locales (simp_all add: le_bytes_swap16)

interpretation be32: byte_swap 4 to_be32
  by unfold_locales (simp_all add: le_bytes_to_be32)

interpretation be64: byte_swap 8 to_be64
  by unfold_locales (simp_all add: le_bytes_to_be64)

text \<open>The facts the codecs of the wire protocol and of the log are proved with.\<close>

lemmas be_store = be16.stored_is_be be32.stored_is_be be64.stored_is_be
lemmas be_load = be16.load_stored be32.load_stored be64.load_stored
declare be_load [simp]
declare be_store [codec_simps] be_load [codec_simps]

end
