(* ===== verification/MQ_Message.thy ===== *)
theory MQ_Message
  imports MQ_Prelude
begin

text \<open>
  The data of \<open>Message.hpp\<close>: the message types of the wire protocol and the application
  message that flows through the queues, the router and the acknowledgement engine.
\<close>

text \<open>
  \<open>enum class MessageType : uint8_t\<close> has a fixed underlying type, so a \<open>static_cast\<close> from a
  received byte keeps values that name no enumerator; they are \<open>UNNAMED\<close>.
\<close>

datatype MessageType =
  PUBLISH | SUBSCRIBE | ACK | NACK | HEARTBEAT | EVENT_DATA | ERROR_RESP | UNNAMED u8

fun type_byte :: "MessageType \<Rightarrow> u8" where
  "type_byte PUBLISH = 0x01"
| "type_byte SUBSCRIBE = 0x02"
| "type_byte ACK = 0x03"
| "type_byte NACK = 0x04"
| "type_byte HEARTBEAT = 0x05"
| "type_byte EVENT_DATA = 0x06"
| "type_byte ERROR_RESP = 0x07"
| "type_byte (UNNAMED b) = b"

definition type_of_byte :: "u8 \<Rightarrow> MessageType" where
  "type_of_byte b =
     (if b = 0x01 then PUBLISH else if b = 0x02 then SUBSCRIBE else if b = 0x03 then ACK
      else if b = 0x04 then NACK else if b = 0x05 then HEARTBEAT else if b = 0x06 then EVENT_DATA
      else if b = 0x07 then ERROR_RESP else UNNAMED b)"

text \<open>A value in the range of the cast: \<open>UNNAMED\<close> only for bytes that name no enumerator.\<close>

definition proper_type :: "MessageType \<Rightarrow> bool" where
  "proper_type ty \<longleftrightarrow> type_of_byte (type_byte ty) = ty"

lemma type_byte_of_byte [simp, codec_simps]: "type_byte (type_of_byte b) = b"
  by (simp add: type_of_byte_def)

lemma type_of_byte_byte [simp, codec_simps]: "proper_type ty \<Longrightarrow> type_of_byte (type_byte ty) = ty"
  by (simp add: proper_type_def)

lemma proper_type_named [simp]:
  "proper_type PUBLISH" "proper_type SUBSCRIBE" "proper_type ACK" "proper_type NACK"
  "proper_type HEARTBEAT" "proper_type EVENT_DATA" "proper_type ERROR_RESP"
  by (simp_all add: proper_type_def type_of_byte_def)

lemma proper_type_of_byte [simp]: "proper_type (type_of_byte b)"
  by (simp add: proper_type_def)

record Message =
  msg_id :: u64
  topic :: string
  body :: bytes
  retry_count :: int

text \<open>\<open>Message{}\<close>: the member initialisers of the struct.\<close>

definition new_message :: Message where
  "new_message = \<lparr>msg_id = 0, topic = [], body = [], retry_count = 0\<rparr>"

lemma new_message_sel [simp]:
  "msg_id new_message = 0" "topic new_message = []" "body new_message = []"
  "retry_count new_message = 0"
  by (simp_all add: new_message_def)

end
