(* ===== verification/MQ_Protocol.thy ===== *)
theory MQ_Protocol
  imports MQ_Endian MQ_Message
begin

text \<open>
  The wire protocol of \<open>Protocol.hpp\<close>: frame encoding and header and payload decoding,
  with every vector access checked (a read past the end is \<open>Fault\<close>). Lengths of vectors
  are \<open>size_t\<close> values; the 16 and 32 bit length fields keep their width, so the
  truncating casts of the encoders are part of the model.
\<close>

section \<open>Definitions\<close>

definition FRAME_MAGIC :: u32 where
  "FRAME_MAGIC = 0xDEADBEEF"

definition HEADER_SIZE :: nat where
  "HEADER_SIZE = 17"

record ParsedPublish =
  pub_topic :: string
  pub_body :: bytes

record ParsedSubscribe =
  sub_topic :: string
  sub_group :: string

record ParsedHeader =
  h_magic :: u32
  h_type :: MessageType
  h_payload_len :: u32
  h_msg_id :: u64
  h_valid :: bool

definition encode_frame :: "MessageType \<Rightarrow> u64 \<Rightarrow> string \<Rightarrow> bytes \<Rightarrow> bytes" where
  "encode_frame ty mid tpc bdy =
     (let topic_len = (of_nat (length tpc) :: u16);
          payload_len = 2 + ucast topic_len + (of_nat (length bdy) :: u32)
      in le_bytes 4 (to_be32 FRAME_MAGIC) @
         [type_byte ty] @
         le_bytes 4 (to_be32 payload_len) @
         le_bytes 8 (to_be64 mid) @
         [ucast (drop_bit 8 topic_len), ucast (topic_len AND 0xFF)] @
         bytes_of_string tpc @
         bdy)"

definition encode_subscribe_frame :: "string \<Rightarrow> string \<Rightarrow> u64 \<Rightarrow> bytes" where
  "encode_subscribe_frame tpc grp mid =
     (let topic_len = (of_nat (length tpc) :: u16);
          group_len = (of_nat (length grp) :: u16);
          payload_len = (2 + ucast topic_len + 2 + ucast group_len :: u32)
      in le_bytes 4 (to_be32 FRAME_MAGIC) @
         [type_byte SUBSCRIBE] @
         le_bytes 4 (to_be32 payload_len) @
         le_bytes 8 (to_be64 mid) @
         [ucast (drop_bit 8 topic_len), ucast (topic_len AND 0xFF)] @
         bytes_of_string tpc @
         [ucast (drop_bit 8 group_len), ucast (group_len AND 0xFF)] @
         bytes_of_string grp)"

definition encode_ack_frame :: "MessageType \<Rightarrow> u64 \<Rightarrow> bytes" where
  "encode_ack_frame ty mid =
     le_bytes 4 (to_be32 FRAME_MAGIC) @
     [type_byte ty] @
     le_bytes 4 (to_be32 0) @
     le_bytes 8 (to_be64 mid)"

definition decode_header :: "bytes \<Rightarrow> ParsedHeader outcome" where
  "decode_header data =
     obind (subvec data 0 4) (\<lambda>raw_magic.
     let magic = from_be32 (load_le raw_magic) in
     obind (byte_at data 4) (\<lambda>ty.
     obind (subvec data 5 9) (\<lambda>raw_len.
     obind (subvec data 9 17) (\<lambda>raw_id.
     Done \<lparr>h_magic = magic, h_type = type_of_byte ty,
           h_payload_len = from_be32 (load_le raw_len),
           h_msg_id = from_be64 (load_le raw_id),
           h_valid = (magic = FRAME_MAGIC)\<rparr>))))"

definition decode_publish :: "bytes \<Rightarrow> ParsedPublish outcome" where
  "decode_publish payload =
     (if length payload < 2 then Done \<lparr>pub_topic = [], pub_body = []\<rparr> else
      obind (byte_at payload 0) (\<lambda>b0. obind (byte_at payload 1) (\<lambda>b1.
      let topic_len = unat (push_bit 8 (ucast b0) OR ucast b1 :: u16) in
      if length payload < 2 + topic_len then Done \<lparr>pub_topic = [], pub_body = []\<rparr> else
      obind (subvec payload 2 (2 + topic_len)) (\<lambda>t.
      let body_offset = 2 + topic_len in
      obind (subvec payload body_offset (length payload)) (\<lambda>b.
      Done \<lparr>pub_topic = string_of_bytes t, pub_body = b\<rparr>)))))"

definition decode_subscribe :: "bytes \<Rightarrow> ParsedSubscribe outcome" where
  "decode_subscribe payload =
     (if length payload < 2 then Done \<lparr>sub_topic = [], sub_group = []\<rparr> else
      obind (byte_at payload 0) (\<lambda>b0. obind (byte_at payload 1) (\<lambda>b1.
      let topic_len = unat (push_bit 8 (ucast b0) OR ucast b1 :: u16) in
      if length payload < 2 + topic_len + 2 then Done \<lparr>sub_topic = [], sub_group = []\<rparr> else
      obind (subvec payload 2 (2 + topic_len)) (\<lambda>t.
      let g_offset = 2 + topic_len in
      obind (byte_at payload g_offset) (\<lambda>g0. obind (byte_at payload (g_offset + 1)) (\<lambda>g1.
      let group_len = unat (push_bit 8 (ucast g0) OR ucast g1 :: u16);
          g_offset = g_offset + 2 in
      if g_offset + group_len \<le> length payload then
        obind (subvec payload g_offset (g_offset + group_len)) (\<lambda>g.
        Done \<lparr>sub_topic = string_of_bytes t, sub_group = string_of_bytes g\<rparr>)
      else Done \<lparr>sub_topic = string_of_bytes t, sub_group = []\<rparr>))))))"


section \<open>Reference layout\<close>

text \<open>
  The frame header as the protocol documents it: four bytes magic, one byte type, four
  bytes payload length, eight bytes message id, all big-endian.
\<close>

definition wire_header :: "u8 \<Rightarrow> nat \<Rightarrow> nat \<Rightarrow> bytes" where
  "wire_header ty len mid = be_bytes 4 0xDEADBEEF @ [ty] @ be_bytes 4 len @ be_bytes 8 mid"

lemma length_wire_header [simp]: "length (wire_header ty len mid) = 17"
  by (simp add: wire_header_def)

lemma header_fields:
  "le_bytes 4 (to_be32 FRAME_MAGIC) @ [ty] @ le_bytes 4 (to_be32 len) @ le_bytes 8 (to_be64 mid) @ rest =
   wire_header ty (unat len) (unat mid) @ rest"
  by (simp add: wire_header_def be_store FRAME_MAGIC_def)

lemma be16_field:
  "[ucast (drop_bit 8 l), ucast (l AND 0xFF)] = be_bytes 2 (unat (l :: u16))"
proof -
  have m: "(0xFF :: u16) = mask 8"
    by (simp add: mask_eq_exp_minus_1)
  have "(ucast (l AND 0xFF) :: u8) = ucast l"
    unfolding m by (rule bit_word_eqI) (simp add: bit_simps)
  then show ?thesis
    by (simp add: be_bytes_unat le_bytes_def upt_rec)
qed

lemma be16_read: "unat (push_bit 8 (ucast b0) OR ucast b1 :: u16) = be_val [b0, b1]"
  using unat_load_le [of 2 "[b1, b0]", where ?'a = 16] by (simp add: or.commute)

lemma unat_ucast_u16 [simp]: "unat (ucast (w :: u16) :: u32) = unat w"
  using unsigned_less [of w, where ?'a = nat] by (simp add: unsigned_ucast_eq take_bit_eq_mod)

lemma encode_frame_layout:
  "encode_frame ty mid tpc bdy =
     wire_header (type_byte ty) ((2 + length tpc mod 2 ^ 16 + length bdy) mod 2 ^ 32) (unat mid) @
     be_bytes 2 (length tpc mod 2 ^ 16) @ bytes_of_string tpc @ bdy"
proof -
  have "unat (2 + ucast (of_nat (length tpc) :: u16) + (of_nat (length bdy) :: u32)) =
      (2 + length tpc mod 2 ^ 16 + length bdy) mod 2 ^ 32"
    by (simp add: unat_word_ariths unat_of_nat mod_simps del: add_2_eq_Suc add_2_eq_Suc')
  then show ?thesis
    by (simp add: encode_frame_def Let_def header_fields [simplified] be16_field unat_of_nat)
qed

lemma encode_subscribe_frame_layout:
  "encode_subscribe_frame tpc grp mid =
     wire_header (type_byte SUBSCRIBE) (4 + length tpc mod 2 ^ 16 + length grp mod 2 ^ 16) (unat mid) @
     be_bytes 2 (length tpc mod 2 ^ 16) @ bytes_of_string tpc @
     be_bytes 2 (length grp mod 2 ^ 16) @ bytes_of_string grp"
proof -
  have "length tpc mod 65536 + length grp mod 65536 < 4294967292"
    using mod_less_divisor [of 65536 "length tpc"] mod_less_divisor [of 65536 "length grp"] by simp
  then have "unat (2 + ucast (of_nat (length tpc) :: u16) + 2 + ucast (of_nat (length grp) :: u16) :: u32) =
      4 + length tpc mod 2 ^ 16 + length grp mod 2 ^ 16"
    by (simp add: unat_word_ariths unat_of_nat mod_simps)
  then show ?thesis
    by (simp add: encode_subscribe_frame_def Let_def header_fields [simplified] be16_field unat_of_nat)
qed

lemma encode_ack_frame_layout: "encode_ack_frame ty mid = wire_header (type_byte ty) 0 (unat mid)"
  using header_fields [of "type_byte ty" 0 mid "[]"] by (simp add: encode_ack_frame_def)


section \<open>Decoding what was encoded\<close>

lemma decode_header_wire:
  assumes "len < 2 ^ 32" "mid < 2 ^ 64"
  shows "decode_header (wire_header ty len mid @ rest) =
    Done \<lparr>h_magic = FRAME_MAGIC, h_type = type_of_byte ty, h_payload_len = of_nat len,
          h_msg_id = of_nat mid, h_valid = True\<rparr>"
proof -
  let ?d = "wire_header ty len mid @ rest"
  have len: "to_be32 (load_le (be_bytes 4 len)) = of_nat len"
    using be32.load_stored [of "of_nat len"] assms(1) by (simp add: unat_of_nat)
  have mid: "to_be64 (load_le (be_bytes 8 mid)) = of_nat mid"
    using be64.load_stored [of "of_nat mid"] assms(2) by (simp add: unat_of_nat)
  have mag: "to_be32 (load_le (be_bytes 4 0xDEADBEEF)) = FRAME_MAGIC"
    using be32.load_stored [of FRAME_MAGIC] by (simp add: FRAME_MAGIC_def)
  have "subvec ?d 0 4 = Done (be_bytes 4 0xDEADBEEF)" "byte_at ?d 4 = Done ty"
    "subvec ?d 5 9 = Done (be_bytes 4 len)" "subvec ?d 9 17 = Done (be_bytes 8 mid)"
    by (simp_all add: wire_header_def nth_append)
  then show ?thesis
    by (simp add: decode_header_def from_be32_def from_be64_def len mid mag)
qed

text \<open>
  Closed forms of the payload decoders: they show that every read is inside the vector
  (no \<open>Fault\<close> on any input), and the round trips follow from them by rewriting.
\<close>

definition publish_of :: "bytes \<Rightarrow> ParsedPublish" where
  "publish_of p = (let n = be_val (take 2 p) in
     if length p < 2 \<or> length p < 2 + n then \<lparr>pub_topic = [], pub_body = []\<rparr>
     else \<lparr>pub_topic = string_of_bytes (take n (drop 2 p)), pub_body = drop (2 + n) p\<rparr>)"

definition subscribe_of :: "bytes \<Rightarrow> ParsedSubscribe" where
  "subscribe_of p = (let n = be_val (take 2 p); r = drop (2 + n) p; m = be_val (take 2 r) in
     if length p < 2 \<or> length p < 2 + n + 2 then \<lparr>sub_topic = [], sub_group = []\<rparr>
     else \<lparr>sub_topic = string_of_bytes (take n (drop 2 p)),
           sub_group = (if 2 + m \<le> length r then string_of_bytes (take m (drop 2 r)) else [])\<rparr>)"

lemma decode_publish_eq: "decode_publish p = Done (publish_of p)"
proof (cases "length p < 2")
  case True
  then show ?thesis by (simp add: decode_publish_def publish_of_def Let_def)
next
  case False
  then obtain b0 b1 r where "p = b0 # b1 # r"
    by (cases p; cases "tl p") auto
  then show ?thesis
    by (simp add: decode_publish_def publish_of_def Let_def be16_read)
qed

lemma decode_subscribe_eq: "decode_subscribe p = Done (subscribe_of p)"
proof (cases "length p < 2")
  case True
  then show ?thesis by (simp add: decode_subscribe_def subscribe_of_def Let_def)
next
  case False
  then obtain b0 b1 r where p: "p = b0 # b1 # r"
    by (cases p; cases "tl p") auto
  define n where "n = be_val [b0, b1]"
  show ?thesis
  proof (cases "length r < n + 2")
    case True
    then show ?thesis
      by (simp add: p decode_subscribe_def subscribe_of_def Let_def be16_read flip: n_def)
  next
    case False
    then have "take 2 (drop n r) = [r ! n, r ! Suc n]"
      by (simp add: take_Suc_conv_app_nth numeral_2_eq_2 Cons_nth_drop_Suc [symmetric])
    with False show ?thesis
      by (simp add: p decode_subscribe_def subscribe_of_def Let_def be16_read add.commute flip: n_def)
  qed
qed

lemma be_val_len16: "n < 2 ^ 16 \<Longrightarrow> be_val (be_bytes 2 n) = n"
  by (simp add: be_val_be_bytes)

lemma decode_publish_wire [codec_simps]:
  assumes "length tpc < 2 ^ 16"
  shows "decode_publish (be_bytes 2 (length tpc) @ bytes_of_string tpc @ bdy) =
    Done \<lparr>pub_topic = tpc, pub_body = bdy\<rparr>"
  by (simp add: decode_publish_eq publish_of_def Let_def be_val_len16 [OF assms])

lemma decode_subscribe_wire [codec_simps]:
  assumes "length tpc < 2 ^ 16" "length grp < 2 ^ 16"
  shows "decode_subscribe (be_bytes 2 (length tpc) @ bytes_of_string tpc @
      be_bytes 2 (length grp) @ bytes_of_string grp) = Done \<lparr>sub_topic = tpc, sub_group = grp\<rparr>"
  by (simp add: decode_subscribe_eq subscribe_of_def Let_def be_val_len16 assms [simplified])

lemma decode_header_total: "HEADER_SIZE \<le> length data \<Longrightarrow> \<exists>h. decode_header data = Done h"
  by (simp add: decode_header_def HEADER_SIZE_def Let_def)

lemma length_encode_frame: "length (encode_frame ty mid tpc bdy) = HEADER_SIZE + (2 + length tpc + length bdy)"
  by (simp add: encode_frame_layout HEADER_SIZE_def)

lemma decode_header_encode_frame:
  assumes "proper_type ty"
  shows "decode_header (encode_frame ty mid tpc bdy @ rest) = Done \<lparr>h_magic = FRAME_MAGIC, h_type = ty,
    h_payload_len = of_nat (2 + length tpc mod 2 ^ 16 + length bdy), h_msg_id = mid, h_valid = True\<rparr>"
proof -
  have "unat mid < 2 ^ 64"
    using unsigned_less [of mid, where ?'a = nat] by simp
  then have "decode_header (encode_frame ty mid tpc bdy @ rest) = Done \<lparr>h_magic = FRAME_MAGIC, h_type = ty,
    h_payload_len = of_nat ((2 + length tpc mod 2 ^ 16 + length bdy) mod 2 ^ 32), h_msg_id = mid, h_valid = True\<rparr>"
    using assms by (simp only: encode_frame_layout append_assoc) (subst decode_header_wire; simp)
  moreover have "(of_nat ((2 + length tpc mod 2 ^ 16 + length bdy) mod 2 ^ 32) :: u32) =
      of_nat (2 + length tpc mod 2 ^ 16 + length bdy)"
    by (simp only: word_unat_eq_iff unat_of_nat len_of_numeral_defs) simp
  ultimately show ?thesis by simp
qed

lemma drop_encode_frame:
  "length tpc < 2 ^ 16 \<Longrightarrow> drop HEADER_SIZE (encode_frame ty mid tpc bdy) =
    be_bytes 2 (length tpc) @ bytes_of_string tpc @ bdy"
  by (simp add: encode_frame_layout HEADER_SIZE_def)

lemma publish_of_bounds: "length (pub_topic (publish_of p)) < 2 ^ 16 \<and> length (pub_body (publish_of p)) \<le> length p"
proof (cases "length p < 2")
  case False
  then have "be_bytes 2 (be_val (take 2 p)) = take 2 p"
    using be_bytes_be_val [of "take 2 p"] by simp
  then have "be_val (take 2 p) = be_val (take 2 p) mod 256 ^ 2"
    using be_val_be_bytes [of 2 "be_val (take 2 p)"] by simp
  then have "be_val (take 2 p) < 256 ^ 2"
    by (metis mod_less_divisor zero_less_numeral zero_less_power)
  then show ?thesis by (auto simp: publish_of_def Let_def)
qed (simp add: publish_of_def Let_def)

lemma publish_of_inverse:
  assumes "pub_topic (publish_of p) \<noteq> []"
  shows "p = be_bytes 2 (length (pub_topic (publish_of p))) @
    bytes_of_string (pub_topic (publish_of p)) @ pub_body (publish_of p)"
proof -
  define n where "n = be_val (take 2 p)"
  have l: "2 \<le> length p" "2 + n \<le> length p"
    using assms by (auto simp: publish_of_def Let_def n_def split: if_splits)
  then have "length (take 2 p) = 2" by simp
  then have "be_bytes 2 n = take 2 p"
    by (metis be_bytes_be_val n_def)
  moreover have "p = take 2 p @ take n (drop 2 p) @ drop (2 + n) p"
    by (metis append_take_drop_id drop_drop add.commute)
  ultimately show ?thesis
    using l by (simp add: publish_of_def Let_def flip: n_def)
qed


section \<open>Properties\<close>

text \<open>
  C32: a frame built by \<open>encode_frame\<close> is decoded to what was encoded. The header decoder
  returns the type, the id and the length of the payload that follows it, and the payload
  decoder returns the topic and the body, for every topic shorter than 64 KiB and payload
  shorter than 4 GiB.
\<close>

theorem encode_frame_roundtrip:
  assumes "proper_type ty" and "length tpc < 2 ^ 16" and "2 + length tpc + length bdy < 2 ^ 32"
  shows "decode_header (encode_frame ty mid tpc bdy) =
      Done \<lparr>h_magic = FRAME_MAGIC, h_type = ty, h_payload_len = of_nat (2 + length tpc + length bdy),
            h_msg_id = mid, h_valid = True\<rparr> \<and>
    length (encode_frame ty mid tpc bdy) = HEADER_SIZE + unat (of_nat (2 + length tpc + length bdy) :: u32) \<and>
    decode_publish (drop HEADER_SIZE (encode_frame ty mid tpc bdy)) =
      Done \<lparr>pub_topic = tpc, pub_body = bdy\<rparr>"
proof -
  have "length tpc mod 2 ^ 16 = length tpc"
    using assms(2) by simp
  moreover have "unat (of_nat (2 + length tpc + length bdy) :: u32) = 2 + length tpc + length bdy"
    using assms(3) by (simp only: unat_of_nat len_of_numeral_defs) simp
  ultimately show ?thesis
    using assms decode_header_encode_frame [OF assms(1), of mid tpc bdy "[]"]
    by (simp only: drop_encode_frame decode_publish_wire length_encode_frame append_Nil2 simp_thms)
qed

theorem encode_frame_roundtrip_witness:
  "decode_publish (drop HEADER_SIZE (encode_frame EVENT_DATA 7 ''order.created'' [1, 2, 3])) =
     Done \<lparr>pub_topic = ''order.created'', pub_body = [1, 2, 3]\<rparr>"
  using encode_frame_roundtrip [of EVENT_DATA "''order.created''" "[1, 2, 3]" 7] by simp

text \<open>
  A subscribe frame is decoded to the topic and the group it was built from, with the
  header announcing exactly the bytes that follow; an ACK, NACK or heartbeat frame is a
  bare header with an empty payload.
\<close>

theorem encode_subscribe_roundtrip:
  assumes "length tpc < 2 ^ 16" and "length grp < 2 ^ 16" and "proper_type ty"
  shows "decode_header (encode_subscribe_frame tpc grp mid) =
      Done \<lparr>h_magic = FRAME_MAGIC, h_type = SUBSCRIBE,
            h_payload_len = of_nat (4 + length tpc + length grp), h_msg_id = mid, h_valid = True\<rparr> \<and>
    length (encode_subscribe_frame tpc grp mid) = HEADER_SIZE + (4 + length tpc + length grp) \<and>
    decode_subscribe (drop HEADER_SIZE (encode_subscribe_frame tpc grp mid)) =
      Done \<lparr>sub_topic = tpc, sub_group = grp\<rparr> \<and>
    decode_header (encode_ack_frame ty mid) =
      Done \<lparr>h_magic = FRAME_MAGIC, h_type = ty, h_payload_len = 0, h_msg_id = mid, h_valid = True\<rparr> \<and>
    length (encode_ack_frame ty mid) = HEADER_SIZE"
proof -
  have mid: "unat mid < 2 ^ 64"
    using unsigned_less [of mid, where ?'a = nat] by simp
  have lay: "encode_subscribe_frame tpc grp mid =
      wire_header (type_byte SUBSCRIBE) (4 + length tpc + length grp) (unat mid) @
      be_bytes 2 (length tpc) @ bytes_of_string tpc @ be_bytes 2 (length grp) @ bytes_of_string grp"
    using assms by (simp add: encode_subscribe_frame_layout)
  have "type_of_byte 2 = SUBSCRIBE"
    by (simp add: type_of_byte_def)
  then have "decode_header (encode_subscribe_frame tpc grp mid) =
      Done \<lparr>h_magic = FRAME_MAGIC, h_type = SUBSCRIBE,
            h_payload_len = of_nat (4 + length tpc + length grp), h_msg_id = mid, h_valid = True\<rparr>"
    unfolding lay using assms mid by (subst decode_header_wire) simp_all
  moreover have "drop HEADER_SIZE (encode_subscribe_frame tpc grp mid) =
      be_bytes 2 (length tpc) @ bytes_of_string tpc @ be_bytes 2 (length grp) @ bytes_of_string grp"
    by (simp add: lay HEADER_SIZE_def)
  moreover have "decode_header (encode_ack_frame ty mid) =
      Done \<lparr>h_magic = FRAME_MAGIC, h_type = ty, h_payload_len = 0, h_msg_id = mid, h_valid = True\<rparr>"
    using decode_header_wire [of 0 "unat mid" "type_byte ty" "[]"] mid assms(3)
    by (simp add: encode_ack_frame_layout)
  ultimately show ?thesis
    using decode_subscribe_wire [OF assms(1,2)]
    by (simp add: lay encode_ack_frame_layout HEADER_SIZE_def)
qed

theorem encode_subscribe_roundtrip_witness:
  "decode_subscribe (drop HEADER_SIZE (encode_subscribe_frame ''order.*'' ''payment'' 0)) =
     Done \<lparr>sub_topic = ''order.*'', sub_group = ''payment''\<rparr>"
  using encode_subscribe_roundtrip [of "''order.*''" "''payment''" ACK 0] by simp

text \<open>
  The payload decoders read inside the vector on every input, hostile ones included,
  and a payload from which a topic was read is byte for byte the encoding of that topic
  and body: a truncated or inconsistent length field is never read as a publication.
\<close>

theorem payload_decoders_safe:
  "\<exists>p s. decode_publish payload = Done p \<and> decode_subscribe payload = Done s \<and>
     (pub_topic p \<noteq> [] \<longrightarrow>
        payload = be_bytes 2 (length (pub_topic p)) @ bytes_of_string (pub_topic p) @ pub_body p)"
  using publish_of_inverse [of payload] by (auto simp: decode_publish_eq decode_subscribe_eq)

theorem payload_decoders_safe_witness:
  "\<exists>p. decode_publish (be_bytes 2 (length ''ab'') @ bytes_of_string ''ab'' @ [7]) = Done p \<and>
     pub_topic p \<noteq> [] \<and>
     be_bytes 2 (length ''ab'') @ bytes_of_string ''ab'' @ [7] =
       be_bytes 2 (length (pub_topic p)) @ bytes_of_string (pub_topic p) @ pub_body p"
proof -
  define q where "q = be_bytes 2 (length ''ab'') @ bytes_of_string ''ab'' @ [7]"
  have d: "decode_publish q = Done \<lparr>pub_topic = ''ab'', pub_body = [7]\<rparr>"
    unfolding q_def by (rule decode_publish_wire) simp
  obtain p where p: "decode_publish q = Done p"
    "pub_topic p \<noteq> [] \<longrightarrow> q = be_bytes 2 (length (pub_topic p)) @ bytes_of_string (pub_topic p) @ pub_body p"
    using payload_decoders_safe [of q] by blast
  with d have "pub_topic p \<noteq> []" by auto
  with p show ?thesis
    unfolding q_def by blast
qed

text \<open>
  The encoder writes the whole topic but stores its length in 16 bits. For a topic of
  64 KiB or more the header announces fewer bytes than the frame has, so the receiver
  loses the frame boundary: it takes the rest of the frame for the next header.
\<close>

theorem oversize_topic_desynchronises:
  assumes "proper_type ty" and "2 ^ 16 \<le> length tpc" and "2 + length tpc + length bdy < 2 ^ 32"
  shows "\<exists>h. decode_header (encode_frame ty mid tpc bdy) = Done h \<and> h_valid h \<and>
    HEADER_SIZE + unat (h_payload_len h) < length (encode_frame ty mid tpc bdy)"
proof -
  have "length tpc mod 2 ^ 16 < length tpc"
    using assms(2) by (meson mod_less_divisor order_less_le_trans zero_less_power zero_less_numeral)
  moreover from this have "unat (of_nat (2 + length tpc mod 2 ^ 16 + length bdy) :: u32) =
      2 + length tpc mod 2 ^ 16 + length bdy"
    using assms(3) by (simp only: unat_of_nat len_of_numeral_defs) simp
  ultimately show ?thesis
    using decode_header_encode_frame [OF assms(1), of mid tpc bdy "[]"]
    by (simp add: length_encode_frame)
qed

theorem oversize_topic_desynchronises_witness:
  "\<exists>h. decode_header (encode_frame EVENT_DATA 1 (replicate (2 ^ 16) CHR ''a'') []) = Done h \<and>
    HEADER_SIZE + unat (h_payload_len h) < length (encode_frame EVENT_DATA 1 (replicate (2 ^ 16) CHR ''a'') [])"
  using oversize_topic_desynchronises [of EVENT_DATA "replicate (2 ^ 16) CHR ''a''" "[]" 1] by auto

end
