(* ===== verification/MQ_Containers.thy ===== *)
theory MQ_Containers
  imports MQ_Prelude "HOL-Library.Product_Lexorder" "HOL-Library.AList"
begin

text \<open>
  The containers of the C++ standard library the broker uses, with the interfaces its
  components rely on as locales:
  \<^item> \<open>key_map\<close>: a map with an iteration order; \<open>std::map\<close> (association list sorted by key)
    and \<open>std::unordered_map\<close> (association list in bucket order) implement it;
  \<^item> \<open>min_heap\<close>: \<open>std::priority_queue\<close> with \<open>std::greater\<close>, as a sorted list.
  The bucket order of an unordered map is not specified by the language. A theorem that
  depends on iteration holds for every order of the list, and what a component computes
  by iterating is stated up to permutation.
\<close>

section \<open>Maps\<close>

lemma mset_map_of:
  "distinct (map fst xs) \<Longrightarrow> mset xs = mset_set {(k, v). map_of xs k = Some v}"
proof -
  assume d: "distinct (map fst xs)"
  then have "set xs = {(k, v). map_of xs k = Some v}"
    by (auto simp: map_of_eq_Some_iff)
  with d show ?thesis
    by (metis distinct_map mset_set_set)
qed

locale key_map =
  fixes lookup :: "'m \<Rightarrow> 'k \<Rightarrow> 'v option"
    and update :: "'k \<Rightarrow> 'v \<Rightarrow> 'm \<Rightarrow> 'm"
    and delete :: "'k \<Rightarrow> 'm \<Rightarrow> 'm"
    and items :: "'m \<Rightarrow> ('k \<times> 'v) list"
    and invar :: "'m \<Rightarrow> bool"
  assumes lookup_update: "invar m \<Longrightarrow> lookup (update k v m) = (lookup m)(k \<mapsto> v)"
    and lookup_delete: "invar m \<Longrightarrow> lookup (delete k m) = (lookup m)(k := None)"
    and lookup_items: "invar m \<Longrightarrow> map_of (items m) = lookup m"
    and distinct_items: "invar m \<Longrightarrow> distinct (map fst (items m))"
    and invar_update: "invar m \<Longrightarrow> invar (update k v m)"
    and invar_delete: "invar m \<Longrightarrow> invar (delete k m)"
begin

lemmas specs = lookup_update lookup_delete lookup_items distinct_items invar_update invar_delete

lemma in_items_iff: "invar m \<Longrightarrow> (k, v) \<in> set (items m) \<longleftrightarrow> lookup m k = Some v"
  by (metis distinct_items lookup_items map_of_eq_Some_iff)

lemma mset_items: "invar m \<Longrightarrow> mset (items m) = mset_set {(k, v). lookup m k = Some v}"
  using mset_map_of [of "items m"] by (simp add: specs)

lemma finite_graph: "invar m \<Longrightarrow> finite {(k, v). lookup m k = Some v}"
proof -
  assume m: "invar m"
  then have "{(k, v). lookup m k = Some v} = set (items m)"
    by (auto simp: in_items_iff)
  then show ?thesis by simp
qed

lemma mset_delete:
  assumes m: "invar m" and k: "lookup m k = Some v"
  shows "mset (items m) = add_mset (k, v) (mset (items (delete k m)))"
proof -
  let ?G = "{(k, v). lookup m k = Some v}"
  have "{(j, w). lookup (delete k m) j = Some w} = ?G - {(k, v)}"
    using k by (auto simp: lookup_delete [OF m] split: if_splits)
  moreover have "mset_set ?G = add_mset (k, v) (mset_set (?G - {(k, v)}))"
    using k by (intro mset_set.remove finite_graph m) simp
  ultimately show ?thesis
    by (simp add: mset_items m invar_delete)
qed

end

subsection \<open>\<open>std::map\<close>\<close>

type_synonym ('k, 'v) std_map = "('k \<times> 'v) list"

fun om_update :: "'k::linorder \<Rightarrow> 'v \<Rightarrow> ('k, 'v) std_map \<Rightarrow> ('k, 'v) std_map" where
  "om_update k v [] = [(k, v)]"
| "om_update k v ((j, w) # m) =
     (if k < j then (k, v) # (j, w) # m
      else if k = j then (k, v) # m
      else (j, w) # om_update k v m)"

fun om_delete :: "'k::linorder \<Rightarrow> ('k, 'v) std_map \<Rightarrow> ('k, 'v) std_map" where
  "om_delete k [] = []"
| "om_delete k ((j, w) # m) = (if k = j then m else (j, w) # om_delete k m)"

definition om_invar :: "('k::linorder, 'v) std_map \<Rightarrow> bool" where
  "om_invar m \<longleftrightarrow> sorted_wrt (<) (map fst m)"

lemma om_invar_simps [simp]:
  "om_invar []" "om_invar ((k, v) # m) \<longleftrightarrow> (\<forall>j \<in> fst ` set m. k < j) \<and> om_invar m"
  by (auto simp: om_invar_def)

lemma map_of_om_update: "map_of (om_update k v m) = (map_of m)(k \<mapsto> v)"
  by (induction k v m rule: om_update.induct) (auto simp: fun_eq_iff)

lemma om_keys_update: "fst ` set (om_update k v m) = insert k (fst ` set m)"
  by (induction k v m rule: om_update.induct) auto

lemma om_set_update: "x \<in> set (om_update k v m) \<Longrightarrow> x = (k, v) \<or> x \<in> set m"
  by (induction k v m rule: om_update.induct) (auto split: if_splits)

lemma om_set_delete: "set (om_delete k m) \<subseteq> set m"
  by (induction k m rule: om_delete.induct) auto

lemma om_invar_update: "om_invar m \<Longrightarrow> om_invar (om_update k v m)"
  by (induction k v m rule: om_update.induct) (force simp: om_keys_update)+

lemma om_invar_delete: "om_invar m \<Longrightarrow> om_invar (om_delete k m)"
  by (induction k m rule: om_delete.induct) (use om_set_delete in fastforce)+

lemma om_distinct: "om_invar m \<Longrightarrow> distinct (map fst m)"
  by (induction m) force+

lemma map_of_om_delete: "om_invar m \<Longrightarrow> map_of (om_delete k m) = (map_of m)(k := None)"
proof (induction k m rule: om_delete.induct)
  case (2 k j w m)
  then have "j \<notin> fst ` set m" by force
  then have "map_of m j = None" by (simp add: map_of_eq_None_iff)
  with 2 show ?case by (auto simp: fun_eq_iff)
qed simp

interpretation om: key_map map_of om_update om_delete "\<lambda>m. m" om_invar
  by unfold_locales
    (simp_all add: map_of_om_update map_of_om_delete om_invar_update om_invar_delete om_distinct)

subsection \<open>\<open>std::unordered_map\<close>\<close>

type_synonym ('k, 'v) unordered_map = "('k \<times> 'v) list"

definition um_invar :: "('k, 'v) unordered_map \<Rightarrow> bool" where
  "um_invar m \<longleftrightarrow> distinct (map fst m)"

interpretation um: key_map map_of AList.update AList.delete "\<lambda>m. m" um_invar
  by unfold_locales
    (auto simp: um_invar_def update_conv' AList.delete_conv' distinct_update distinct_delete fun_eq_iff)


section \<open>Priority queues\<close>

locale min_heap =
  fixes push :: "'a::linorder \<Rightarrow> 'q \<Rightarrow> 'q"
    and top :: "'q \<Rightarrow> 'a"
    and pop :: "'q \<Rightarrow> 'q"
    and is_empty :: "'q \<Rightarrow> bool"
    and elems :: "'q \<Rightarrow> 'a multiset"
    and invar :: "'q \<Rightarrow> bool"
  assumes elems_push: "invar q \<Longrightarrow> elems (push x q) = add_mset x (elems q)"
    and empty_iff: "invar q \<Longrightarrow> is_empty q \<longleftrightarrow> elems q = {#}"
    and elems_pop: "invar q \<Longrightarrow> \<not> is_empty q \<Longrightarrow> elems q = add_mset (top q) (elems (pop q))"
    and top_least: "invar q \<Longrightarrow> x \<in># elems q \<Longrightarrow> top q \<le> x"
    and invar_push: "invar q \<Longrightarrow> invar (push x q)"
    and invar_pop: "invar q \<Longrightarrow> \<not> is_empty q \<Longrightarrow> invar (pop q)"
begin

text \<open>When the top is beyond a bound, so is everything in the heap.\<close>

lemma top_greater: "invar q \<Longrightarrow> b < top q \<Longrightarrow> x \<in># elems q \<Longrightarrow> b < x"
  using top_least by (blast intro: less_le_trans)

end

definition pq_push :: "'a::linorder \<Rightarrow> 'a list \<Rightarrow> 'a list" where
  "pq_push x q = insort x q"

interpretation pq: min_heap pq_push hd tl "\<lambda>q. q = []" mset sorted
proof unfold_locales
  fix q :: "'a list" and x
  assume "sorted q" "x \<in># mset q"
  then show "hd q \<le> x" by (cases q) auto
next
  fix q :: "'a list"
  assume "q \<noteq> []"
  then show "mset q = add_mset (hd q) (mset (tl q))" by (cases q) auto
qed (auto simp: pq_push_def sorted_insort sorted_tl)

end
