(* ===== verification/MQ_TcpServer.thy ===== *)
theory MQ_TcpServer
  imports MQ_Protocol MQ_Containers
begin

text \<open>
  \<open>TcpServer\<close>: the client table, the per-connection reader that cuts the TCP stream into
  frames, and the send loop. The results of the socket calls are arguments: what
  \<open>recv\<close> returns is a list of chunks (the list ends where \<open>recv\<close> returns 0 or an error),
  what \<open>send\<close> returns is a function of the call number and the length offered. The locale
  \<open>stream_framer\<close> states what makes cutting a stream independent of its fragmentation.
\<close>

section \<open>Definitions\<close>

definition INVALID_SOCK :: int where
  "INVALID_SOCK = -1"

text \<open>
  The server's fields; \<open>clients_\<close> maps an identifier to the socket of its \<open>ClientConn\<close>, and
  \<open>wire\<close> holds, for each socket, the bytes the kernel accepted so far.
\<close>

record TcpServer =
  port :: u16
  listen_sock :: int
  running :: bool
  clients :: "(ClientId, int) unordered_map"
  wire :: "int \<Rightarrow> bytes"

definition new_server :: "u16 \<Rightarrow> TcpServer" where
  "new_server p = \<lparr>port = p, listen_sock = INVALID_SOCK, running = False, clients = [], wire = (\<lambda>_. [])\<rparr>"

text \<open>\<open>start\<close>: the results of \<open>socket\<close>, \<open>bind\<close> and \<open>listen\<close> are given; the first component
  is the message of the \<open>runtime_error\<close> it throws, if any.\<close>

definition start :: "TcpServer \<Rightarrow> int \<Rightarrow> int \<Rightarrow> int \<Rightarrow> string option \<times> TcpServer" where
  "start s socket_res bind_res listen_res =
     (let s' = s\<lparr>listen_sock := socket_res\<rparr> in
      if listen_sock s' = INVALID_SOCK then (Some ''socket() failed'', s')
      else if bind_res < 0 then (Some (''bind() failed on port '' @ to_string (uint (port s'))), s')
      else if listen_res < 0 then (Some ''listen() failed'', s')
      else (None, s'\<lparr>running := True\<rparr>))"

definition stop :: "TcpServer \<Rightarrow> TcpServer" where
  "stop s = (let s' = s\<lparr>running := False\<rparr> in
     if listen_sock s' \<noteq> INVALID_SOCK then s'\<lparr>listen_sock := INVALID_SOCK\<rparr> else s')"

text \<open>One turn of \<open>accept_loop\<close>: \<open>None\<close> leaves the loop.\<close>

definition accept_step :: "TcpServer \<Rightarrow> int \<Rightarrow> (ClientId \<times> TcpServer) option" where
  "accept_step s client_sock =
     (if \<not> running s then None
      else if client_sock = INVALID_SOCK then None
      else Some (client_sock, s\<lparr>clients := AList.update client_sock client_sock (clients s)\<rparr>))"

definition close_client :: "ClientId \<Rightarrow> TcpServer \<Rightarrow> TcpServer" where
  "close_client cid s = s\<lparr>clients := AList.delete cid (clients s)\<rparr>"

text \<open>The inner loop of \<open>handle_client\<close> either waits for more data, keeping the unread
  bytes, or drops the connection.\<close>

datatype 's drained = Open bytes 's | Dropped 's

type_synonym 's frame_handler = "ClientId \<Rightarrow> MessageType \<Rightarrow> u64 \<Rightarrow> bytes \<Rightarrow> 's \<Rightarrow> 's outcome"

function parse_frames :: "'s frame_handler \<Rightarrow> ClientId \<Rightarrow> bytes \<Rightarrow> 's \<Rightarrow> 's drained outcome" where
  "parse_frames on_frame cid read_buf s =
     (if length read_buf < HEADER_SIZE then Done (Open read_buf s) else
      obind (decode_header read_buf) (\<lambda>hdr.
      if \<not> h_valid hdr then Done (Dropped s) else
      let total_frame = HEADER_SIZE + unat (h_payload_len hdr) in
      if length read_buf < total_frame then Done (Open read_buf s) else
      obind (subvec read_buf HEADER_SIZE total_frame) (\<lambda>payload.
      obind (on_frame cid (h_type hdr) (h_msg_id hdr) payload s) (\<lambda>s'.
      parse_frames on_frame cid (drop total_frame read_buf) s'))))"
  by pat_completeness auto
termination
  by (relation "measure (\<lambda>(h, c, buf, s). length buf)") (auto simp: HEADER_SIZE_def)

declare parse_frames.simps [simp del]

definition disconnect :: "'s frame_handler \<Rightarrow> (ClientId \<Rightarrow> 's \<Rightarrow> 's) \<Rightarrow> ClientId \<Rightarrow> 's \<Rightarrow> 's outcome" where
  "disconnect on_frame close cid s = on_frame cid ERROR_RESP 0 [] (close cid s)"

fun handle_client :: "'s frame_handler \<Rightarrow> (ClientId \<Rightarrow> 's \<Rightarrow> 's) \<Rightarrow> ClientId \<Rightarrow> bytes \<Rightarrow> bytes list \<Rightarrow> 's \<Rightarrow> 's outcome" where
  "handle_client on_frame close cid read_buf [] s = disconnect on_frame close cid s"
| "handle_client on_frame close cid read_buf (tmp # chunks) s =
     obind (parse_frames on_frame cid (read_buf @ tmp) s) (\<lambda>d. case d of
       Open read_buf' s' \<Rightarrow> handle_client on_frame close cid read_buf' chunks s'
     | Dropped s' \<Rightarrow> disconnect on_frame close cid s')"

text \<open>The loop of \<open>send_to\<close>; \<open>os_send k len\<close> is the result of the \<open>k\<close>-th call of \<open>send\<close>, offered
  \<open>len\<close> bytes after the cast to \<open>int\<close>.\<close>

function send_loop :: "(nat \<Rightarrow> int \<Rightarrow> int) \<Rightarrow> nat \<Rightarrow> bytes \<Rightarrow> nat \<Rightarrow> nat" where
  "send_loop os_send k frame total_sent =
     (if total_sent < length frame then
        let sent = os_send k (sint (of_nat (length frame - total_sent) :: u32))
        in if sent \<le> 0 then total_sent
           else send_loop os_send (Suc k) frame (total_sent + nat sent)
      else total_sent)"
  by pat_completeness auto
termination
  by (relation "measure (\<lambda>(os, k, frame, n). length frame - n)") auto

declare send_loop.simps [simp del]

definition send_to :: "(nat \<Rightarrow> int \<Rightarrow> int) \<Rightarrow> TcpServer \<Rightarrow> ClientId \<Rightarrow> bytes \<Rightarrow> TcpServer" where
  "send_to os_send s cid frame =
     (case map_of (clients s) cid of
        None \<Rightarrow> s
      | Some sock \<Rightarrow>
          s\<lparr>wire := (wire s)(sock := wire s sock @ take (send_loop os_send 0 frame 0) frame)\<rparr>)"


section \<open>Cutting a stream into frames\<close>

datatype 'f frame_step = NeedMore | Corrupt | Frame 'f bytes

locale stream_framer =
  fixes next_frame :: "bytes \<Rightarrow> 'f frame_step"
    and handle :: "'f \<Rightarrow> 's \<Rightarrow> 's outcome"
    and drain :: "bytes \<Rightarrow> 's \<Rightarrow> 's drained outcome"
  assumes frame_extends: "next_frame buf = Frame f rest \<Longrightarrow> next_frame (buf @ ext) = Frame f (rest @ ext)"
    and corrupt_extends: "next_frame buf = Corrupt \<Longrightarrow> next_frame (buf @ ext) = Corrupt"
    and progress: "next_frame buf = Frame f rest \<Longrightarrow> length rest < length buf"
    and drain_eq: "drain buf s = (case next_frame buf of
        NeedMore \<Rightarrow> Done (Open buf s)
      | Corrupt \<Rightarrow> Done (Dropped s)
      | Frame f rest \<Rightarrow> obind (handle f s) (drain rest))"
begin

text \<open>What is left in the buffer and what arrives later is parsed as if it had come at once.\<close>

lemma drain_append:
  "drain (buf @ ext) s = obind (drain buf s) (\<lambda>d. case d of
     Open rest s' \<Rightarrow> drain (rest @ ext) s' | Dropped s' \<Rightarrow> Done (Dropped s'))"
proof (induction buf arbitrary: s rule: length_induct)
  case (1 buf)
  show ?case
  proof (cases "next_frame buf")
    case NeedMore
    then show ?thesis by (simp add: drain_eq [of buf])
  next
    case Corrupt
    then show ?thesis by (simp add: drain_eq [of buf] drain_eq [of "buf @ ext"] corrupt_extends)
  next
    case (Frame f rest)
    from frame_extends [OF this, of ext]
    have "drain (buf @ ext) s = obind (handle f s) (drain (rest @ ext))"
      by (simp add: drain_eq [of "buf @ ext"])
    also have "\<dots> = obind (handle f s) (\<lambda>s'. obind (drain rest s') (\<lambda>d. case d of
        Open r s'' \<Rightarrow> drain (r @ ext) s'' | Dropped s'' \<Rightarrow> Done (Dropped s'')))"
      using 1 progress [OF Frame] by presburger
    also have "\<dots> = obind (drain buf s) (\<lambda>d. case d of
        Open r s'' \<Rightarrow> drain (r @ ext) s'' | Dropped s'' \<Rightarrow> Done (Dropped s''))"
      by (simp add: drain_eq [of buf] Frame obind_assoc)
    finally show ?thesis .
  qed
qed

end

text \<open>The framing of the broker: one turn of the inner loop of \<open>handle_client\<close>, without the
  handler call.\<close>

definition next_frame :: "bytes \<Rightarrow> (MessageType \<times> u64 \<times> bytes) frame_step" where
  "next_frame buf =
     (if length buf < HEADER_SIZE then NeedMore else
      case decode_header buf of
        Done hdr \<Rightarrow>
          (if \<not> h_valid hdr then Corrupt
           else if length buf < HEADER_SIZE + unat (h_payload_len hdr) then NeedMore
           else Frame (h_type hdr, h_msg_id hdr, take (unat (h_payload_len hdr)) (drop HEADER_SIZE buf))
                  (drop (HEADER_SIZE + unat (h_payload_len hdr)) buf))
      | _ \<Rightarrow> NeedMore)"

lemma decode_header_append:
  "HEADER_SIZE \<le> length buf \<Longrightarrow> decode_header (buf @ ext) = decode_header buf"
  by (simp add: decode_header_def HEADER_SIZE_def Let_def nth_append)

lemma next_frame_payload: "next_frame buf = Frame (ty, mid, payload) rest \<Longrightarrow> length payload < 2 ^ 32"
proof -
  assume "next_frame buf = Frame (ty, mid, payload) rest"
  then obtain hdr :: ParsedHeader where "payload = take (unat (h_payload_len hdr)) (drop HEADER_SIZE buf)"
    by (auto simp: next_frame_def split: if_splits outcome.splits)
  then have "length payload \<le> unat (h_payload_len hdr)" by simp
  then show ?thesis
    using unsigned_less [of "h_payload_len hdr", where ?'a = nat] by simp
qed

lemma parse_frames_eq:
  "parse_frames on_frame cid buf s = (case next_frame buf of
     NeedMore \<Rightarrow> Done (Open buf s)
   | Corrupt \<Rightarrow> Done (Dropped s)
   | Frame (ty, mid, payload) rest \<Rightarrow>
       obind (on_frame cid ty mid payload s) (parse_frames on_frame cid rest))"
proof (cases "length buf < HEADER_SIZE")
  case True
  then show ?thesis by (simp add: parse_frames.simps [of on_frame cid buf] next_frame_def)
next
  case False
  then obtain hdr where "decode_header buf = Done hdr"
    using decode_header_total [of buf] by auto
  with False show ?thesis
    by (simp add: parse_frames.simps [of on_frame cid buf] next_frame_def Let_def)
qed

interpretation tcp: stream_framer next_frame "\<lambda>(ty, mid, payload). on_frame cid ty mid payload"
  "parse_frames on_frame cid" for on_frame :: "'s frame_handler" and cid
proof unfold_locales
  fix buf f rest ext assume "next_frame buf = Frame f rest"
  then show "next_frame (buf @ ext) = Frame f (rest @ ext)" "length rest < length buf"
    by (auto simp: next_frame_def decode_header_append not_less HEADER_SIZE_def
        split: if_splits outcome.splits)
next
  fix buf :: bytes and ext assume "next_frame buf = Corrupt"
  then show "next_frame (buf @ ext) = Corrupt"
    by (auto simp: next_frame_def decode_header_append not_less split: if_splits outcome.splits)
next
  fix buf and s :: 's
  show "parse_frames on_frame cid buf s = (case next_frame buf of
     NeedMore \<Rightarrow> Done (Open buf s)
   | Corrupt \<Rightarrow> Done (Dropped s)
   | Frame f rest \<Rightarrow> obind ((case f of (ty, mid, payload) \<Rightarrow> on_frame cid ty mid payload) s)
       (parse_frames on_frame cid rest))"
    by (subst parse_frames_eq) (auto split: frame_step.split)
qed

text \<open>
  What the reader needs from the handler it calls back: on a state that satisfies the
  handler's invariant, no payload the header can announce makes it fault, and the
  invariant holds again afterwards.
\<close>

locale frame_consumer =
  fixes on_frame :: "'s frame_handler"
    and close :: "ClientId \<Rightarrow> 's \<Rightarrow> 's"
    and inv :: "'s \<Rightarrow> bool"
  assumes handler_no_fault: "inv s \<Longrightarrow> length payload < 2 ^ 32 \<Longrightarrow> on_frame cid ty mid payload s \<noteq> Fault"
    and handler_keeps: "inv s \<Longrightarrow> length payload < 2 ^ 32 \<Longrightarrow> on_frame cid ty mid payload s = Done s' \<Longrightarrow> inv s'"
    and close_keeps: "inv s \<Longrightarrow> inv (close cid s)"
begin

lemma safe_handler: "inv s \<Longrightarrow> length payload < 2 ^ 32 \<Longrightarrow> safe_outcome inv (on_frame cid ty mid payload s)"
  by (auto simp: safe_outcome_def handler_no_fault handler_keeps)

lemma parse_frames_safe:
  "inv s \<Longrightarrow> safe_outcome (\<lambda>d. case d of Open rest s' \<Rightarrow> inv s' | Dropped s' \<Rightarrow> inv s') (parse_frames on_frame cid buf s)"
proof (induction buf arbitrary: s rule: length_induct)
  case (1 buf)
  show ?case
  proof (cases "next_frame buf")
    case (Frame f rest)
    obtain ty mid payload where f: "f = (ty, mid, payload)" by (cases f)
    have "length payload < 2 ^ 32"
      by (rule next_frame_payload [OF Frame [unfolded f]])
    then show ?thesis
      unfolding parse_frames_eq [of on_frame cid buf] Frame f frame_step.case prod.case
      using 1 tcp.progress [OF Frame] by (intro safe_outcome_obind [OF safe_handler]) blast+
  qed (use 1 in \<open>simp_all add: parse_frames_eq [of on_frame cid buf]\<close>)
qed

lemma handle_client_safe: "inv s \<Longrightarrow> safe_outcome inv (handle_client on_frame close cid buf chunks s)"
proof (induction chunks arbitrary: buf s)
  case Nil
  then show ?case by (simp add: disconnect_def safe_handler close_keeps)
next
  case (Cons c cs)
  show ?case
    unfolding handle_client.simps
    by (rule safe_outcome_obind [OF parse_frames_safe [OF Cons.prems]])
      (auto simp: Cons.IH disconnect_def safe_handler close_keeps split: drained.split_asm)
qed

end

lemma handle_client_append:
  "handle_client on_frame close cid buf (c # d # cs) s = handle_client on_frame close cid buf ((c @ d) # cs) s"
proof -
  have "parse_frames on_frame cid (buf @ c @ d) s = obind (parse_frames on_frame cid (buf @ c) s) (\<lambda>r. case r of
     Open rest s' \<Rightarrow> parse_frames on_frame cid (rest @ d) s' | Dropped s' \<Rightarrow> Done (Dropped s'))"
    using tcp.drain_append [of on_frame cid "buf @ c" d s] by simp
  then show ?thesis
    by (simp add: obind_assoc) (intro obind_cong refl; simp split: drained.split)
qed

lemma handle_client_concat:
  "handle_client on_frame close cid buf (c # cs) s = handle_client on_frame close cid buf [concat (c # cs)] s"
proof (induction cs arbitrary: c)
  case (Cons d cs)
  show ?case
    unfolding handle_client_append using Cons [of "c @ d"] by simp
qed simp


section \<open>Streams of whole frames\<close>

fun frame_bytes :: "MessageType \<times> u64 \<times> bytes \<Rightarrow> bytes" where
  "frame_bytes (ty, mid, payload) = wire_header (type_byte ty) (length payload) (unat mid) @ payload"

fun frame_ok :: "MessageType \<times> u64 \<times> bytes \<Rightarrow> bool" where
  "frame_ok (ty, mid, payload) \<longleftrightarrow> proper_type ty \<and> length payload < 2 ^ 32"

lemma next_frame_frame_bytes [codec_simps]:
  assumes "frame_ok f"
  shows "next_frame (frame_bytes f @ rest) = Frame f rest"
proof -
  obtain ty mid payload where f: "f = (ty, mid, payload)" by (cases f)
  have "unat mid < 2 ^ 64"
    using unsigned_less [of mid, where ?'a = nat] by simp
  with assms show ?thesis
    by (simp add: next_frame_def f HEADER_SIZE_def decode_header_wire [simplified] unat_of_nat)
qed

lemma frame_bytes_encode_frame:
  assumes "length tpc < 2 ^ 16" "2 + length tpc + length bdy < 2 ^ 32"
  shows "encode_frame ty mid tpc bdy = frame_bytes (ty, mid, be_bytes 2 (length tpc) @ bytes_of_string tpc @ bdy)"
  using assms by (simp add: encode_frame_layout)

lemma frame_bytes_encode_ack_frame: "encode_ack_frame ty mid = frame_bytes (ty, mid, [])"
  by (simp add: encode_ack_frame_layout)

text \<open>Handing a list of frames to the handler, one after the other.\<close>

fun deliver :: "'s frame_handler \<Rightarrow> ClientId \<Rightarrow> (MessageType \<times> u64 \<times> bytes) list \<Rightarrow> 's \<Rightarrow> 's outcome" where
  "deliver on_frame cid [] s = Done s"
| "deliver on_frame cid ((ty, mid, payload) # fs) s =
     obind (on_frame cid ty mid payload s) (deliver on_frame cid fs)"

lemma parse_frames_deliver:
  assumes "\<forall>f \<in> set fs. frame_ok f"
  shows "parse_frames on_frame cid (concat (map frame_bytes fs) @ tail) s =
    obind (deliver on_frame cid fs s) (parse_frames on_frame cid tail)"
  using assms
proof (induction fs arbitrary: s)
  case (Cons f fs)
  obtain ty mid payload where f: "f = (ty, mid, payload)" by (cases f)
  have IH: "parse_frames on_frame cid (concat (map frame_bytes fs) @ tail) =
      (\<lambda>s. obind (deliver on_frame cid fs s) (parse_frames on_frame cid tail))"
    using Cons by (intro ext) simp
  from Cons.prems have "next_frame (frame_bytes f @ concat (map frame_bytes fs) @ tail) =
      Frame f (concat (map frame_bytes fs) @ tail)"
    by (intro next_frame_frame_bytes) simp
  then have "parse_frames on_frame cid (concat (map frame_bytes (f # fs)) @ tail) s =
      obind (on_frame cid ty mid payload s) (parse_frames on_frame cid (concat (map frame_bytes fs) @ tail))"
    by (simp add: parse_frames_eq [of on_frame cid "frame_bytes (ty, mid, payload) @ concat (map frame_bytes fs) @ tail"] f
        del: frame_bytes.simps)
  with IH show ?case
    by (simp add: f obind_assoc)
qed simp

lemma parse_frames_tail:
  assumes "\<And>f r. next_frame tail \<noteq> Frame f r"
  shows "parse_frames on_frame cid tail s = Done (Open tail s) \<or> parse_frames on_frame cid tail s = Done (Dropped s)"
proof (cases "next_frame tail")
  case (Frame f r)
  with assms show ?thesis by blast
qed (simp_all add: parse_frames_eq [of on_frame cid tail])

lemma handle_client_deliver:
  assumes "\<forall>f \<in> set fs. frame_ok f" "\<And>f r. next_frame tail \<noteq> Frame f r"
  shows "handle_client on_frame close cid [] [concat (map frame_bytes fs) @ tail] s =
    obind (deliver on_frame cid fs s) (disconnect on_frame close cid)"
proof -
  have "(case d of Open b s' \<Rightarrow> handle_client on_frame close cid b [] s' | Dropped s' \<Rightarrow> disconnect on_frame close cid s')
      = disconnect on_frame close cid s'"
    if "parse_frames on_frame cid tail s' = Done d" for d s'
    using parse_frames_tail [OF assms(2), of on_frame cid s'] that by auto
  moreover have "\<exists>d. parse_frames on_frame cid tail s' = Done d" for s'
    using parse_frames_tail [OF assms(2), of on_frame cid s'] by blast
  ultimately have "obind (parse_frames on_frame cid tail s') (\<lambda>d. case d of
      Open b s' \<Rightarrow> handle_client on_frame close cid b [] s' | Dropped s' \<Rightarrow> disconnect on_frame close cid s') =
      disconnect on_frame close cid s'" for s'
    by (metis obind.simps(1))
  then show ?thesis
    by (simp add: parse_frames_deliver [OF assms(1)] obind_assoc)
qed


section \<open>Sending\<close>

lemma sint_len: "n < 2 ^ 31 \<Longrightarrow> sint (of_nat n :: u32) = int n"
  using signed_of_nat [of n, where ?'a = int and ?'b = 32] by (simp add: signed_take_bit_int_eq_self)

lemma send_loop_step:
  assumes "length frame < 2 ^ 31" "n < length frame"
  shows "send_loop os_send k frame n =
    (let sent = os_send k (int (length frame - n))
     in if sent \<le> 0 then n else send_loop os_send (Suc k) frame (n + nat sent))"
proof -
  have "sint (of_nat (length frame - n) :: u32) = int (length frame - n)"
    using assms by (intro sint_len) simp
  with assms(2) show ?thesis
    by (subst send_loop.simps) (simp only: if_True)
qed

lemma send_loop_done: "length frame \<le> n \<Longrightarrow> send_loop os_send k frame n = n"
  by (subst send_loop.simps) simp

lemma send_loop_full:
  assumes "\<And>k len. 0 < len \<Longrightarrow> 0 < os_send k len \<and> os_send k len \<le> len" "length frame < 2 ^ 31"
    and "n \<le> length frame"
  shows "send_loop os_send k frame n = length frame"
  using assms(3)
proof (induction "length frame - n" arbitrary: k n rule: less_induct)
  case less
  show ?case
  proof (cases "n < length frame")
    case True
    let ?r = "os_send k (int (length frame - n))"
    have "0 < ?r" "?r \<le> int (length frame - n)"
      using assms(1) [of "int (length frame - n)" k] True by simp_all
    then show ?thesis
      using less.hyps [of "n + nat ?r" "Suc k"] less.prems True
      by (simp add: send_loop_step [OF assms(2)] Let_def)
  qed (use less.prems in \<open>simp add: send_loop_done\<close>)
qed


section \<open>Properties\<close>

lemma handle_client_fragments:
  "handle_client on_frame close cid [] chunks s = handle_client on_frame close cid [] [concat chunks] s"
proof (cases chunks)
  case Nil
  then show ?thesis
    by (simp add: parse_frames_eq [of on_frame cid "[]"] next_frame_def HEADER_SIZE_def)
next
  case (Cons c cs)
  then show ?thesis
    using handle_client_concat [of on_frame close cid "[]" c cs s] by simp
qed

text \<open>
  How TCP cuts the byte stream into \<open>recv\<close> results does not matter. For any handler,
  two sequences of chunks with the same concatenation have the same outcome.
\<close>

theorem fragmentation_independent:
  assumes "concat chunks = concat chunks'"
  shows "handle_client on_frame close cid [] chunks s = handle_client on_frame close cid [] chunks' s"
  using handle_client_fragments [of on_frame close cid chunks s]
    handle_client_fragments [of on_frame close cid chunks' s] assms by simp

theorem fragmentation_independent_witness:
  "handle_client (\<lambda>c ty mid p s. Done (s @ [(ty, mid, p)])) (\<lambda>_ s. s) 5 []
     [take 9 (encode_ack_frame ACK 7), drop 9 (encode_ack_frame ACK 7)] [] =
   handle_client (\<lambda>c ty mid p s. Done (s @ [(ty, mid, p)])) (\<lambda>_ s. s) 5 [] [encode_ack_frame ACK 7] []"
  by (rule fragmentation_independent) simp

text \<open>
  C22: a client that sends whole frames in any fragmentation has each of them dispatched
  exactly once and in order, then the disconnect sentinel; a trailing incomplete frame or
  a header with a bad magic number is never dispatched.
\<close>

theorem stream_reassembly:
  assumes "\<forall>f \<in> set fs. frame_ok f" and "\<And>f r. next_frame tail \<noteq> Frame f r"
    and "concat chunks = concat (map frame_bytes fs) @ tail"
  shows "handle_client on_frame close cid [] chunks s =
    obind (deliver on_frame cid fs s) (disconnect on_frame close cid)"
  unfolding handle_client_fragments [of on_frame close cid chunks s] assms(3)
  by (rule handle_client_deliver [OF assms(1,2)])

theorem stream_reassembly_witness:
  "handle_client (\<lambda>c ty mid p s. Done (s @ [(ty, mid, p)])) (\<lambda>_ s. s) 5 []
     [take 9 (encode_ack_frame ACK 7), drop 9 (encode_ack_frame ACK 7) @ [0xDE, 0xAD]] [] =
   Done [(ACK, 7, []), (ERROR_RESP, 0, [])]"
proof -
  have "next_frame [0xDE, 0xAD] \<noteq> Frame f r" for f r
    by (simp add: next_frame_def HEADER_SIZE_def)
  then show ?thesis
    using stream_reassembly [of "[(ACK, 7, [])]" "[0xDE, 0xAD]"
        "[take 9 (encode_ack_frame ACK 7), drop 9 (encode_ack_frame ACK 7) @ [0xDE, 0xAD]]"
        "\<lambda>c ty mid p s. Done (s @ [(ty, mid, p)])" "\<lambda>_ s. s" 5 "[]"]
    by (simp add: frame_bytes_encode_ack_frame disconnect_def del: frame_bytes.simps)
qed

text \<open>
  \<open>send_to\<close> puts the whole frame on the socket of a connected client, behind what was
  sent before, however \<open>send\<close> splits it, as long as each call accepts between one byte and
  what it is offered and the frame is below 2 GiB; a client that is gone gets nothing.
\<close>

theorem send_to_complete:
  assumes "\<And>k len. 0 < len \<Longrightarrow> 0 < os_send k len \<and> os_send k len \<le> len" and "length frame < 2 ^ 31"
  shows "send_to os_send s cid frame = (case map_of (clients s) cid of
      None \<Rightarrow> s
    | Some sock \<Rightarrow> s\<lparr>wire := (wire s)(sock := wire s sock @ frame)\<rparr>)"
  by (simp add: send_to_def send_loop_full [of os_send, OF assms] split: option.split)

theorem send_to_complete_witness:
  "wire (send_to (\<lambda>k len. 1) ((new_server 9099)\<lparr>clients := [(4, 4)]\<rparr>) 4 [1, 2, 3]) 4 = [1, 2, 3]"
  using send_to_complete [of "\<lambda>k len. 1" "[1, 2, 3]" "(new_server 9099)\<lparr>clients := [(4, 4)]\<rparr>" 4]
  by (simp add: new_server_def)

end
