(* ===== verification/MQ_Senders.thy ===== *)
theory MQ_Senders
  imports MQ_TcpServer MQ_Containers
begin

text \<open>
  \<open>TcpServer::send_to\<close> called by several threads at once: the dispatcher and the connection
  threads that answer heartbeats. A call looks the connection up under \<open>clients_mu_\<close>, then
  takes the connection's own \<open>send_mu\<close> and calls \<open>send\<close> until the frame is out or a call fails.
  The connection objects outlive their entry in the table, and the operating system reuses
  descriptors.
\<close>

section \<open>Definitions\<close>

text \<open>
  Where a thread is in \<open>send_to\<close>: outside; with the connection object in hand, before \<open>send_mu\<close>;
  holding \<open>send_mu\<close> with a number of bytes sent.
\<close>

datatype sender = Outside_send | Found nat bytes | Sending nat bytes nat

text \<open>What a finished call has put on the connection: the whole frame, or the bytes before the
  failed \<open>send\<close>.\<close>

datatype send_record = Whole nat bytes | Cut nat bytes nat

text \<open>
  The connection objects in the order of their creation, each with its \<open>sock\<close>; the client table;
  the threads; and of the operating system the connection behind each open descriptor and the
  bytes passed to each connection. Connections are numbered like their objects. The finished
  calls are recorded for the statements.
\<close>

record SendState =
  conn_socks :: "int list"
  client_conns :: "(ClientId \<times> nat) list"
  senders :: "sender list"
  descriptors :: "int \<Rightarrow> nat option"
  streams :: "nat \<Rightarrow> bytes"
  finished :: "send_record list"

definition no_connections :: "nat \<Rightarrow> SendState" where
  "no_connections n = \<lparr>conn_socks = [], client_conns = [], senders = replicate n Outside_send,
     descriptors = (\<lambda>_. None), streams = (\<lambda>_. []), finished = []\<rparr>"

fun holds_conn :: "nat \<Rightarrow> sender \<Rightarrow> bool" where
  "holds_conn c Outside_send \<longleftrightarrow> False"
| "holds_conn c (Found d f) \<longleftrightarrow> d = c"
| "holds_conn c (Sending d f n) \<longleftrightarrow> d = c"

fun sends_on :: "nat \<Rightarrow> sender \<Rightarrow> bool" where
  "sends_on c (Sending d f n) \<longleftrightarrow> d = c"
| "sends_on c _ \<longleftrightarrow> False"

text \<open>The calls of \<open>send_to\<close>.\<close>

inductive send_step :: "SendState \<Rightarrow> SendState \<Rightarrow> bool" where
  lookup: "i < length (senders s) \<Longrightarrow> senders s ! i = Outside_send \<Longrightarrow> map_of (client_conns s) cid = Some c \<Longrightarrow>
    send_step s (s\<lparr>senders := (senders s)[i := Found c frame]\<rparr>)"
| lock: "i < length (senders s) \<Longrightarrow> senders s ! i = Found c frame \<Longrightarrow> \<forall>t \<in> set (senders s). \<not> sends_on c t \<Longrightarrow>
    send_step s (s\<lparr>senders := (senders s)[i := Sending c frame 0]\<rparr>)"
| send: "i < length (senders s) \<Longrightarrow> senders s ! i = Sending c frame n \<Longrightarrow> 0 < k \<Longrightarrow> n + k \<le> length frame \<Longrightarrow>
    descriptors s (conn_socks s ! c) = Some d \<Longrightarrow>
    send_step s (s\<lparr>senders := (senders s)[i := Sending c frame (n + k)],
      streams := (streams s)(d := streams s d @ take k (drop n frame))\<rparr>)"
| send_fails: "i < length (senders s) \<Longrightarrow> senders s ! i = Sending c frame n \<Longrightarrow> n < length frame \<Longrightarrow>
    send_step s (s\<lparr>senders := (senders s)[i := Outside_send], finished := finished s @ [Cut c frame n]\<rparr>)"
| send_done: "i < length (senders s) \<Longrightarrow> senders s ! i = Sending c frame n \<Longrightarrow> length frame \<le> n \<Longrightarrow>
    send_step s (s\<lparr>senders := (senders s)[i := Outside_send], finished := finished s @ [Whole c frame]\<rparr>)"

text \<open>
  Connections that come and go. The accept thread gets a descriptor that is not open; with
  \<open>careful\<close> it is none that a sender still has in hand. The connection thread closes its
  descriptor first and takes the client out of the table afterwards.
\<close>

inductive connection_step :: "bool \<Rightarrow> SendState \<Rightarrow> SendState \<Rightarrow> bool" for careful where
  accepted: "descriptors s fd = None \<Longrightarrow>
    (careful \<Longrightarrow> \<forall>c < length (conn_socks s). conn_socks s ! c = fd \<longrightarrow> (\<forall>t \<in> set (senders s). \<not> holds_conn c t)) \<Longrightarrow>
    connection_step careful s (s\<lparr>conn_socks := conn_socks s @ [fd], descriptors := (descriptors s)(fd := Some (length (conn_socks s))),
      client_conns := AList.update fd (length (conn_socks s)) (client_conns s)\<rparr>)"
| closed: "c < length (conn_socks s) \<Longrightarrow> descriptors s (conn_socks s ! c) = Some c \<Longrightarrow>
    connection_step careful s (s\<lparr>descriptors := (descriptors s)(conn_socks s ! c := None)\<rparr>)"
| unregistered: "connection_step careful s (s\<lparr>client_conns := AList.delete cid (client_conns s)\<rparr>)"

definition server_step :: "bool \<Rightarrow> SendState \<Rightarrow> SendState \<Rightarrow> bool" where
  "server_step careful s s' \<longleftrightarrow> send_step s s' \<or> connection_step careful s s'"

inductive send_reachable :: "bool \<Rightarrow> SendState \<Rightarrow> bool" for careful where
  send_start: "send_reachable careful (no_connections n)"
| send_next: "send_reachable careful s \<Longrightarrow> server_step careful s s' \<Longrightarrow> send_reachable careful s'"


section \<open>The streams\<close>

fun piece_for :: "nat \<Rightarrow> send_record \<Rightarrow> bytes" where
  "piece_for c (Whole d f) = (if d = c then f else [])"
| "piece_for c (Cut d f n) = (if d = c then take n f else [])"

text \<open>What the thread that holds \<open>send_mu\<close> of a connection has sent so far.\<close>

fun part_for :: "nat \<Rightarrow> sender \<Rightarrow> bytes" where
  "part_for c (Sending d f n) = (if d = c then take n f else [])"
| "part_for c _ = []"

definition in_progress :: "nat \<Rightarrow> SendState \<Rightarrow> bytes" where
  "in_progress c s = concat (map (part_for c) (senders s))"

definition send_inv :: "SendState \<Rightarrow> bool" where
  "send_inv s \<longleftrightarrow>
     (\<forall>fd c. descriptors s fd = Some c \<longrightarrow> c < length (conn_socks s) \<and> conn_socks s ! c = fd) \<and>
     (\<forall>t c. t \<in> set (senders s) \<longrightarrow> holds_conn c t \<longrightarrow> c < length (conn_socks s) \<and>
        (\<forall>d. descriptors s (conn_socks s ! c) = Some d \<longrightarrow> d = c)) \<and>
     (\<forall>cid c. map_of (client_conns s) cid = Some c \<longrightarrow> c < length (conn_socks s) \<and> conn_socks s ! c = cid \<and>
        (\<forall>d. descriptors s cid = Some d \<longrightarrow> d = c)) \<and>
     (\<forall>c i j. i < length (senders s) \<longrightarrow> j < length (senders s) \<longrightarrow>
        sends_on c (senders s ! i) \<longrightarrow> sends_on c (senders s ! j) \<longrightarrow> i = j) \<and>
     (\<forall>c. streams s c = concat (map (piece_for c) (finished s)) @ in_progress c s) \<and>
     um_invar (client_conns s)"

text \<open>The clauses of the invariant.\<close>

lemma send_invD:
  assumes "send_inv s"
  shows "descriptors s fd = Some c \<Longrightarrow> c < length (conn_socks s) \<and> conn_socks s ! c = fd"
    and "t \<in> set (senders s) \<Longrightarrow> holds_conn c t \<Longrightarrow> c < length (conn_socks s) \<and>
      (\<forall>d. descriptors s (conn_socks s ! c) = Some d \<longrightarrow> d = c)"
    and "map_of (client_conns s) cid = Some c \<Longrightarrow> c < length (conn_socks s) \<and> conn_socks s ! c = cid \<and>
      (\<forall>d. descriptors s cid = Some d \<longrightarrow> d = c)"
    and "i < length (senders s) \<Longrightarrow> j < length (senders s) \<Longrightarrow> sends_on c (senders s ! i) \<Longrightarrow> sends_on c (senders s ! j) \<Longrightarrow> i = j"
    and "streams s c = concat (map (piece_for c) (finished s)) @ in_progress c s"
    and "um_invar (client_conns s)"
  using assms unfolding send_inv_def by blast+

lemma send_invI:
  assumes "\<And>fd c. descriptors s fd = Some c \<Longrightarrow> c < length (conn_socks s) \<and> conn_socks s ! c = fd"
    and "\<And>t c. t \<in> set (senders s) \<Longrightarrow> holds_conn c t \<Longrightarrow> c < length (conn_socks s) \<and>
      (\<forall>d. descriptors s (conn_socks s ! c) = Some d \<longrightarrow> d = c)"
    and "\<And>cid c. map_of (client_conns s) cid = Some c \<Longrightarrow> c < length (conn_socks s) \<and> conn_socks s ! c = cid \<and>
      (\<forall>d. descriptors s cid = Some d \<longrightarrow> d = c)"
    and "\<And>c i j. i < length (senders s) \<Longrightarrow> j < length (senders s) \<Longrightarrow> sends_on c (senders s ! i) \<Longrightarrow> sends_on c (senders s ! j) \<Longrightarrow> i = j"
    and "\<And>c. streams s c = concat (map (piece_for c) (finished s)) @ in_progress c s"
    and "um_invar (client_conns s)"
  shows "send_inv s"
  unfolding send_inv_def using assms by blast

lemma part_for_idle: "\<not> sends_on c t \<Longrightarrow> part_for c t = []"
  by (cases t) auto

lemma sends_on_holds: "sends_on c t \<Longrightarrow> holds_conn c t"
  by (cases t) auto

text \<open>The one thread that sends on a connection is its whole progress.\<close>

lemma in_progress_one:
  assumes "i < length (senders s)" "\<And>j. j < length (senders s) \<Longrightarrow> j \<noteq> i \<Longrightarrow> \<not> sends_on c (senders s ! j)"
  shows "in_progress c s = part_for c (senders s ! i)"
proof -
  have "\<not> sends_on c t" if "t \<in> set (take i (senders s)) \<union> set (drop (Suc i) (senders s))" for t
    using that assms by (fastforce simp: in_set_conv_nth)
  then have "concat (map (part_for c) (take i (senders s))) = []" "concat (map (part_for c) (drop (Suc i) (senders s))) = []"
    by (auto simp: part_for_idle)
  moreover have "senders s = take i (senders s) @ senders s ! i # drop (Suc i) (senders s)"
    by (rule id_take_nth_drop [OF assms(1)])
  then have "in_progress c s = concat (map (part_for c) (take i (senders s) @ senders s ! i # drop (Suc i) (senders s)))"
    unfolding in_progress_def by (rule arg_cong)
  ultimately show ?thesis by (simp only: map_append list.map concat_append concat.simps append_Nil append_Nil2)
qed

lemma in_progress_same:
  assumes "i < length (senders s)" "part_for c t = part_for c (senders s ! i)"
  shows "in_progress c (s\<lparr>senders := (senders s)[i := t]\<rparr>) = in_progress c s"
proof -
  have "(map (part_for c) (senders s))[i := part_for c t] = map (part_for c) (senders s)"
    using assms by (simp add: list_update_same_conv)
  then show ?thesis by (simp add: in_progress_def map_update)
qed

text \<open>A step of one thread: what it has to show about its new state and the stream.\<close>

lemma send_inv_update:
  assumes "send_inv s" "i < length (senders s)"
    and "\<And>c. holds_conn c t \<Longrightarrow> c < length (conn_socks s) \<and> (\<forall>d. descriptors s (conn_socks s ! c) = Some d \<longrightarrow> d = c)"
    and "\<And>c j. sends_on c t \<Longrightarrow> j < length (senders s) \<Longrightarrow> j \<noteq> i \<Longrightarrow> \<not> sends_on c (senders s ! j)"
    and "\<And>c. sts c = concat (map (piece_for c) fin) @ in_progress c (s\<lparr>senders := (senders s)[i := t]\<rparr>)"
  shows "send_inv (s\<lparr>senders := (senders s)[i := t], streams := sts, finished := fin\<rparr>)"
proof -
  have 1: "u = t \<or> u \<in> set (senders s)" if "u \<in> set ((senders s)[i := t])" for u
    using that set_update_subset_insert [of "senders s" i t] by blast
  have 2: "j = k" if "j < length (senders s)" "k < length (senders s)"
    "sends_on c ((senders s)[i := t] ! j)" "sends_on c ((senders s)[i := t] ! k)" for c j k
    using that assms(4) [of c j] assms(4) [of c k] send_invD(4) [OF assms(1), of j k c]
    by (cases "j = i"; cases "k = i") auto
  show ?thesis
    unfolding send_inv_def
    using 1 2 assms(3,5) send_invD(1,2,3,6) [OF assms(1)] by (simp add: in_progress_def) blast
qed

text \<open>The end of a call moves what was in progress to the finished calls.\<close>

lemma send_end_inv:
  assumes "send_inv s" "i < length (senders s)" "senders s ! i = Sending c frame n"
    and "piece_for c r = take n frame" "\<And>e. e \<noteq> c \<Longrightarrow> piece_for e r = []"
  shows "send_inv (s\<lparr>senders := (senders s)[i := Outside_send], finished := finished s @ [r]\<rparr>)"
proof -
  have others: "\<not> sends_on c (senders s ! j)" if "j < length (senders s)" "j \<noteq> i" for j
    using that assms(2,3) send_invD(4) [OF assms(1), of i j c] by auto
  have "streams s e = concat (map (piece_for e) (finished s @ [r])) @ in_progress e (s\<lparr>senders := (senders s)[i := Outside_send]\<rparr>)" for e
  proof (cases "e = c")
    case True
    have "in_progress c s = take n frame" "in_progress c (s\<lparr>senders := (senders s)[i := Outside_send]\<rparr>) = []"
      using assms(2,3) others in_progress_one [of i s c] in_progress_one [of i "s\<lparr>senders := (senders s)[i := Outside_send]\<rparr>" c]
      by simp_all
    then show ?thesis using True assms(4) send_invD(5) [OF assms(1), of c] by simp
  next
    case False
    then show ?thesis using assms(2,3,5) send_invD(5) [OF assms(1), of e] by (simp add: in_progress_same)
  qed
  then have "send_inv (s\<lparr>senders := (senders s)[i := Outside_send], streams := streams s, finished := finished s @ [r]\<rparr>)"
    using assms(2) by (intro send_inv_update [OF assms(1)]) auto
  then show ?thesis by simp
qed

lemma send_step_inv:
  assumes "send_step s s'" "send_inv s"
  shows "send_inv s'"
  using assms(1)
proof cases
  case (lookup i cid c frame)
  have "send_inv (s\<lparr>senders := (senders s)[i := Found c frame], streams := streams s, finished := finished s\<rparr>)"
    using lookup send_invD(3) [OF assms(2) lookup(4)] send_invD(5) [OF assms(2)]
    by (intro send_inv_update [OF assms(2)]) (auto simp: in_progress_same)
  with lookup(1) show ?thesis by simp
next
  case (lock i c frame)
  have "send_inv (s\<lparr>senders := (senders s)[i := Sending c frame 0], streams := streams s, finished := finished s\<rparr>)"
    using lock send_invD(2) [OF assms(2) nth_mem [OF lock(2)], of c] send_invD(5) [OF assms(2)]
    by (intro send_inv_update [OF assms(2)]) (auto simp: in_progress_same)
  with lock(1) show ?thesis by simp
next
  case (send i c frame n k d)
  have "d = c"
    using send send_invD(2) [OF assms(2) nth_mem [OF send(2)], of c] by simp
  have others: "\<not> sends_on c (senders s ! j)" if "j < length (senders s)" "j \<noteq> i" for j
    using that send send_invD(4) [OF assms(2), of i j c] by auto
  let ?t = "Sending c frame (n + k)" and ?sts = "(streams s)(c := streams s c @ take k (drop n frame))"
  have "?sts e = concat (map (piece_for e) (finished s)) @ in_progress e (s\<lparr>senders := (senders s)[i := ?t]\<rparr>)" for e
  proof (cases "e = c")
    case True
    have "in_progress c s = take n frame" "in_progress c (s\<lparr>senders := (senders s)[i := ?t]\<rparr>) = take (n + k) frame"
      using send others in_progress_one [of i s c] in_progress_one [of i "s\<lparr>senders := (senders s)[i := ?t]\<rparr>" c] by simp_all
    then show ?thesis using True send_invD(5) [OF assms(2), of c] by (simp add: take_add)
  next
    case False
    then show ?thesis using send send_invD(5) [OF assms(2), of e] by (simp add: in_progress_same)
  qed
  then have "send_inv (s\<lparr>senders := (senders s)[i := ?t], streams := ?sts, finished := finished s\<rparr>)"
    using send others send_invD(2) [OF assms(2) nth_mem [OF send(2)], of c]
    by (intro send_inv_update [OF assms(2)]) auto
  with send(1) \<open>d = c\<close> show ?thesis by simp
next
  case (send_fails i c frame n)
  then show ?thesis using send_end_inv [OF assms(2), of i c frame n "Cut c frame n"] by simp
next
  case (send_done i c frame n)
  then show ?thesis using send_end_inv [OF assms(2), of i c frame n "Whole c frame"] by simp
qed

text \<open>Closing a descriptor or forgetting a client only takes something away.\<close>

lemma send_inv_shrink:
  assumes "send_inv s" "\<And>fd d. desc fd = Some d \<Longrightarrow> descriptors s fd = Some d"
    and "\<And>cid c. map_of cl cid = Some c \<Longrightarrow> map_of (client_conns s) cid = Some c" "um_invar cl"
  shows "send_inv (s\<lparr>client_conns := cl, descriptors := desc\<rparr>)"
proof (rule send_invI, goal_cases)
  case (1 fd c)
  then show ?case using send_invD(1) [OF assms(1), of fd c] assms(2) by simp
next
  case (2 t c)
  then show ?case using send_invD(2) [OF assms(1), of t c] assms(2) by simp
next
  case (3 cid c)
  then show ?case using send_invD(3) [OF assms(1), of cid c] assms(2,3) by simp
next
  case (4 c i j)
  then show ?case using send_invD(4) [OF assms(1), of i j c] by simp
next
  case (5 c)
  then show ?case using send_invD(5) [OF assms(1), of c] by (simp add: in_progress_def)
qed (use assms(4) in simp)

lemma connection_step_inv:
  assumes "connection_step True s s'" "send_inv s"
  shows "send_inv s'"
  using assms(1)
proof cases
  case (accepted fd)
  let ?n = "length (conn_socks s)"
  have old: "(conn_socks s @ [fd]) ! c = conn_socks s ! c" if "c < ?n" for c
    using that by (simp add: nth_append)
  have held: "conn_socks s ! c \<noteq> fd" if "t \<in> set (senders s)" "holds_conn c t" for c t
    using that accepted(3) send_invD(2) [OF assms(2) that] by blast
  have desc_ok: "c < Suc ?n \<and> (conn_socks s @ [fd]) ! c = e" if "((descriptors s)(fd := Some ?n)) e = Some c" for c e
    using that send_invD(1) [OF assms(2), of e c] old [of c] by (cases "e = fd") auto
  have held_ok: "c < Suc ?n \<and> (\<forall>d. ((descriptors s)(fd := Some ?n)) ((conn_socks s @ [fd]) ! c) = Some d \<longrightarrow> d = c)"
    if "t \<in> set (senders s)" "holds_conn c t" for t c
    using held [OF that] send_invD(2) [OF assms(2) that] old [of c] by auto
  have client_ok: "c < Suc ?n \<and> (conn_socks s @ [fd]) ! c = cid \<and> (\<forall>d. ((descriptors s)(fd := Some ?n)) cid = Some d \<longrightarrow> d = c)"
    if "((map_of (client_conns s))(fd \<mapsto> ?n)) cid = Some c" for cid c
    using that send_invD(3) [OF assms(2), of cid c] old [of c] by (cases "cid = fd") auto
  have lookup: "map_of (AList.update fd ?n (client_conns s)) = (map_of (client_conns s))(fd \<mapsto> ?n)"
    by (rule um.lookup_update [OF send_invD(6) [OF assms(2)]])
  show ?thesis
    unfolding accepted(1)
  proof (rule send_invI, goal_cases)
    case (1 e c)
    then show ?case using desc_ok by simp
  next
    case (2 t c)
    then show ?case using held_ok by simp
  next
    case (3 cid c)
    then show ?case using client_ok by (simp add: lookup)
  next
    case (4 c i j)
    then show ?case using send_invD(4) [OF assms(2), of i j c] by simp
  next
    case (5 c)
    then show ?case using send_invD(5) [OF assms(2), of c] by (simp add: in_progress_def)
  next
    case 6
    then show ?case using send_invD(6) [OF assms(2)] by (simp add: um.invar_update)
  qed
next
  case (closed c)
  have "send_inv (s\<lparr>client_conns := client_conns s, descriptors := (descriptors s)(conn_socks s ! c := None)\<rparr>)"
    by (rule send_inv_shrink [OF assms(2)]) (auto simp: send_invD(6) [OF assms(2)] split: if_splits)
  with closed(1) show ?thesis by simp
next
  case (unregistered cid)
  have "send_inv (s\<lparr>client_conns := AList.delete cid (client_conns s), descriptors := descriptors s\<rparr>)"
    by (rule send_inv_shrink [OF assms(2)])
      (auto simp: um.lookup_delete um.invar_delete send_invD(6) [OF assms(2)] split: if_splits)
  with unregistered show ?thesis by simp
qed

lemma no_connections_inv: "send_inv (no_connections n)"
  by (auto simp: send_inv_def no_connections_def in_progress_def um_invar_def)

lemma send_reachable_inv: "send_reachable True s \<Longrightarrow> send_inv s"
  by (induction rule: send_reachable.induct) (auto simp: no_connections_inv server_step_def intro: send_step_inv connection_step_inv)


section \<open>Properties\<close>

text \<open>
  C10: frames are never mixed on a connection. However many threads send at once, every
  connection carries the frames of the finished calls one after the other, in the order in
  which they took \<open>send_mu\<close>, followed by the beginning of the one frame that is being sent;
  a frame is incomplete only where a \<open>send\<close> failed in it. This holds as long as no descriptor
  is reused while a sender still has its old connection in hand.
\<close>

theorem frames_are_not_mixed:
  assumes "send_reachable True s"
  shows "\<exists>part. streams s c = concat (map (\<lambda>r. case r of Whole d f \<Rightarrow> if d = c then f else []
        | Cut d f n \<Rightarrow> if d = c then take n f else []) (finished s)) @ part \<and>
    ((\<forall>d f n. Sending d f n \<in> set (senders s) \<longrightarrow> d \<noteq> c) \<and> part = [] \<or>
     (\<exists>f n. Sending c f n \<in> set (senders s) \<and> part = take n f))"
proof -
  have inv: "send_inv s" by (rule send_reachable_inv [OF assms])
  have pieces: "piece_for c = (\<lambda>r. case r of Whole d f \<Rightarrow> if d = c then f else [] | Cut d f n \<Rightarrow> if d = c then take n f else [])"
    by (rule ext) (simp split: send_record.split)
  have "in_progress c s = [] \<and> (\<forall>d f n. Sending d f n \<in> set (senders s) \<longrightarrow> d \<noteq> c) \<or>
      (\<exists>f n. Sending c f n \<in> set (senders s) \<and> in_progress c s = take n f)"
  proof (cases "\<exists>i < length (senders s). sends_on c (senders s ! i)")
    case True
    then obtain i where i: "i < length (senders s)" "sends_on c (senders s ! i)" by blast
    then obtain f n where t: "senders s ! i = Sending c f n" by (cases "senders s ! i") auto
    have "in_progress c s = take n f"
    proof -
      have "in_progress c s = part_for c (senders s ! i)"
        by (rule in_progress_one [OF i(1)]) (metis send_invD(4) [OF inv] i)
      then show ?thesis by (simp add: t)
    qed
    moreover have "Sending c f n \<in> set (senders s)" using nth_mem [OF i(1)] t by simp
    ultimately show ?thesis by blast
  next
    case False
    then have no: "\<not> sends_on c t" if "t \<in> set (senders s)" for t
      using that by (auto simp: in_set_conv_nth)
    then have "in_progress c s = []" by (auto simp: in_progress_def part_for_idle)
    moreover have "d \<noteq> c" if "Sending d f n \<in> set (senders s)" for d f n
      using no [OF that] by simp
    ultimately show ?thesis by blast
  qed
  then show ?thesis
    using send_invD(5) [OF inv, of c] unfolding pieces by (intro exI [of _ "in_progress c s"] conjI) blast+
qed

text \<open>One client, whose connection has descriptor 4, and a thread that has looked it up.\<close>

definition one_connection :: SendState where
  "one_connection = \<lparr>conn_socks = [4], client_conns = [(4, 0)], senders = [Outside_send],
     descriptors = [4 \<mapsto> 0], streams = (\<lambda>_. []), finished = []\<rparr>"

definition one_lookup :: "bytes \<Rightarrow> SendState" where
  "one_lookup frame = one_connection\<lparr>senders := [Found 0 frame]\<rparr>"

lemma one_lookup_reachable: "send_reachable careful (one_lookup frame)"
proof -
  have "connection_step careful (no_connections 1) one_connection"
    using connection_step.accepted [of "no_connections 1" 4 careful]
    by (simp add: no_connections_def one_connection_def)
  then have "send_reachable careful one_connection"
    by (blast intro: send_reachable.intros server_step_def [THEN iffD2])
  moreover have "send_step one_connection (one_lookup frame)"
    using send_step.lookup [of 0 one_connection 4 0 frame] by (simp add: one_connection_def one_lookup_def)
  ultimately show ?thesis by (blast intro: send_next server_step_def [THEN iffD2])
qed

theorem frames_are_not_mixed_witness:
  "streams (one_lookup [1, 2]) 0 = []"
  using frames_are_not_mixed [OF one_lookup_reachable, of "[1, 2]" 0] by (simp add: one_lookup_def one_connection_def)

text \<open>
  C40: a frame can reach the wrong client. A thread that has looked a connection up sends to its
  descriptor without holding anything that keeps it open: if the connection is closed and the
  descriptor accepted again before the thread takes \<open>send_mu\<close>, the whole frame goes to the new
  connection, ahead of everything else sent there.
\<close>

theorem stale_sender_reaches_new_client:
  assumes "i < length (senders s)" and "senders s ! i = Found c frame" and "frame \<noteq> []" and "c < length (conn_socks s)"
    and "descriptors s (conn_socks s ! c) = Some c" and "\<forall>t \<in> set (senders s). \<not> sends_on c t"
    and "streams s (length (conn_socks s)) = []"
  shows "\<exists>s'. (server_step False)\<^sup>*\<^sup>* s s' \<and>
    map_of (client_conns s') (conn_socks s ! c) = Some (length (conn_socks s)) \<and>
    streams s' (length (conn_socks s)) = frame \<and> Whole c frame \<in> set (finished s')"
proof -
  let ?fd = "conn_socks s ! c" and ?n = "length (conn_socks s)" and ?R = "server_step False"
  define s1 where "s1 = s\<lparr>descriptors := (descriptors s)(?fd := None)\<rparr>"
  have 1: "?R s s1" using connection_step.closed [OF assms(4,5)] by (simp add: server_step_def s1_def)
  define s2 where "s2 = s1\<lparr>conn_socks := conn_socks s1 @ [?fd], descriptors := (descriptors s1)(?fd := Some ?n),
      client_conns := AList.update ?fd ?n (client_conns s1)\<rparr>"
  have 2: "?R s1 s2" using connection_step.accepted [of s1 ?fd False] by (simp add: server_step_def s1_def s2_def)
  define s3 where "s3 = s2\<lparr>senders := (senders s2)[i := Sending c frame 0]\<rparr>"
  have 3: "?R s2 s3" using send_step.lock [of i s2 c frame] assms by (simp add: server_step_def s1_def s2_def s3_def)
  define s4 where "s4 = s3\<lparr>senders := (senders s3)[i := Sending c frame (length frame)],
      streams := (streams s3)(?n := streams s3 ?n @ frame)\<rparr>"
  have 4: "?R s3 s4"
    using send_step.send [of i s3 c frame 0 "length frame" ?n] assms by (simp add: server_step_def s1_def s2_def s3_def s4_def nth_append)
  define s5 where "s5 = s4\<lparr>senders := (senders s4)[i := Outside_send], finished := finished s4 @ [Whole c frame]\<rparr>"
  have 5: "?R s4 s5"
    using send_step.send_done [of i s4 c frame "length frame"] assms by (simp add: server_step_def s1_def s2_def s3_def s4_def s5_def)
  have "?R\<^sup>*\<^sup>* s s5" using 1 2 3 4 5 by (meson rtranclp.rtrancl_into_rtrancl rtranclp.rtrancl_refl)
  moreover have "map_of (client_conns s5) ?fd = Some ?n" "streams s5 ?n = frame" "Whole c frame \<in> set (finished s5)"
    using assms(7) by (simp_all add: s1_def s2_def s3_def s4_def s5_def update_conv')
  ultimately show ?thesis by blast
qed

theorem stale_sender_reaches_new_client_witness:
  "\<exists>s'. (server_step False)\<^sup>*\<^sup>* (one_lookup [1, 2]) s' \<and> map_of (client_conns s') 4 = Some 1 \<and> streams s' 1 = [1, 2]"
proof -
  have n: "length (conn_socks (one_lookup [1, 2])) = 1" "conn_socks (one_lookup [1, 2]) ! 0 = 4"
    by (simp_all add: one_lookup_def one_connection_def)
  show ?thesis
    using stale_sender_reaches_new_client [of 0 "one_lookup [1, 2]" 0 "[1, 2]", unfolded n]
    by (auto simp: one_lookup_def one_connection_def)
qed

end
