(* ===== verification/MQ_SafeQueue.thy ===== *)
theory MQ_SafeQueue
  imports MQ_Prelude
begin

text \<open>
  \<open>SafeQueue.hpp\<close>: the bounded blocking queue. An operation runs under the queue's mutex,
  so it is one step on the queue's contents; waiting on \<open>not_full_\<close> or \<open>not_empty_\<close> is
  the outcome \<open>Blocked\<close>. The locale \<open>bounded_fifo\<close> is what the clients of the queue
  (the log's replay, the acknowledgement engine, the broker) rely on.
\<close>

section \<open>The queue\<close>

record 'a SafeQueue =
  queue :: "'a list"
  capacity :: nat

definition new_queue :: "nat \<Rightarrow> 'a SafeQueue" where
  "new_queue cap = \<lparr>queue = [], capacity = cap\<rparr>"

definition push :: "'a SafeQueue \<Rightarrow> 'a \<Rightarrow> 'a SafeQueue outcome" where
  "push q item =
     (if length (queue q) < capacity q then Done (q\<lparr>queue := queue q @ [item]\<rparr>)
      else Blocked)"

definition pop :: "'a SafeQueue \<Rightarrow> ('a \<times> 'a SafeQueue) outcome" where
  "pop q =
     (case queue q of
        [] \<Rightarrow> Blocked
      | item # rest \<Rightarrow> Done (item, q\<lparr>queue := rest\<rparr>))"

text \<open>
  \<open>try_pop_for\<close> returns \<open>std::nullopt\<close> when the predicate is still false at the timeout, so at
  the step in which it returns the queue is empty.
\<close>

definition try_pop_for :: "'a SafeQueue \<Rightarrow> 'a option \<times> 'a SafeQueue" where
  "try_pop_for q =
     (case queue q of
        [] \<Rightarrow> (None, q)
      | item # rest \<Rightarrow> (Some item, q\<lparr>queue := rest\<rparr>))"

definition queue_size :: "'a SafeQueue \<Rightarrow> nat" where
  "queue_size q = length (queue q)"

definition queue_capacity :: "'a SafeQueue \<Rightarrow> nat" where
  "queue_capacity q = capacity q"

definition queue_empty :: "'a SafeQueue \<Rightarrow> bool" where
  "queue_empty q = (queue q = [])"

definition queue_invar :: "'a SafeQueue \<Rightarrow> bool" where
  "queue_invar q \<longleftrightarrow> length (queue q) \<le> capacity q"


section \<open>The contract\<close>

fun push_all :: "('q \<Rightarrow> 'a \<Rightarrow> 'q outcome) \<Rightarrow> 'q \<Rightarrow> 'a list \<Rightarrow> 'q outcome" where
  "push_all psh q [] = Done q"
| "push_all psh q (x # xs) = obind (psh q x) (\<lambda>q'. push_all psh q' xs)"

locale bounded_fifo =
  fixes psh :: "'q \<Rightarrow> 'a \<Rightarrow> 'q outcome"
    and try_pop :: "'q \<Rightarrow> 'a option \<times> 'q"
    and contents :: "'q \<Rightarrow> 'a list"
    and cap :: "'q \<Rightarrow> nat"
  assumes psh_room: "length (contents q) < cap q \<Longrightarrow>
      \<exists>q'. psh q x = Done q' \<and> contents q' = contents q @ [x] \<and> cap q' = cap q"
    and psh_full: "cap q \<le> length (contents q) \<Longrightarrow> psh q x = Blocked"
    and try_pop_empty: "contents q = [] \<Longrightarrow> try_pop q = (None, q)"
    and try_pop_item: "contents q = x # xs \<Longrightarrow>
      \<exists>q'. try_pop q = (Some x, q') \<and> contents q' = xs \<and> cap q' = cap q"
begin

lemma psh_DoneD:
  "psh q x = Done q' \<Longrightarrow>
     contents q' = contents q @ [x] \<and> cap q' = cap q \<and> length (contents q) < cap q"
  using psh_room [of q x] psh_full [of q x] by (cases "length (contents q) < cap q") auto

lemma psh_no_fault: "psh q x \<noteq> Fault"
  using psh_room [of q x] psh_full [of q x] by (cases "length (contents q) < cap q") auto

lemma push_all_room:
  "length (contents q) + length xs \<le> cap q \<Longrightarrow>
     \<exists>q'. push_all psh q xs = Done q' \<and> contents q' = contents q @ xs \<and> cap q' = cap q"
proof (induction xs arbitrary: q)
  case (Cons x xs)
  then obtain q1 where q1: "psh q x = Done q1" "contents q1 = contents q @ [x]" "cap q1 = cap q"
    using psh_room [of q x] by auto
  with Cons.prems have "length (contents q1) + length xs \<le> cap q1" by simp
  from Cons.IH [OF this] q1 show ?case by auto
qed simp

lemma push_all_full:
  "length (contents q) \<le> cap q \<Longrightarrow> cap q < length (contents q) + length xs \<Longrightarrow>
     push_all psh q xs = Blocked"
proof (induction xs arbitrary: q)
  case (Cons x xs)
  show ?case
  proof (cases "length (contents q) < cap q")
    case True
    then obtain q1 where "psh q x = Done q1" "contents q1 = contents q @ [x]" "cap q1 = cap q"
      using psh_room [of q x] by auto
    with Cons True show ?thesis by simp
  next
    case False
    then show ?thesis by (simp add: psh_full)
  qed
qed simp

end

interpretation sq: bounded_fifo push try_pop_for queue capacity
  by unfold_locales (auto simp: push_def try_pop_for_def)

lemma push_invar: "push q x = Done q' \<Longrightarrow> queue_invar q'"
  using sq.psh_DoneD [of q x q'] by (auto simp: queue_invar_def)

lemma try_pop_for_invar: "queue_invar q \<Longrightarrow> queue_invar (snd (try_pop_for q))"
  by (auto simp: queue_invar_def try_pop_for_def split: list.split)

lemma push_not_Fault [simp]: "push q x \<noteq> Fault"
  by (simp add: push_def)


section \<open>Properties\<close>

text \<open>
  The histories of a queue: the items pushed and the items taken so far, in order, whatever
  threads made the calls. A call that waits does not take part in the history until it
  completes.
\<close>

inductive queue_history :: "nat \<Rightarrow> 'a SafeQueue \<Rightarrow> 'a list \<Rightarrow> 'a list \<Rightarrow> bool" for cap where
  created: "queue_history cap (new_queue cap) [] []"
| pushed: "queue_history cap q ins outs \<Longrightarrow> push q x = Done q' \<Longrightarrow> queue_history cap q' (ins @ [x]) outs"
| popped: "queue_history cap q ins outs \<Longrightarrow> pop q = Done (x, q') \<Longrightarrow> queue_history cap q' ins (outs @ [x])"
| tried: "queue_history cap q ins outs \<Longrightarrow> try_pop_for q = (Some x, q') \<Longrightarrow> queue_history cap q' ins (outs @ [x])"
| timed_out: "queue_history cap q ins outs \<Longrightarrow> try_pop_for q = (None, q') \<Longrightarrow> queue_history cap q' ins outs"

lemma queue_history_inv:
  "queue_history cap q ins outs \<Longrightarrow> ins = outs @ queue q \<and> capacity q = cap \<and> queue_invar q"
proof (induction rule: queue_history.induct)
  case created
  show ?case by (simp add: new_queue_def queue_invar_def)
next
  case (pushed q ins outs x q')
  then show ?case using push_invar [of q x q'] sq.psh_DoneD [of q x q'] by simp
next
  case (popped q ins outs x q')
  then show ?case by (auto simp: pop_def queue_invar_def split: list.split_asm)
next
  case (tried q ins outs x q')
  then show ?case by (auto simp: try_pop_for_def queue_invar_def split: list.split_asm)
next
  case (timed_out q ins outs q')
  then show ?case by (auto simp: try_pop_for_def split: list.split_asm)
qed

text \<open>
  The queue is a bounded FIFO buffer under any interleaving of producers and consumers.
  What was pushed is what was taken followed by what is still inside, in the same order,
  so nothing is lost, duplicated or reordered; the size never exceeds the capacity; a
  producer waits exactly when the queue is full and a consumer exactly when it is empty.
\<close>

theorem queue_fifo_bounded:
  assumes "queue_history cap q ins outs"
  shows "ins = outs @ queue q \<and> queue_size q = length ins - length outs \<and> queue_size q \<le> cap \<and>
    (push q x = Blocked \<longleftrightarrow> queue_size q = cap) \<and>
    (pop q = Blocked \<longleftrightarrow> ins = outs) \<and> (fst (try_pop_for q) = None \<longleftrightarrow> queue_empty q)"
  using queue_history_inv [OF assms]
  by (auto simp: queue_size_def queue_empty_def push_def pop_def try_pop_for_def queue_invar_def split: list.split)

lemma sample_history: "queue_history 1 \<lparr>queue = [5], capacity = 1\<rparr> ([] @ [5]) ([] :: nat list)"
  by (rule queue_history.pushed [OF queue_history.created]) (simp add: push_def new_queue_def)

theorem queue_fifo_bounded_witness:
  "push \<lparr>queue = [5], capacity = 1\<rparr> (6 :: nat) = Blocked \<and> queue_size \<lparr>queue = [5 :: nat], capacity = 1\<rparr> = 1"
  using queue_fifo_bounded [OF sample_history, of 6] by (simp add: queue_size_def)

end
