(* ===== verification/MQ_Monitor.thy ===== *)
theory MQ_Monitor
  imports MQ_SafeQueue
begin

text \<open>
  \<open>SafeQueue.hpp\<close> at the level of its mutex and its two condition variables: any number of
  threads call \<open>push\<close>, \<open>pop\<close> and \<open>try_pop_for\<close>, wait, are notified, wake up spuriously or
  time out. A step is one critical section of a thread, up to the wait or the unlock, or
  the \<open>notify_one\<close> after the unlock. The model shows that the atomic operations of
  \<open>MQ_SafeQueue\<close> are what the threads observe, and that no wake-up is lost.
\<close>

section \<open>Threads\<close>

text \<open>
  Where a thread is in a call. \<open>Push_entry\<close> and \<open>Pop_entry\<close> are before the mutex is acquired for
  the first time; in \<open>Push_wait\<close> and \<open>Pop_wait\<close> it is in the wait set of the condition
  variable, without the mutex; \<open>Push_awake\<close>, \<open>Pop_awake\<close> and \<open>Pop_timeout\<close> have left the wait set
  and must acquire the mutex to evaluate the predicate again; in \<open>Push_notify\<close> and
  \<open>Pop_notify\<close> the item is moved and the mutex released, the notification still to come. The
  flag of a consumer tells \<open>try_pop_for\<close> from \<open>pop\<close>.
\<close>

datatype 'a thread =
    Outside
  | Push_entry 'a | Push_wait 'a | Push_awake 'a | Push_notify
  | Pop_entry bool | Pop_wait bool | Pop_awake bool | Pop_timeout | Pop_notify 'a

record 'a monitor =
  contents :: "'a SafeQueue"
  threads :: "'a thread list"

text \<open>The critical section of a producer and of a consumer: evaluate the predicate, then move
  the item or join the wait set; a consumer whose time is up returns without an item.\<close>

fun push_section :: "'a \<Rightarrow> 'a SafeQueue \<Rightarrow> 'a SafeQueue \<times> 'a thread" where
  "push_section item q =
     (if length (queue q) < capacity q then (q\<lparr>queue := queue q @ [item]\<rparr>, Push_notify)
      else (q, Push_wait item))"

definition pop_section :: "'a thread \<Rightarrow> 'a SafeQueue \<Rightarrow> 'a SafeQueue \<times> 'a thread" where
  "pop_section waiting q =
     (case queue q of
        [] \<Rightarrow> (q, waiting)
      | item # rest \<Rightarrow> (q\<lparr>queue := rest\<rparr>, Pop_notify item))"

text \<open>\<open>notify_one\<close>: one thread of the wait set, if there is one, leaves it.\<close>

inductive notify_one :: "('a thread \<Rightarrow> bool) \<Rightarrow> ('a thread \<Rightarrow> 'a thread) \<Rightarrow> 'a thread list \<Rightarrow> 'a thread list \<Rightarrow> bool"
  for waits wake where
  nobody: "\<forall>t \<in> set ts. \<not> waits t \<Longrightarrow> notify_one waits wake ts ts"
| somebody: "i < length ts \<Longrightarrow> waits (ts ! i) \<Longrightarrow> notify_one waits wake ts (ts[i := wake (ts ! i)])"

fun push_waits :: "'a thread \<Rightarrow> bool" where
  "push_waits (Push_wait _) = True"
| "push_waits _ = False"

fun pop_waits :: "'a thread \<Rightarrow> bool" where
  "pop_waits (Pop_wait _) = True"
| "pop_waits _ = False"

fun wake :: "'a thread \<Rightarrow> 'a thread" where
  "wake (Push_wait x) = Push_awake x"
| "wake (Pop_wait timed) = Pop_awake timed"
| "wake t = t"

text \<open>
  The steps of the threads that are inside a call, and the steps that come from outside: a
  new call, or a spurious wake-up.
\<close>

inductive work_step :: "'a monitor \<Rightarrow> 'a monitor \<Rightarrow> bool" where
  push_locked: "i < length (threads s) \<Longrightarrow> threads s ! i = Push_entry x \<or> threads s ! i = Push_awake x \<Longrightarrow>
    push_section x (contents s) = (q, t) \<Longrightarrow> work_step s \<lparr>contents = q, threads = (threads s)[i := t]\<rparr>"
| pop_locked: "i < length (threads s) \<Longrightarrow> threads s ! i = Pop_entry timed \<or> threads s ! i = Pop_awake timed \<Longrightarrow>
    pop_section (Pop_wait timed) (contents s) = (q, t) \<Longrightarrow> work_step s \<lparr>contents = q, threads = (threads s)[i := t]\<rparr>"
| late_locked: "i < length (threads s) \<Longrightarrow> threads s ! i = Pop_timeout \<Longrightarrow>
    pop_section Outside (contents s) = (q, t) \<Longrightarrow> work_step s \<lparr>contents = q, threads = (threads s)[i := t]\<rparr>"
| notify_not_empty: "i < length (threads s) \<Longrightarrow> threads s ! i = Push_notify \<Longrightarrow>
    notify_one pop_waits wake ((threads s)[i := Outside]) ts \<Longrightarrow> work_step s (s\<lparr>threads := ts\<rparr>)"
| notify_not_full: "i < length (threads s) \<Longrightarrow> threads s ! i = Pop_notify x \<Longrightarrow>
    notify_one push_waits wake ((threads s)[i := Outside]) ts \<Longrightarrow> work_step s (s\<lparr>threads := ts\<rparr>)"
| time_out: "i < length (threads s) \<Longrightarrow> threads s ! i = Pop_wait True \<Longrightarrow>
    work_step s (s\<lparr>threads := (threads s)[i := Pop_timeout]\<rparr>)"

inductive outside_step :: "'a monitor \<Rightarrow> 'a monitor \<Rightarrow> bool" where
  call_push: "i < length (threads s) \<Longrightarrow> threads s ! i = Outside \<Longrightarrow>
    outside_step s (s\<lparr>threads := (threads s)[i := Push_entry x]\<rparr>)"
| call_pop: "i < length (threads s) \<Longrightarrow> threads s ! i = Outside \<Longrightarrow>
    outside_step s (s\<lparr>threads := (threads s)[i := Pop_entry timed]\<rparr>)"
| spurious: "i < length (threads s) \<Longrightarrow> push_waits (threads s ! i) \<or> pop_waits (threads s ! i) \<Longrightarrow>
    outside_step s (s\<lparr>threads := (threads s)[i := wake (threads s ! i)]\<rparr>)"

inductive_cases notify_oneE: "notify_one waits wk ts ts'"

inductive monitor_reachable :: "nat \<Rightarrow> 'a monitor \<Rightarrow> bool" for cap where
  idle: "monitor_reachable cap \<lparr>contents = new_queue cap, threads = replicate n Outside\<rparr>"
| stepped: "monitor_reachable cap s \<Longrightarrow> work_step s s' \<or> outside_step s s' \<Longrightarrow> monitor_reachable cap s'"


section \<open>Counting threads\<close>

definition count_threads :: "('a thread \<Rightarrow> bool) \<Rightarrow> 'a thread list \<Rightarrow> nat" where
  "count_threads p ts = length (filter p ts)"

lemma count_threads_update:
  assumes "i < length ts"
  shows "count_threads p (ts[i := t]) + (if p (ts ! i) then 1 else 0) = count_threads p ts + (if p t then 1 else 0)"
  using assms unfolding count_threads_def
proof (induction ts arbitrary: i)
  case (Cons u ts)
  then show ?case by (cases i) auto
qed simp

lemma count_threads_zero: "count_threads p ts = 0 \<longleftrightarrow> (\<forall>t \<in> set ts. \<not> p t)"
  by (auto simp: count_threads_def filter_empty_conv)

lemma count_threads_replicate [simp]: "\<not> p Outside \<Longrightarrow> count_threads p (replicate n Outside) = 0"
  by (simp add: count_threads_def)

text \<open>
  The threads that will look at the queue without being notified first, or that owe a
  notification to those who wait for it.
\<close>

fun serves_consumers :: "'a thread \<Rightarrow> bool" where
  "serves_consumers Push_notify = True"
| "serves_consumers (Pop_entry _) = True"
| "serves_consumers (Pop_awake _) = True"
| "serves_consumers Pop_timeout = True"
| "serves_consumers _ = False"

fun serves_producers :: "'a thread \<Rightarrow> bool" where
  "serves_producers (Pop_notify _) = True"
| "serves_producers (Push_entry _) = True"
| "serves_producers (Push_awake _) = True"
| "serves_producers _ = False"

text \<open>
  The invariant: while a consumer waits there are at least as many threads that will serve
  the consumers as there are items, and while a producer waits at least as many that will
  serve the producers as there are free places.
\<close>

definition monitor_inv :: "nat \<Rightarrow> 'a monitor \<Rightarrow> bool" where
  "monitor_inv cap s \<longleftrightarrow> capacity (contents s) = cap \<and> length (queue (contents s)) \<le> cap \<and>
     (0 < count_threads pop_waits (threads s) \<longrightarrow>
        length (queue (contents s)) \<le> count_threads serves_consumers (threads s)) \<and>
     (0 < count_threads push_waits (threads s) \<longrightarrow>
        cap - length (queue (contents s)) \<le> count_threads serves_producers (threads s))"

lemma monitor_inv_update:
  assumes "monitor_inv cap s" "i < length (threads s)"
    and "capacity q = cap" "length (queue q) \<le> cap"
    and "\<And>w sc. \<lbrakk>w + (if pop_waits (threads s ! i) then 1 else 0) = count_threads pop_waits (threads s) + (if pop_waits t then 1 else 0);
        sc + (if serves_consumers (threads s ! i) then 1 else 0) =
          count_threads serves_consumers (threads s) + (if serves_consumers t then 1 else 0); 0 < w\<rbrakk>
      \<Longrightarrow> length (queue q) \<le> sc"
    and "\<And>w sp. \<lbrakk>w + (if push_waits (threads s ! i) then 1 else 0) = count_threads push_waits (threads s) + (if push_waits t then 1 else 0);
        sp + (if serves_producers (threads s ! i) then 1 else 0) =
          count_threads serves_producers (threads s) + (if serves_producers t then 1 else 0); 0 < w\<rbrakk>
      \<Longrightarrow> cap - length (queue q) \<le> sp"
  shows "monitor_inv cap \<lparr>contents = q, threads = (threads s)[i := t]\<rparr>"
  unfolding monitor_inv_def
  using assms(3,4) assms(5) [OF count_threads_update [OF assms(2), of pop_waits t] count_threads_update [OF assms(2), of serves_consumers t]]
    assms(6) [OF count_threads_update [OF assms(2), of push_waits t] count_threads_update [OF assms(2), of serves_producers t]]
  by simp

text \<open>A thread takes itself off the list and notifies: what the other threads' counts become.\<close>

lemma count_threads_notify:
  assumes "notify_one waits wk (ts[i := Outside]) ts'" "i < length ts" "\<not> p Outside"
  shows "(\<forall>t \<in> set ts'. \<not> waits t) \<and> count_threads p ts' + (if p (ts ! i) then 1 else 0) = count_threads p ts \<or>
    (\<exists>t. waits t \<and> count_threads p ts' + (if p (ts ! i) then 1 else 0) + (if p t then 1 else 0) =
       count_threads p ts + (if p (wk t) then 1 else 0))"
proof -
  let ?ts = "ts[i := Outside]"
  from assms(1) consider (nobody) "ts' = ?ts" "\<forall>t \<in> set ts'. \<not> waits t"
    | (somebody) j where "j < length ?ts" "waits (?ts ! j)" "ts' = ?ts[j := wk (?ts ! j)]"
    by (auto elim: notify_oneE)
  then show ?thesis
  proof cases
    case nobody
    then show ?thesis
      using count_threads_update [OF assms(2), of p Outside] assms(3) by (intro disjI1) simp
  next
    case somebody
    then show ?thesis
      using count_threads_update [OF somebody(1), of p "wk (?ts ! j)"]
        count_threads_update [OF assms(2), of p Outside] assms(3)
      by (intro disjI2 exI [of _ "?ts ! j"]) simp
  qed
qed

lemma monitor_inv_notify_consumer:
  assumes "i < length (threads s)" "threads s ! i = Push_notify" "notify_one pop_waits wake ((threads s)[i := Outside]) ts"
    and "monitor_inv cap s"
  shows "monitor_inv cap (s\<lparr>threads := ts\<rparr>)"
proof -
  note n = count_threads_notify [OF assms(3,1)]
  have pw: "pop_waits t \<Longrightarrow> \<exists>timed. t = Pop_wait timed" for t :: "'a thread"
    by (cases t) auto
  have "0 < count_threads pop_waits ts \<Longrightarrow>
      length (queue (contents s)) \<le> count_threads serves_consumers ts"
    using n [of serves_consumers] n [of pop_waits] assms(2,4) count_threads_zero [of pop_waits ts]
    by (auto simp: monitor_inv_def dest!: pw)
  moreover have "0 < count_threads push_waits ts \<Longrightarrow>
      cap - length (queue (contents s)) \<le> count_threads serves_producers ts"
    using n [of serves_producers] n [of push_waits] assms(2,4)
    by (auto simp: monitor_inv_def dest!: pw)
  ultimately show ?thesis
    using assms(4) by (simp add: monitor_inv_def)
qed

lemma monitor_inv_notify_producer:
  assumes "i < length (threads s)" "threads s ! i = Pop_notify x" "notify_one push_waits wake ((threads s)[i := Outside]) ts"
    and "monitor_inv cap s"
  shows "monitor_inv cap (s\<lparr>threads := ts\<rparr>)"
proof -
  note n = count_threads_notify [OF assms(3,1)]
  have pw: "push_waits t \<Longrightarrow> \<exists>y. t = Push_wait y" for t :: "'a thread"
    by (cases t) auto
  have "0 < count_threads push_waits ts \<Longrightarrow>
      cap - length (queue (contents s)) \<le> count_threads serves_producers ts"
    using n [of serves_producers] n [of push_waits] assms(2,4) count_threads_zero [of push_waits ts]
    by (auto simp: monitor_inv_def dest!: pw)
  moreover have "0 < count_threads pop_waits ts \<Longrightarrow>
      length (queue (contents s)) \<le> count_threads serves_consumers ts"
    using n [of serves_consumers] n [of pop_waits] assms(2,4)
    by (auto simp: monitor_inv_def dest!: pw)
  ultimately show ?thesis
    using assms(4) by (simp add: monitor_inv_def)
qed

lemma monitor_inv_work: "work_step s s' \<Longrightarrow> monitor_inv cap s \<Longrightarrow> monitor_inv cap s'"
proof (induction rule: work_step.induct)
  case (push_locked i s x q t)
  then show ?case
    by (intro monitor_inv_update) (auto simp: monitor_inv_def split: if_splits)
next
  case (pop_locked i s timed q t)
  then show ?case
    by (intro monitor_inv_update) (auto simp: monitor_inv_def pop_section_def split: list.split_asm)
next
  case (late_locked i s q t)
  then show ?case
    by (intro monitor_inv_update) (auto simp: monitor_inv_def pop_section_def split: list.split_asm)
next
  case (time_out i s)
  then have "monitor_inv cap \<lparr>contents = contents s, threads = (threads s)[i := Pop_timeout]\<rparr>"
    by (intro monitor_inv_update) (auto simp: monitor_inv_def)
  then show ?case by (simp add: monitor_inv_def)
next
  case (notify_not_empty i s ts)
  then show ?case by (intro monitor_inv_notify_consumer)
next
  case (notify_not_full i s x ts)
  then show ?case by (intro monitor_inv_notify_producer)
qed

lemma monitor_inv_outside: "outside_step s s' \<Longrightarrow> monitor_inv cap s \<Longrightarrow> monitor_inv cap s'"
proof (induction rule: outside_step.induct)
  case (call_push i s x)
  then have "monitor_inv cap \<lparr>contents = contents s, threads = (threads s)[i := Push_entry x]\<rparr>"
    by (intro monitor_inv_update) (auto simp: monitor_inv_def)
  then show ?case by (simp add: monitor_inv_def)
next
  case (call_pop i s timed)
  then have "monitor_inv cap \<lparr>contents = contents s, threads = (threads s)[i := Pop_entry timed]\<rparr>"
    by (intro monitor_inv_update) (auto simp: monitor_inv_def)
  then show ?case by (simp add: monitor_inv_def)
next
  case (spurious i s)
  then have "monitor_inv cap \<lparr>contents = contents s, threads = (threads s)[i := wake (threads s ! i)]\<rparr>"
    by (intro monitor_inv_update) (cases "threads s ! i"; auto simp: monitor_inv_def)+
  then show ?case by (simp add: monitor_inv_def)
qed

lemma monitor_reachable_inv: "monitor_reachable cap s \<Longrightarrow> monitor_inv cap s"
proof (induction rule: monitor_reachable.induct)
  case (idle n)
  show ?case by (simp add: monitor_inv_def new_queue_def)
next
  case (stepped s s')
  then show ?case by (blast intro: monitor_inv_work monitor_inv_outside)
qed


section \<open>Work that is left\<close>

fun work_of :: "'a thread \<Rightarrow> nat" where
  "work_of Outside = 0"
| "work_of (Push_entry x) = 13" | "work_of (Pop_entry timed) = 13"
| "work_of (Push_awake x) = 12" | "work_of (Pop_awake timed) = 12"
| "work_of (Push_wait x) = 10" | "work_of (Pop_wait timed) = 10"
| "work_of Pop_timeout = 6"
| "work_of Push_notify = 4" | "work_of (Pop_notify x) = 4"

definition work_left :: "'a thread list \<Rightarrow> nat" where
  "work_left ts = sum_list (map work_of ts)"

lemma work_left_update: "i < length ts \<Longrightarrow> work_left (ts[i := t]) + work_of (ts ! i) = work_left ts + work_of t"
  unfolding work_left_def
proof (induction ts arbitrary: i)
  case (Cons u ts)
  then show ?case by (cases i) auto
qed simp

lemma work_left_bound: "work_left ts \<le> 13 * length ts"
proof -
  have "work_of t \<le> 13" for t :: "'a thread" by (cases t) simp_all
  then show ?thesis
    unfolding work_left_def by (induction ts) (simp_all add: add_le_mono)
qed

lemma work_left_notify:
  assumes "notify_one waits wake (ts[i := Outside]) ts'" "i < length ts" "work_of (ts ! i) = 4"
  shows "work_left ts' < work_left ts"
proof -
  have w: "work_of (wake t) \<le> work_of t + 2" for t :: "'a thread"
    by (cases t) simp_all
  from assms(1) show ?thesis
  proof (rule notify_oneE)
    assume "ts' = ts[i := Outside]"
    then show ?thesis using work_left_update [OF assms(2), of Outside] assms(3) by simp
  next
    fix j
    assume "ts' = (ts[i := Outside])[j := wake (ts[i := Outside] ! j)]" "j < length (ts[i := Outside])"
    then show ?thesis
      using work_left_update [of j "ts[i := Outside]" "wake (ts[i := Outside] ! j)"] w [of "ts[i := Outside] ! j"]
        work_left_update [OF assms(2), of Outside] assms(3) by simp
  qed
qed

lemma work_step_less: "work_step s s' \<Longrightarrow> work_left (threads s') < work_left (threads s)"
proof (induction rule: work_step.induct)
  case (push_locked i s x q t)
  then show ?case
    using work_left_update [OF push_locked(1), of t] by (auto split: if_splits)
next
  case (pop_locked i s timed q t)
  then show ?case
    using work_left_update [OF pop_locked(1), of t] by (auto simp: pop_section_def split: list.split_asm)
next
  case (late_locked i s q t)
  then show ?case
    using work_left_update [OF late_locked(1), of t] by (auto simp: pop_section_def split: list.split_asm)
next
  case (time_out i s)
  then show ?case
    using work_left_update [OF time_out(1), of Pop_timeout] by simp
qed (auto intro: work_left_notify)

lemma work_steps_bound: "(work_step ^^ n) s s' \<Longrightarrow> n + work_left (threads s') \<le> work_left (threads s)"
proof (induction n arbitrary: s')
  case (Suc n)
  then obtain t where "(work_step ^^ n) s t" "work_step t s'" by auto
  with Suc.IH [of t] work_step_less [of t s'] show ?case by simp
qed simp

lemma notify_one_total: "\<exists>ts'. notify_one waits wk ts ts'"
proof (cases "\<exists>t \<in> set ts. waits t")
  case True
  then obtain i where "i < length ts" "waits (ts ! i)" by (auto simp: in_set_conv_nth)
  then show ?thesis by (blast intro: notify_one.somebody)
qed (blast intro: notify_one.nobody)

text \<open>Only threads outside a call and threads that wait without a timeout have nothing to do.\<close>

lemma work_step_enabled:
  assumes "t \<in> set (threads s)" "t \<noteq> Outside" "\<not> push_waits t" "t \<noteq> Pop_wait False"
  shows "\<exists>s'. work_step s s'"
proof -
  obtain i where i: "i < length (threads s)" "threads s ! i = t"
    using assms(1) by (auto simp: in_set_conv_nth)
  have push: "\<exists>s'. work_step s s'" if "t = Push_entry x \<or> t = Push_awake x" for x
    using push_locked [of i s x "fst (push_section x (contents s))" "snd (push_section x (contents s))"] i that by auto
  have pop: "\<exists>s'. work_step s s'" if "t = Pop_entry timed \<or> t = Pop_awake timed" for timed
    using pop_locked [of i s timed "fst (pop_section (Pop_wait timed) (contents s))"
        "snd (pop_section (Pop_wait timed) (contents s))"] i that by auto
  have late: "\<exists>s'. work_step s s'" if "t = Pop_timeout"
    using late_locked [of i s "fst (pop_section Outside (contents s))" "snd (pop_section Outside (contents s))"] i that by auto
  have notify: "\<exists>s'. work_step s s'" if "t = Push_notify \<or> t = Pop_notify x" for x
    using notify_not_empty [OF i(1)] notify_not_full [OF i(1)] i(2) that notify_one_total by metis
  have "\<exists>s'. work_step s s'" if "t = Pop_wait True"
    using time_out [of i s] i that by auto
  then show ?thesis
    using assms(2-4) push pop late notify by (cases t) auto
qed


section \<open>Properties\<close>

lemma monitor_step_atomic:
  assumes "work_step s s' \<or> outside_step s s'"
  shows "contents s' = contents s \<or> (\<exists>x. push (contents s) x = Done (contents s')) \<or>
    (\<exists>x. pop (contents s) = Done (x, contents s'))"
  using assms
proof
  assume "work_step s s'"
  then show ?thesis
    by cases (auto simp: push_def pop_def pop_section_def split: if_splits list.split_asm)
next
  assume "outside_step s s'"
  then show ?thesis by cases auto
qed

lemma monitor_history: "monitor_reachable cap s \<Longrightarrow> \<exists>ins outs. queue_history cap (contents s) ins outs"
proof (induction rule: monitor_reachable.induct)
  case (idle n)
  show ?case by (auto intro: queue_history.created)
next
  case (stepped s s')
  then show ?case
    using monitor_step_atomic [of s s'] by (metis queue_history.pushed queue_history.popped)
qed

text \<open>A monitor with one thread, whose call of \<open>push\<close> has just begun.\<close>

definition one_producer :: "nat monitor" where
  "one_producer = \<lparr>contents = new_queue 1, threads = [Push_entry 5]\<rparr>"

lemma one_producer_reachable: "monitor_reachable 1 one_producer"
proof -
  have "outside_step \<lparr>contents = new_queue 1, threads = replicate 1 Outside\<rparr> (one_producer)"
    using call_push [of 0 "\<lparr>contents = new_queue 1, threads = replicate 1 Outside\<rparr>" 5]
    by (simp add: one_producer_def)
  then show ?thesis
    using monitor_reachable.idle [of 1 1] by (blast intro: monitor_reachable.stepped)
qed

lemma one_producer_step: "work_step one_producer \<lparr>contents = \<lparr>queue = [5], capacity = 1\<rparr>, threads = [Push_notify]\<rparr>"
  using push_locked [of 0 one_producer 5 "\<lparr>queue = [5], capacity = 1\<rparr>" Push_notify]
  by (simp add: one_producer_def new_queue_def)

text \<open>
  C15: the condition variables implement the atomic queue. Every step of every thread, in
  every state any number of threads can bring the monitor into, leaves the queue alone or
  is exactly one completed \<open>push\<close> or \<open>pop\<close>; so what the threads have put in and taken out
  is a history of the atomic queue.
\<close>

theorem monitor_refines_queue:
  assumes "monitor_reachable cap s" and "work_step s s' \<or> outside_step s s'"
  shows "\<exists>ins outs. queue_history cap (contents s) ins outs \<and>
    (contents s' = contents s \<or>
     (\<exists>x. push (contents s) x = Done (contents s') \<and> queue_history cap (contents s') (ins @ [x]) outs) \<or>
     (\<exists>x. pop (contents s) = Done (x, contents s') \<and> queue_history cap (contents s') ins (outs @ [x])))"
  using monitor_history [OF assms(1)] monitor_step_atomic [OF assms(2)]
  by (blast intro: queue_history.pushed queue_history.popped)

theorem monitor_refines_queue_witness:
  "\<exists>ins outs. queue_history 1 (contents one_producer) ins outs \<and>
    (\<lparr>queue = [5], capacity = 1\<rparr> = contents one_producer \<or>
     (\<exists>x. push (contents one_producer) x = Done \<lparr>queue = [5], capacity = 1\<rparr>) \<or>
     (\<exists>x. pop (contents one_producer) = Done (x, \<lparr>queue = [5], capacity = 1\<rparr>)))"
  using monitor_refines_queue [OF one_producer_reachable disjI1 [OF one_producer_step]] by auto

text \<open>
  C16: no wake-up is lost and the threads settle. Without new calls and spurious wake-ups the
  threads make at most 13 steps per thread; when none of them can go on, every thread is
  outside or waits without a timeout, no consumer waits while there is an item, and no
  producer waits while there is room. One \<open>notify_one\<close> per item is enough.
\<close>

theorem no_lost_wakeup:
  assumes "monitor_reachable cap s" and "(work_step ^^ n) s s'"
  shows "n \<le> 13 * length (threads s) \<and>
    ((\<exists>s''. work_step s' s'') \<or>
     (\<forall>t \<in> set (threads s'). t = Outside \<or> push_waits t \<or> t = Pop_wait False) \<and>
     ((\<exists>t \<in> set (threads s'). pop_waits t) \<longrightarrow> queue (contents s') = []) \<and>
     ((\<exists>t \<in> set (threads s'). push_waits t) \<longrightarrow> length (queue (contents s')) = cap))"
proof (cases "\<exists>s''. work_step s' s''")
  case True
  then show ?thesis
    using work_steps_bound [OF assms(2)] work_left_bound [of "threads s"] by simp
next
  case False
  have "monitor_reachable cap s'"
    using assms(2,1) by (induction n arbitrary: s') (auto intro: monitor_reachable.stepped)
  then have inv: "monitor_inv cap s'" by (rule monitor_reachable_inv)
  have idle: "t = Outside \<or> push_waits t \<or> t = Pop_wait False" if "t \<in> set (threads s')" for t
    using work_step_enabled [OF that] False by blast
  then have "\<not> serves_consumers t \<and> \<not> serves_producers t" if "t \<in> set (threads s')" for t
    using that by (cases t) fastforce+
  then have "count_threads serves_consumers (threads s') = 0" "count_threads serves_producers (threads s') = 0"
    by (simp_all add: count_threads_zero)
  then have "(\<exists>t \<in> set (threads s'). pop_waits t) \<longrightarrow> queue (contents s') = []"
    "(\<exists>t \<in> set (threads s'). push_waits t) \<longrightarrow> length (queue (contents s')) = cap"
    using inv count_threads_zero [of pop_waits "threads s'"] count_threads_zero [of push_waits "threads s'"]
    by (auto simp: monitor_inv_def)
  then show ?thesis
    using idle work_steps_bound [OF assms(2)] work_left_bound [of "threads s"] by simp
qed

theorem no_lost_wakeup_witness:
  "1 \<le> 13 * length (threads one_producer) \<and>
   (\<exists>s''. work_step \<lparr>contents = \<lparr>queue = [5 :: nat], capacity = 1\<rparr>, threads = [Push_notify]\<rparr> s'')"
proof -
  have "(work_step ^^ 1) one_producer \<lparr>contents = \<lparr>queue = [5], capacity = 1\<rparr>, threads = [Push_notify]\<rparr>"
    using one_producer_step by (simp add: eq_OO)
  from no_lost_wakeup [OF one_producer_reachable this] show ?thesis by simp
qed

end
