(* ===== verification/MQ_Wal.thy ===== *)
theory MQ_Wal
  imports MQ_Endian MQ_Message MQ_SafeQueue MQ_Containers
begin

text \<open>
  \<open>WalWriter\<close>: the double-buffered append-only log and its replay. The bytes of the file
  survive a crash, the two buffers do not. The locale \<open>torn_log\<close> states when a reader of
  a log of self-delimiting records recovers exactly the complete records of a log that was
  cut off at any byte; it is interpreted for the loop of \<open>replay\<close>.
\<close>

section \<open>Definitions\<close>

definition WAL_PUBLISH :: u8 where "WAL_PUBLISH = 0x01"
definition WAL_ACK :: u8 where "WAL_ACK = 0x02"

text \<open>
  The members of the class; \<open>wal_file\<close> is the content of the file, \<open>flushing\<close> tells whether
  the flush thread is between the swap of the buffers and the clearing of \<open>flush_buf_\<close>.
\<close>

record WalWriter =
  wal_file :: bytes
  active_buf :: bytes
  flush_buf :: bytes
  wal_running :: bool
  flushing :: bool

definition write_be64 :: "bytes \<Rightarrow> u64 \<Rightarrow> bytes" where
  "write_be64 out v = out @ le_bytes 8 (to_be64 v)"

definition write_be32 :: "bytes \<Rightarrow> u32 \<Rightarrow> bytes" where
  "write_be32 out v = out @ le_bytes 4 (to_be32 v)"

definition write_be16 :: "bytes \<Rightarrow> u16 \<Rightarrow> bytes" where
  "write_be16 out v = out @ le_bytes 2 (swap16 v)"

text \<open>
  A \<open>std::ifstream\<close>: the unread bytes and \<open>failbit\<close>. \<open>read\<close> of more bytes than are left
  stores what there is and fails; a failed stream delivers nothing.
\<close>

record istream =
  unread :: bytes
  failed :: bool

definition in_read :: "nat \<Rightarrow> istream \<Rightarrow> bytes \<times> istream" where
  "in_read n s =
     (if failed s then ([], s)
      else if n \<le> length (unread s) then (take n (unread s), s\<lparr>unread := drop n (unread s)\<rparr>)
      else (unread s, s\<lparr>unread := [], failed := True\<rparr>))"

definition read_be64 :: "istream \<Rightarrow> u64 \<times> istream" where
  "read_be64 s = (let (raw, s') = in_read 8 s in (to_be64 (load_le raw), s'))"

definition read_be32 :: "istream \<Rightarrow> u32 \<times> istream" where
  "read_be32 s = (let (raw, s') = in_read 4 s in (from_be32 (load_le raw), s'))"

definition read_be16 :: "istream \<Rightarrow> u16 \<times> istream" where
  "read_be16 s = (let (raw, s') = in_read 2 s in (swap16 (load_le raw), s'))"

text \<open>The constructor: \<open>Inl\<close> is the message of the exception when the file does not open;
  opening in append mode keeps what the file holds.\<close>

definition open_wal :: "string \<Rightarrow> bool \<Rightarrow> bytes \<Rightarrow> string + WalWriter" where
  "open_wal path is_open content =
     (if \<not> is_open then Inl (''[WAL] Cannot open WAL file: '' @ path)
      else Inr \<lparr>wal_file = content, active_buf = [], flush_buf = [], wal_running = True, flushing = False\<rparr>)"

text \<open>\<open>flush_thread_loop\<close>: the swap under the lock, the write outside it, the final flush.\<close>

definition flush_swap :: "WalWriter \<Rightarrow> WalWriter" where
  "flush_swap w =
     (if active_buf w = [] then w
      else w\<lparr>active_buf := flush_buf w, flush_buf := active_buf w, flushing := True\<rparr>)"

definition flush_write :: "WalWriter \<Rightarrow> WalWriter" where
  "flush_write w = w\<lparr>wal_file := wal_file w @ flush_buf w, flush_buf := [], flushing := False\<rparr>"

definition final_flush :: "WalWriter \<Rightarrow> WalWriter" where
  "final_flush w =
     (if active_buf w \<noteq> [] then w\<lparr>wal_file := wal_file w @ active_buf w\<rparr> else w)"

text \<open>The destructor: the flush thread finishes the turn it is in, then flushes the rest.\<close>

definition close_wal :: "WalWriter \<Rightarrow> WalWriter" where
  "close_wal w =
     (let w = w\<lparr>wal_running := False\<rparr>;
          w = (if flushing w then flush_write w else w)
      in final_flush w)"

definition append :: "WalWriter \<Rightarrow> Message \<Rightarrow> WalWriter" where
  "append w msg =
     (let topic_len = of_nat (length (topic msg));
          body_len = of_nat (length (body msg));
          buf = active_buf w @ [WAL_PUBLISH];
          buf = write_be64 buf (msg_id msg);
          buf = write_be16 buf topic_len;
          buf = buf @ bytes_of_string (topic msg);
          buf = write_be32 buf body_len;
          buf = buf @ body msg
      in w\<lparr>active_buf := buf\<rparr>)"

definition acknowledge :: "WalWriter \<Rightarrow> u64 \<Rightarrow> WalWriter" where
  "acknowledge w mid = w\<lparr>active_buf := write_be64 (active_buf w @ [WAL_ACK]) mid\<rparr>"

text \<open>The reading loop of \<open>replay\<close>, with the two tables it fills.\<close>

type_synonym replay_tables = "(u64, Message) unordered_map \<times> u64 set"

definition read_publish :: "istream \<Rightarrow> Message \<times> istream" where
  "read_publish s =
     (let (mid, s) = read_be64 s;
          (topic_len, s) = read_be16 s;
          (t, s) = in_read (unat topic_len) s;
          (body_len, s) = read_be32 s;
          (b, s) = in_read (unat body_len) s
      in (\<lparr>msg_id = mid, topic = string_of_bytes t, body = b, retry_count = 0\<rparr>, s))"

lemma unread_in_read: "length (unread (snd (in_read n s))) \<le> length (unread s)"
  by (simp add: in_read_def)

lemma unread_in_read_1:
  "in_read 1 s = (raw, s1) \<Longrightarrow> \<not> failed s \<Longrightarrow> unread s \<noteq> [] \<Longrightarrow> length (unread s1) < length (unread s)"
  by (cases "unread s") (auto simp: in_read_def)

lemma unread_reads:
  "length (unread (snd (read_be64 s))) \<le> length (unread s)"
  "length (unread (snd (read_be32 s))) \<le> length (unread s)"
  "length (unread (snd (read_be16 s))) \<le> length (unread s)"
  using unread_in_read [of 8 s] unread_in_read [of 4 s] unread_in_read [of 2 s]
  by (simp_all add: read_be64_def read_be32_def read_be16_def case_prod_beta)

lemma unread_read_publish: "length (unread (snd (read_publish s))) \<le> length (unread s)"
  unfolding read_publish_def Let_def case_prod_beta snd_conv
  by (meson order_trans unread_in_read unread_reads)

function replay_loop :: "istream \<Rightarrow> replay_tables \<Rightarrow> replay_tables" where
  "replay_loop s (published, acked) =
     (if failed s \<or> unread s = [] then (published, acked) else
      let (raw, s1) = in_read 1 s; record_type = (load_le raw :: u8) in
      if failed s1 then (published, acked)
      else if record_type = WAL_PUBLISH then
        let (msg, s2) = read_publish s1 in
        if failed s2 then (published, acked)
        else replay_loop s2 (AList.update (msg_id msg) msg published, acked)
      else if record_type = WAL_ACK then
        let (mid, s2) = read_be64 s1 in
        if failed s2 then (published, acked)
        else replay_loop s2 (published, insert mid acked)
      else (published, acked))"
  by pat_completeness auto
termination
proof (relation "measure (\<lambda>(s, _). length (unread s))", goal_cases)
  case 1
  show ?case by simp
next
  case (2 s published acked x raw s1 rt xa msg s2)
  then have "length (unread s1) < length (unread s)"
    by (intro unread_in_read_1 [of s raw s1]) simp_all
  moreover have "s2 = snd (read_publish s1)"
    using 2 by (simp add: prod_eq_iff)
  ultimately show ?case
    using unread_read_publish [of s1] by simp
next
  case (3 s published acked x raw s1 rt xa mid s2)
  then have "length (unread s1) < length (unread s)"
    by (intro unread_in_read_1 [of s raw s1]) simp_all
  moreover have "s2 = snd (read_be64 s1)"
    using 3 by (simp add: prod_eq_iff)
  ultimately show ?case
    using unread_reads(1) [of s1] by simp
qed

declare replay_loop.simps [simp del]

fun replay_push :: "u64 set \<Rightarrow> Message SafeQueue \<Rightarrow> (u64 \<times> Message) list \<Rightarrow> Message SafeQueue outcome" where
  "replay_push acked q [] = Done q"
| "replay_push acked q ((mid, msg) # ps) =
     (if mid \<notin> acked then obind (push q msg) (\<lambda>q'. replay_push acked q' ps)
      else replay_push acked q ps)"

text \<open>\<open>replay\<close>; the argument is \<open>None\<close> when the file cannot be opened.\<close>

definition replay :: "bytes option \<Rightarrow> Message SafeQueue \<Rightarrow> Message SafeQueue outcome" where
  "replay file q =
     (case file of
        None \<Rightarrow> Done q
      | Some content \<Rightarrow>
          (let (published, acked) = replay_loop \<lparr>unread = content, failed = False\<rparr> ([], {})
           in replay_push acked q published))"


section \<open>Logs of self-delimiting records\<close>

text \<open>
  A reader of a log consumes one record and goes on with the rest, and is not misled by
  the beginning of a record. Then it recovers the complete records of any prefix.
\<close>

locale torn_log =
  fixes enc :: "'r \<Rightarrow> bytes"
    and ok :: "'r \<Rightarrow> bool"
    and scan :: "bytes \<Rightarrow> 's \<Rightarrow> 's"
    and step :: "'r \<Rightarrow> 's \<Rightarrow> 's"
  assumes scan_Nil: "scan [] st = st"
    and scan_record: "ok r \<Longrightarrow> scan (enc r @ rest) st = scan rest (step r st)"
    and scan_torn: "ok r \<Longrightarrow> n < length (enc r) \<Longrightarrow> scan (take n (enc r)) st = st"
begin

lemma scan_records:
  "\<forall>r \<in> set rs. ok r \<Longrightarrow> scan (concat (map enc rs) @ rest) st = scan rest (fold step rs st)"
  by (induction rs arbitrary: st) (auto simp: scan_record)

lemma scan_all: "\<forall>r \<in> set rs. ok r \<Longrightarrow> scan (concat (map enc rs)) st = fold step rs st"
  using scan_records [of rs "[]" st] by (simp add: scan_Nil)

text \<open>A log cut after \<open>k\<close> bytes yields the records that fit into \<open>k\<close> bytes, and only those.\<close>

lemma scan_cut:
  assumes "\<forall>r \<in> set rs. ok r"
  shows "\<exists>j \<le> length rs. scan (take k (concat (map enc rs))) st = fold step (take j rs) st \<and>
    length (concat (map enc (take j rs))) \<le> k \<and>
    (j < length rs \<longrightarrow> k < length (concat (map enc (take (Suc j) rs))))"
  using assms
proof (induction rs arbitrary: k st)
  case Nil
  then show ?case by (simp add: scan_Nil)
next
  case (Cons r rs)
  show ?case
  proof (cases "k < length (enc r)")
    case True
    then have "scan (take k (concat (map enc (r # rs)))) st = st"
      using Cons.prems by (simp add: scan_torn)
    with True show ?thesis by (intro exI [of _ 0]) simp
  next
    case False
    obtain j where j: "j \<le> length rs"
      "scan (take (k - length (enc r)) (concat (map enc rs))) (step r st) = fold step (take j rs) (step r st)"
      "length (concat (map enc (take j rs))) \<le> k - length (enc r)"
      "j < length rs \<longrightarrow> k - length (enc r) < length (concat (map enc (take (Suc j) rs)))"
      using Cons.IH [of "k - length (enc r)" "step r st"] Cons.prems by auto
    moreover have "scan (take k (concat (map enc (r # rs)))) st =
        scan (take (k - length (enc r)) (concat (map enc rs))) (step r st)"
      using False Cons.prems by (simp add: scan_record)
    ultimately show ?thesis
      using False by (intro exI [of _ "Suc j"]) auto
  qed
qed

end


section \<open>Reading what was written\<close>

datatype wal_record = Published u64 string bytes | Acked u64

fun record_bytes :: "wal_record \<Rightarrow> bytes" where
  "record_bytes (Published mid t b) =
     WAL_PUBLISH # be_bytes 8 (unat mid) @ be_bytes 2 (length t) @ bytes_of_string t @
     be_bytes 4 (length b) @ b"
| "record_bytes (Acked mid) = WAL_ACK # be_bytes 8 (unat mid)"

fun record_ok :: "wal_record \<Rightarrow> bool" where
  "record_ok (Published mid t b) \<longleftrightarrow> length t < 2 ^ 16 \<and> length b < 2 ^ 32"
| "record_ok (Acked mid) \<longleftrightarrow> True"

fun apply_record :: "wal_record \<Rightarrow> replay_tables \<Rightarrow> replay_tables" where
  "apply_record (Published mid t b) (published, acked) =
     (AList.update mid \<lparr>msg_id = mid, topic = t, body = b, retry_count = 0\<rparr> published, acked)"
| "apply_record (Acked mid) (published, acked) = (published, insert mid acked)"

text \<open>The stream over given bytes.\<close>

abbreviation over :: "bytes \<Rightarrow> istream" where
  "over bs \<equiv> \<lparr>unread = bs, failed = False\<rparr>"

lemma in_read_exact [codec_simps]: "length bs = n \<Longrightarrow> in_read n (over (bs @ rest)) = (bs, over rest)"
  by (simp add: in_read_def)

lemma read_be64_bytes [codec_simps]: "read_be64 (over (be_bytes 8 (unat v) @ rest)) = (v, over rest)"
  by (simp add: read_be64_def in_read_exact)

lemma read_be32_bytes [codec_simps]:
  assumes "n < 2 ^ 32"
  shows "read_be32 (over (be_bytes 4 n @ rest)) = (of_nat n, over rest)"
  using be32.load_stored [of "of_nat n"] assms
  by (simp add: read_be32_def from_be32_def in_read_exact unat_of_nat)

lemma read_be16_bytes [codec_simps]:
  assumes "n < 2 ^ 16"
  shows "read_be16 (over (be_bytes 2 n @ rest)) = (of_nat n, over rest)"
  using be16.load_stored [of "of_nat n"] assms
  by (simp add: read_be16_def in_read_exact unat_of_nat)

lemma read_publish_bytes:
  assumes "length t < 2 ^ 16" "length b < 2 ^ 32"
  shows "read_publish (over (be_bytes 8 (unat mid) @ be_bytes 2 (length t) @ bytes_of_string t @
      be_bytes 4 (length b) @ b @ rest)) =
    (\<lparr>msg_id = mid, topic = t, body = b, retry_count = 0\<rparr>, over rest)"
  using assms
  by (simp add: read_publish_def read_be64_bytes read_be16_bytes read_be32_bytes in_read_exact unat_of_nat)

text \<open>
  A reader that does not fail reads the same when more bytes follow, and a failed stream
  stays failed. Hence a reader that needs all of \<open>bs\<close> fails on every proper prefix of it.
\<close>

definition steady_reader :: "(istream \<Rightarrow> 'a \<times> istream) \<Rightarrow> bool" where
  "steady_reader f \<longleftrightarrow>
     (\<forall>s. failed s \<longrightarrow> failed (snd (f s))) \<and>
     (\<forall>s ext. \<not> failed (snd (f s)) \<longrightarrow>
        f (s\<lparr>unread := unread s @ ext\<rparr>) =
          (fst (f s), (snd (f s))\<lparr>unread := unread (snd (f s)) @ ext\<rparr>))"

lemma steady_in_read: "steady_reader (in_read n)"
  by (auto simp: steady_reader_def in_read_def)

lemma steady_failed: "steady_reader f \<Longrightarrow> failed s \<Longrightarrow> failed (snd (f s))"
  by (simp add: steady_reader_def)

lemma steady_extends:
  "steady_reader f \<Longrightarrow> \<not> failed (snd (f s)) \<Longrightarrow>
     f (s\<lparr>unread := unread s @ ext\<rparr>) = (fst (f s), (snd (f s))\<lparr>unread := unread (snd (f s)) @ ext\<rparr>)"
  by (simp add: steady_reader_def)

definition rbind :: "(istream \<Rightarrow> 'a \<times> istream) \<Rightarrow> ('a \<Rightarrow> istream \<Rightarrow> 'b \<times> istream) \<Rightarrow> istream \<Rightarrow> 'b \<times> istream" where
  "rbind f g s = (let (x, s') = f s in g x s')"

lemma steady_rbind:
  assumes f: "steady_reader f" and g: "\<And>x. steady_reader (g x)"
  shows "steady_reader (rbind f g)"
  unfolding steady_reader_def rbind_def Let_def case_prod_beta
proof (intro conjI allI impI)
  fix s :: istream assume "failed s"
  then show "failed (snd (g (fst (f s)) (snd (f s))))"
    by (intro steady_failed [OF g] steady_failed [OF f])
next
  fix s :: istream and ext assume nf: "\<not> failed (snd (g (fst (f s)) (snd (f s))))"
  then have "\<not> failed (snd (f s))"
    using steady_failed [OF g] by blast
  from steady_extends [OF f this] steady_extends [OF g nf]
  show "g (fst (f (s\<lparr>unread := unread s @ ext\<rparr>))) (snd (f (s\<lparr>unread := unread s @ ext\<rparr>))) =
      (fst (g (fst (f s)) (snd (f s))),
       (snd (g (fst (f s)) (snd (f s))))\<lparr>unread := unread (snd (g (fst (f s)) (snd (f s)))) @ ext\<rparr>)"
    by simp
qed

lemma steady_return: "steady_reader (Pair h)"
  by (simp add: steady_reader_def)

lemma readers_rbind:
  "read_be64 = rbind (in_read 8) (\<lambda>raw. Pair (to_be64 (load_le raw)))"
  "read_be32 = rbind (in_read 4) (\<lambda>raw. Pair (from_be32 (load_le raw)))"
  "read_be16 = rbind (in_read 2) (\<lambda>raw. Pair (swap16 (load_le raw)))"
  by (simp_all add: fun_eq_iff read_be64_def read_be32_def read_be16_def rbind_def)

lemma read_publish_rbind:
  "read_publish =
     rbind read_be64 (\<lambda>mid. rbind read_be16 (\<lambda>tl. rbind (in_read (unat tl)) (\<lambda>t.
     rbind read_be32 (\<lambda>bl. rbind (in_read (unat bl)) (\<lambda>b.
       Pair \<lparr>msg_id = mid, topic = string_of_bytes t, body = b, retry_count = 0\<rparr>)))))"
  by (simp add: fun_eq_iff read_publish_def rbind_def)

lemma steady_read_ints: "steady_reader read_be64" "steady_reader read_be32" "steady_reader read_be16"
  unfolding readers_rbind by (intro steady_rbind steady_in_read steady_return)+

lemma steady_read_publish: "steady_reader read_publish"
  unfolding read_publish_rbind by (intro steady_rbind steady_in_read steady_read_ints steady_return)

lemma steady_prefix_fails:
  assumes f: "steady_reader f" and all: "f (over bs) = (x, over [])" and n: "n < length bs"
  shows "failed (snd (f (over (take n bs))))"
proof (rule ccontr)
  assume "\<not> failed (snd (f (over (take n bs))))"
  from steady_extends [OF f this, of "drop n bs"] all
  have "over [] = (snd (f (over (take n bs))))\<lparr>unread := unread (snd (f (over (take n bs)))) @ drop n bs\<rparr>"
    by simp
  then have "unread (over []) = unread (snd (f (over (take n bs)))) @ drop n bs"
    by (metis istream.ext_inject istream.surjective istream.update_convs(1))
  with n show False by simp
qed

lemma in_read_byte: "in_read (Suc 0) (over (b # bs)) = ([b], over bs)"
  by (simp add: in_read_def)

lemma replay_loop_Nil: "replay_loop (over []) st = st"
  by (cases st) (simp add: replay_loop.simps)

lemma load_le_byte [simp]: "load_le [b] = (b :: u8)"
  by simp

lemma WAL_types_distinct [simp]: "WAL_PUBLISH \<noteq> WAL_ACK" "WAL_ACK \<noteq> WAL_PUBLISH"
  by (simp_all add: WAL_PUBLISH_def WAL_ACK_def)

lemma replay_loop_record:
  assumes "record_ok r"
  shows "replay_loop (over (record_bytes r @ rest)) st = replay_loop (over rest) (apply_record r st)"
proof (cases st)
  case (Pair published acked)
  with assms show ?thesis
    by (cases r) (simp_all add: replay_loop.simps [of "over (_ # _)"] in_read_byte read_publish_bytes
        read_be64_bytes del: load_le.simps)
qed

lemma replay_loop_torn:
  assumes "record_ok r" "n < length (record_bytes r)"
  shows "replay_loop (over (take n (record_bytes r))) st = st"
proof (cases n)
  case 0
  then show ?thesis by (simp add: replay_loop_Nil)
next
  case (Suc k)
  obtain published acked where st: "st = (published, acked)" by (cases st)
  show ?thesis
  proof (cases r)
    case (Published mid t b)
    let ?bs = "be_bytes 8 (unat mid) @ be_bytes 2 (length t) @ bytes_of_string t @ be_bytes 4 (length b) @ b"
    have "failed (snd (read_publish (over (take k ?bs))))"
      using assms Suc read_publish_bytes [of t b mid "[]"]
      by (intro steady_prefix_fails [OF steady_read_publish]) (auto simp: Published)
    then show ?thesis
      by (simp add: st Suc Published replay_loop.simps [of "over (_ # _)"] in_read_byte case_prod_beta
          del: load_le.simps)
  next
    case (Acked mid)
    have "failed (snd (read_be64 (over (take k (be_bytes 8 (unat mid))))))"
      using assms Suc read_be64_bytes [of mid "[]"]
      by (intro steady_prefix_fails [OF steady_read_ints(1)]) (auto simp: Acked)
    then show ?thesis
      by (simp add: st Suc Acked replay_loop.simps [of "over (_ # _)"] in_read_byte case_prod_beta
          del: load_le.simps)
  qed
qed

interpretation wal_log: torn_log record_bytes record_ok "\<lambda>bs. replay_loop (over bs)" apply_record
  by unfold_locales (simp_all add: replay_loop_Nil replay_loop_record replay_loop_torn)



section \<open>What the writer puts into the log\<close>

definition publish_record :: "Message \<Rightarrow> wal_record" where
  "publish_record m = Published (msg_id m) (topic m) (body m)"

lemma append_log:
  assumes "record_ok (publish_record m)"
  shows "append w m = w\<lparr>active_buf := active_buf w @ record_bytes (publish_record m)\<rparr>"
  using assms
  by (simp add: append_def publish_record_def write_be64_def write_be32_def write_be16_def Let_def be_store unat_of_nat)

lemma acknowledge_log: "acknowledge w mid = w\<lparr>active_buf := active_buf w @ record_bytes (Acked mid)\<rparr>"
  by (simp add: acknowledge_def write_be64_def be_store)

text \<open>The log in the order of the calls: on disk, on the way to the disk, in memory.\<close>

definition log_bytes :: "WalWriter \<Rightarrow> bytes" where
  "log_bytes w = wal_file w @ flush_buf w @ active_buf w"

text \<open>
  The runs of a writer that was opened on a log of records, with the records written so
  far: calls of the public methods interleaved with the turns of the flush thread.
\<close>

inductive wal_run :: "WalWriter \<Rightarrow> wal_record list \<Rightarrow> bool" where
  opened: "\<forall>r \<in> set rs. record_ok r \<Longrightarrow>
     open_wal path True (concat (map record_bytes rs)) = Inr w \<Longrightarrow> wal_run w rs"
| appended: "wal_run w rs \<Longrightarrow> record_ok (publish_record m) \<Longrightarrow>
     wal_run (append w m) (rs @ [publish_record m])"
| acknowledged: "wal_run w rs \<Longrightarrow> wal_run (acknowledge w mid) (rs @ [Acked mid])"
| swapped: "wal_run w rs \<Longrightarrow> \<not> flushing w \<Longrightarrow> wal_run (flush_swap w) rs"
| written: "wal_run w rs \<Longrightarrow> flushing w \<Longrightarrow> wal_run (flush_write w) rs"

definition wal_inv :: "WalWriter \<Rightarrow> wal_record list \<Rightarrow> bool" where
  "wal_inv w rs \<longleftrightarrow> (\<forall>r \<in> set rs. record_ok r) \<and> log_bytes w = concat (map record_bytes rs) \<and>
     (\<not> flushing w \<longrightarrow> flush_buf w = [])"

lemma wal_inv_append:
  "wal_inv w rs \<Longrightarrow> record_ok (publish_record m) \<Longrightarrow> wal_inv (append w m) (rs @ [publish_record m])"
  by (auto simp: wal_inv_def log_bytes_def append_log)

lemma wal_inv_acknowledge: "wal_inv w rs \<Longrightarrow> wal_inv (acknowledge w mid) (rs @ [Acked mid])"
  by (auto simp: wal_inv_def log_bytes_def acknowledge_log)

lemma wal_inv_swap: "wal_inv w rs \<Longrightarrow> \<not> flushing w \<Longrightarrow> wal_inv (flush_swap w) rs"
  by (auto simp: wal_inv_def log_bytes_def flush_swap_def)

lemma wal_inv_write: "wal_inv w rs \<Longrightarrow> wal_inv (flush_write w) rs"
  by (auto simp: wal_inv_def log_bytes_def flush_write_def)

lemmas wal_inv_steps = wal_inv_append wal_inv_acknowledge wal_inv_swap wal_inv_write

lemma wal_inv_open:
  "\<forall>r \<in> set rs. record_ok r \<Longrightarrow> open_wal path True (concat (map record_bytes rs)) = Inr w \<Longrightarrow> wal_inv w rs"
  by (auto simp: wal_inv_def log_bytes_def open_wal_def)

lemma wal_run_inv: "wal_run w rs \<Longrightarrow> wal_inv w rs"
  by (induction rule: wal_run.induct) (auto intro: wal_inv_open wal_inv_steps)

lemma close_wal_log: "wal_inv w rs \<Longrightarrow> wal_file (close_wal w) = concat (map record_bytes rs)"
  by (auto simp: wal_inv_def log_bytes_def close_wal_def final_flush_def flush_write_def Let_def)


section \<open>What replay recovers\<close>

fun publications :: "wal_record list \<Rightarrow> (u64 \<times> Message) list" where
  "publications [] = []"
| "publications (Published mid t b # rs) =
     (mid, \<lparr>msg_id = mid, topic = t, body = b, retry_count = 0\<rparr>) # publications rs"
| "publications (Acked mid # rs) = publications rs"

definition last_published :: "wal_record list \<Rightarrow> u64 \<Rightarrow> Message option" where
  "last_published rs mid = map_of (rev (publications rs)) mid"

definition pending :: "wal_record list \<Rightarrow> Message list" where
  "pending rs = (let (published, acked) = fold apply_record rs ([], {})
     in map snd (filter (\<lambda>(mid, m). mid \<notin> acked) published))"

lemma fold_apply_published:
  "map_of (fst (fold apply_record rs (published, acked))) = map_of (rev (publications rs) @ published)"
  by (induction rs arbitrary: published acked rule: publications.induct)
    (simp_all add: update_conv' fun_eq_iff map_add_def split: option.split)

lemma fold_apply_acked:
  "snd (fold apply_record rs (published, acked)) = acked \<union> {mid. Acked mid \<in> set rs}"
  by (induction rs arbitrary: published acked rule: publications.induct) auto

lemma fold_apply_invar: "um_invar published \<Longrightarrow> um_invar (fst (fold apply_record rs (published, acked)))"
  by (induction rs arbitrary: published acked rule: publications.induct) (simp_all add: um.invar_update)

lemma publications_id: "(mid, m) \<in> set (publications rs) \<Longrightarrow> msg_id m = mid"
  by (induction rs rule: publications.induct) auto

lemma last_published_id: "last_published rs mid = Some m \<Longrightarrow> msg_id m = mid"
  unfolding last_published_def by (drule map_of_SomeD) (simp add: publications_id)

lemma pending_iff:
  "m \<in> set (pending rs) \<longleftrightarrow> last_published rs (msg_id m) = Some m \<and> Acked (msg_id m) \<notin> set rs"
proof -
  let ?T = "fold apply_record rs ([], {})"
  have "(mid, m) \<in> set (fst ?T) \<longleftrightarrow> last_published rs mid = Some m" for mid m
    using um.in_items_iff [OF fold_apply_invar [of "[]" rs "{}"], of mid m]
    by (simp add: fold_apply_published last_published_def um_invar_def)
  then show ?thesis
    using fold_apply_acked [of rs "[]" "{}"] last_published_id [of rs]
    by (auto simp: pending_def case_prod_beta image_iff)
qed

lemma distinct_pending: "distinct (map msg_id (pending rs))"
proof -
  let ?T = "fold apply_record rs ([], {})"
  have inv: "um_invar (fst ?T)"
    by (rule fold_apply_invar) (simp add: um_invar_def)
  have "msg_id m = mid" if "(mid, m) \<in> set (fst ?T)" for mid m
    using um.in_items_iff [OF inv, of mid m] that last_published_id [of rs mid m]
    by (simp add: fold_apply_published last_published_def)
  then have "map msg_id (map snd (filter P (fst ?T))) = map fst (filter P (fst ?T))" for P
    by (auto simp: map_eq_conv)
  moreover have "distinct (map fst (filter P (fst ?T)))" for P
    using inv by (simp add: um_invar_def distinct_map_filter)
  ultimately show ?thesis
    by (simp only: pending_def Let_def case_prod_beta)
qed

lemma replay_push_eq:
  "replay_push acked q ps = push_all push q (map snd (filter (\<lambda>(mid, m). mid \<notin> acked) ps))"
  by (induction acked q ps rule: replay_push.induct) (auto simp: outcome_simps intro!: obind_cong)

lemma replay_pending:
  assumes "replay_loop (over bs) ([], {}) = fold apply_record rs ([], {})"
  shows "replay (Some bs) q = push_all push q (pending rs)"
  using assms by (simp add: replay_def replay_push_eq pending_def case_prod_beta)



section \<open>Properties\<close>

lemma wal_inv_prefix:
  assumes "wal_inv w rs"
  shows "wal_file w @ take k (flush_buf w) =
    take (length (wal_file w) + min k (length (flush_buf w))) (concat (map record_bytes rs))"
proof -
  have "concat (map record_bytes rs) = wal_file w @ flush_buf w @ active_buf w"
    using assms by (simp add: wal_inv_def log_bytes_def)
  then show ?thesis by (simp add: min_def)
qed

text \<open>A run used by the witnesses: a publication reaches the disk, an acknowledgement is on its way.\<close>

definition sample_msg :: Message where
  "sample_msg = new_message\<lparr>msg_id := 1, topic := ''order.created'', body := [7]\<rparr>"

lemma sample_msg_ok: "record_ok (publish_record sample_msg)"
  by (simp add: sample_msg_def publish_record_def)

definition sample_wal :: WalWriter where
  "sample_wal = \<lparr>wal_file = [], active_buf = [], flush_buf = [], wal_running = True, flushing = False\<rparr>"

lemma sample_run: "wal_run (append sample_wal sample_msg) ([] @ [publish_record sample_msg])"
  by (rule wal_run.appended [OF wal_run.opened [of "[]" "''wal''"] sample_msg_ok])
    (simp_all add: open_wal_def sample_wal_def)

text \<open>
  C3: crash consistency. Whatever interleaving of appends, acknowledgements and flushes
  preceded a crash, and wherever the write in progress was cut, \<open>replay\<close> of the file
  recovers the state after the first \<open>j\<close> calls, where \<open>j\<close> counts exactly the records
  whose bytes are all in the file.
\<close>

theorem wal_crash_recovery:
  assumes "wal_run w rs" and "file = wal_file w @ take k (flush_buf w)"
  shows "\<exists>j \<le> length rs. replay (Some file) q = push_all push q (pending (take j rs)) \<and>
    length (concat (map record_bytes (take j rs))) \<le> length file \<and>
    (j < length rs \<longrightarrow> length file < length (concat (map record_bytes (take (Suc j) rs))))"
proof -
  define n where "n = length (wal_file w) + min k (length (flush_buf w))"
  have inv: "wal_inv w rs" by (rule wal_run_inv [OF assms(1)])
  then have f: "file = take n (concat (map record_bytes rs))"
    unfolding n_def assms(2) by (rule wal_inv_prefix)
  have l: "length file = n"
    by (simp add: assms(2) n_def min.commute)
  obtain j where "j \<le> length rs"
    "replay_loop (over file) ([], {}) = fold apply_record (take j rs) ([], {})"
    "length (concat (map record_bytes (take j rs))) \<le> n"
    "j < length rs \<longrightarrow> n < length (concat (map record_bytes (take (Suc j) rs)))"
    using wal_log.scan_cut [of rs n "([], {})"] inv unfolding f wal_inv_def by blast
  then show ?thesis
    unfolding l using replay_pending by blast
qed

theorem wal_crash_recovery_witness:
  "\<exists>j \<le> length [publish_record sample_msg].
     replay (Some []) (new_queue 5) = push_all push (new_queue 5) (pending (take j [publish_record sample_msg]))"
  using wal_crash_recovery [OF sample_run refl, of 0 "new_queue 5"] sample_msg_ok
  by (auto simp: append_log sample_wal_def)

text \<open>
  A clean shutdown loses nothing. After the destructor the file holds every record, in
  the order of the calls, and \<open>replay\<close> recovers from all of them.
\<close>

theorem wal_clean_shutdown:
  assumes "wal_run w rs"
  shows "wal_file (close_wal w) = concat (map record_bytes rs) \<and>
    replay (Some (wal_file (close_wal w))) q = push_all push q (pending rs)"
proof -
  have inv: "wal_inv w rs" by (rule wal_run_inv [OF assms])
  then have "replay_loop (over (concat (map record_bytes rs))) ([], {}) = fold apply_record rs ([], {})"
    by (intro wal_log.scan_all) (simp add: wal_inv_def)
  then show ?thesis
    using close_wal_log [OF inv] by (simp add: replay_pending)
qed

theorem wal_clean_shutdown_witness:
  "wal_file (close_wal (append sample_wal sample_msg)) = record_bytes (publish_record sample_msg)"
  using wal_clean_shutdown [OF sample_run, of "new_queue 5"] by simp

text \<open>
  What recovery means. Replaying a log into a queue with enough room appends, in some
  order and each id once, exactly the messages whose id was published and never
  acknowledged, with the topic and body of the last publication under that id and a retry
  count of zero.
\<close>

theorem replay_recovers_unacknowledged:
  assumes "\<forall>r \<in> set rs. record_ok r" and "length (queue q) + length (pending rs) \<le> capacity q"
  shows "\<exists>q' ms. replay (Some (concat (map record_bytes rs))) q = Done q' \<and> queue q' = queue q @ ms \<and>
    distinct (map msg_id ms) \<and>
    (\<forall>m. m \<in> set ms \<longleftrightarrow> last_published rs (msg_id m) = Some m \<and> Acked (msg_id m) \<notin> set rs)"
proof -
  have "replay (Some (concat (map record_bytes rs))) q = push_all push q (pending rs)"
    by (rule replay_pending [OF wal_log.scan_all [OF assms(1)]])
  with sq.push_all_room [OF assms(2)] show ?thesis
    using distinct_pending [of rs] pending_iff [of _ rs] by auto
qed

theorem replay_recovers_unacknowledged_witness:
  "\<exists>q' ms. replay (Some (concat (map record_bytes [Published 1 ''a'' [], Published 2 ''b'' [], Acked 1]))) (new_queue 5) = Done q' \<and>
     queue q' = [] @ ms \<and>
     (\<forall>m. m \<in> set ms \<longleftrightarrow> last_published [Published 1 ''a'' [], Published 2 ''b'' [], Acked 1] (msg_id m) = Some m \<and>
        Acked (msg_id m) \<notin> set [Published 1 ''a'' [], Published 2 ''b'' [], Acked 1])"
proof -
  let ?rs = "[Published 1 ''a'' [], Published 2 ''b'' [], Acked 1]"
  have "\<forall>r \<in> set ?rs. record_ok r" "length (queue (new_queue 5 :: Message SafeQueue)) + length (pending ?rs) \<le> capacity (new_queue 5 :: Message SafeQueue)"
    by (simp_all add: new_queue_def pending_def)
  from replay_recovers_unacknowledged [OF this] show ?thesis
    unfolding new_queue_def by fastforce
qed

text \<open>
  Recovery runs before any consumer of the queue exists. When the log holds more
  unacknowledged messages than the queue has room for, \<open>replay\<close> waits for room that nobody
  can make: the broker does not start.
\<close>

theorem replay_blocks_startup:
  assumes "\<forall>r \<in> set rs. record_ok r" and "cap < length (pending rs)"
  shows "replay (Some (concat (map record_bytes rs))) (new_queue cap) = Blocked"
proof -
  have "replay (Some (concat (map record_bytes rs))) (new_queue cap) = push_all push (new_queue cap) (pending rs)"
    by (rule replay_pending [OF wal_log.scan_all [OF assms(1)]])
  then show ?thesis
    using sq.push_all_full [of "new_queue cap" "pending rs"] assms(2) by (simp add: new_queue_def)
qed

theorem replay_blocks_startup_witness:
  "replay (Some (concat (map record_bytes [Published 1 ''a'' [], Published 2 ''b'' []]))) (new_queue 1) = Blocked"
  by (rule replay_blocks_startup) (simp_all add: pending_def)

text \<open>
  An acknowledgement in the log is never forgotten. A message published after it under the
  same id is not recovered, although it was never acknowledged.
\<close>

lemma reused_id_not_pending:
  assumes "Acked mid \<in> set rs"
  shows "\<forall>m \<in> set (pending rs). msg_id m \<noteq> mid"
  using assms by (auto simp: pending_iff)

lemma publications_append: "publications (rs @ rs') = publications rs @ publications rs'"
  by (induction rs rule: publications.induct) auto

lemma last_published_append:
  "\<forall>r \<in> set ext. \<forall>t b. r \<noteq> Published mid t b \<Longrightarrow>
     last_published (rs @ [Published mid t b] @ ext) mid = Some \<lparr>msg_id = mid, topic = t, body = b, retry_count = 0\<rparr>"
proof -
  assume "\<forall>r \<in> set ext. \<forall>t b. r \<noteq> Published mid t b"
  then have "mid \<notin> fst ` set (publications ext)"
    by (induction ext rule: publications.induct) auto
  then have "map_of (rev (publications ext)) mid = None"
    by (simp add: map_of_eq_None_iff)
  then show ?thesis
    by (simp add: last_published_def publications_append map_add_def)
qed



end
