(* ===== verification/MQ_WalThread.thy ===== *)
theory MQ_WalThread
  imports MQ_Wal "HOL-Library.Sublist"
begin

text \<open>
  The flush thread of \<open>WalWriter\<close> as a thread: where it is in \<open>flush_thread_loop\<close>, while connection
  threads append and acknowledge and the destructor stops it. The functions of \<open>MQ_Wal\<close> are
  the bodies of its steps.
\<close>

section \<open>Definitions\<close>

text \<open>
  At the condition of the loop; inside \<open>wait_for\<close> or about to take \<open>mu_\<close>; writing, without \<open>mu_\<close>;
  behind the loop, before the final flush; over. The destructor has not been called, waits in
  \<open>join\<close>, or has closed the file.
\<close>

datatype flush_pc = F_condition | F_waiting | F_writing | F_final | F_over

datatype destructor_pc = D_alive | D_joining | D_closed

record WalProcess =
  writer :: WalWriter
  flush_at :: flush_pc
  destructor_at :: destructor_pc

text \<open>The wait ends by a notification or after two milliseconds, so it may end at any time.\<close>

inductive flush_step :: "WalProcess \<Rightarrow> WalProcess \<Rightarrow> bool" where
  f_enter: "flush_at p = F_condition \<Longrightarrow> wal_running (writer p) \<Longrightarrow> flush_step p (p\<lparr>flush_at := F_waiting\<rparr>)"
| f_leave: "flush_at p = F_condition \<Longrightarrow> \<not> wal_running (writer p) \<Longrightarrow> flush_step p (p\<lparr>flush_at := F_final\<rparr>)"
| f_nothing: "flush_at p = F_waiting \<Longrightarrow> active_buf (writer p) = [] \<Longrightarrow> flush_step p (p\<lparr>flush_at := F_condition\<rparr>)"
| f_swap: "flush_at p = F_waiting \<Longrightarrow> active_buf (writer p) \<noteq> [] \<Longrightarrow>
    flush_step p (p\<lparr>writer := flush_swap (writer p), flush_at := F_writing\<rparr>)"
| f_write: "flush_at p = F_writing \<Longrightarrow> flush_step p (p\<lparr>writer := flush_write (writer p), flush_at := F_condition\<rparr>)"
| f_final: "flush_at p = F_final \<Longrightarrow> flush_step p (p\<lparr>writer := final_flush (writer p), flush_at := F_over\<rparr>)"

inductive caller_step :: "WalProcess \<Rightarrow> WalProcess \<Rightarrow> bool" where
  c_append: "caller_step p (p\<lparr>writer := append (writer p) m\<rparr>)"
| c_acknowledge: "caller_step p (p\<lparr>writer := acknowledge (writer p) mid\<rparr>)"
| c_stop: "destructor_at p = D_alive \<Longrightarrow>
    caller_step p (p\<lparr>writer := (writer p)\<lparr>wal_running := False\<rparr>, destructor_at := D_joining\<rparr>)"
| c_joined: "destructor_at p = D_joining \<Longrightarrow> flush_at p = F_over \<Longrightarrow> caller_step p (p\<lparr>destructor_at := D_closed\<rparr>)"

definition open_process :: "WalWriter \<Rightarrow> WalProcess" where
  "open_process w = \<lparr>writer = w, flush_at = F_condition, destructor_at = D_alive\<rparr>"

text \<open>Runs, with the number of steps of the flush thread in them.\<close>

inductive wal_steps :: "nat \<Rightarrow> WalProcess \<Rightarrow> WalProcess \<Rightarrow> bool" where
  none: "wal_steps 0 p p"
| flushed: "wal_steps n p q \<Longrightarrow> flush_step q r \<Longrightarrow> wal_steps (Suc n) p r"
| called_by: "wal_steps n p q \<Longrightarrow> caller_step q r \<Longrightarrow> wal_steps n p r"

definition wal_reachable :: "WalProcess \<Rightarrow> bool" where
  "wal_reachable p \<longleftrightarrow> (\<exists>path content w n. open_wal path True content = Inr w \<and> wal_steps n (open_process w) p)"


section \<open>Invariant\<close>

definition flush_inv :: "WalProcess \<Rightarrow> bool" where
  "flush_inv p \<longleftrightarrow> (flushing (writer p) \<longleftrightarrow> flush_at p = F_writing) \<and>
     (flush_at p \<noteq> F_writing \<longrightarrow> flush_buf (writer p) = []) \<and>
     (flush_at p \<in> {F_final, F_over} \<longrightarrow> \<not> wal_running (writer p)) \<and>
     (wal_running (writer p) \<longleftrightarrow> destructor_at p = D_alive)"

lemma append_extends: "\<exists>ext. append w m = w\<lparr>active_buf := active_buf w @ ext\<rparr>"
  by (simp add: append_def write_be64_def write_be32_def write_be16_def Let_def) blast

lemma acknowledge_extends: "\<exists>ext. acknowledge w mid = w\<lparr>active_buf := active_buf w @ ext\<rparr>"
  by (simp add: acknowledge_def write_be64_def) blast

text \<open>What a caller does to the writer: more bytes behind those in the active buffer, or the flag.\<close>

lemma caller_writer:
  assumes "caller_step p q"
  shows "flush_at q = flush_at p \<and> (\<exists>ext r. writer q = (writer p)\<lparr>active_buf := active_buf (writer p) @ ext, wal_running := r\<rparr> \<and>
    (r \<longrightarrow> wal_running (writer p)))"
  using assms
proof cases
  case (c_append m)
  obtain ext where "append (writer p) m = (writer p)\<lparr>active_buf := active_buf (writer p) @ ext\<rparr>" using append_extends by blast
  with c_append show ?thesis by (intro conjI exI [of _ ext] exI [of _ "wal_running (writer p)"]) simp_all
next
  case (c_acknowledge mid)
  obtain ext where "acknowledge (writer p) mid = (writer p)\<lparr>active_buf := active_buf (writer p) @ ext\<rparr>" using acknowledge_extends by blast
  with c_acknowledge show ?thesis by (intro conjI exI [of _ ext] exI [of _ "wal_running (writer p)"]) simp_all
next
  case c_stop
  then show ?thesis by (intro conjI exI [of _ "[]"] exI [of _ False]) simp_all
next
  case c_joined
  then show ?thesis by (intro conjI exI [of _ "[]"] exI [of _ "wal_running (writer p)"]) simp_all
qed

lemma flush_step_inv: "flush_step p q \<Longrightarrow> flush_inv p \<Longrightarrow> flush_inv q"
  by (induction rule: flush_step.induct) (auto simp: flush_inv_def flush_swap_def flush_write_def final_flush_def)

lemma caller_step_inv: "caller_step p q \<Longrightarrow> flush_inv p \<Longrightarrow> flush_inv q"
  by (induction rule: caller_step.induct) (auto simp: flush_inv_def append_def acknowledge_def Let_def)

lemma wal_steps_inv: "wal_steps n p q \<Longrightarrow> flush_inv p \<Longrightarrow> flush_inv q"
  by (induction rule: wal_steps.induct) (auto intro: flush_step_inv caller_step_inv)

lemma wal_reachable_inv: "wal_reachable p \<Longrightarrow> flush_inv p"
proof -
  have "flush_inv (open_process w)" if "open_wal path True content = Inr w" for path content w
    using that by (auto simp: open_wal_def open_process_def flush_inv_def)
  then show "wal_reachable p \<Longrightarrow> flush_inv p" using wal_steps_inv unfolding wal_reachable_def by blast
qed


section \<open>Bytes on their way to the file\<close>

fun turns :: "flush_pc \<Rightarrow> nat" where
  "turns F_writing = 4"
| "turns F_condition = 3"
| "turns F_waiting = 2"
| "turns F_final = 1"
| "turns F_over = 0"

text \<open>The bytes \<open>bs\<close> are the beginning of the file after at most \<open>k\<close> more steps of the flush thread.\<close>

definition due_in :: "bytes \<Rightarrow> nat \<Rightarrow> WalProcess \<Rightarrow> bool" where
  "due_in bs k p \<longleftrightarrow> prefix bs (wal_file (writer p)) \<or>
     flush_at p = F_writing \<and> prefix bs (wal_file (writer p) @ flush_buf (writer p)) \<and> 0 < k \<or>
     flush_at p \<noteq> F_over \<and> prefix bs (log_bytes (writer p)) \<and> turns (flush_at p) \<le> k"

lemma due_in_flush: "flush_step p q \<Longrightarrow> flush_inv p \<Longrightarrow> due_in bs (Suc k) p \<Longrightarrow> due_in bs k q"
  by (induction rule: flush_step.induct)
    (auto simp: due_in_def flush_inv_def log_bytes_def flush_swap_def flush_write_def final_flush_def)

lemma due_in_caller: "caller_step p q \<Longrightarrow> due_in bs k p \<Longrightarrow> due_in bs k q"
  using caller_writer [of p q] by (auto simp: due_in_def log_bytes_def) (metis append.assoc prefix_append)+

lemma due_in_0: "due_in bs 0 p \<Longrightarrow> prefix bs (wal_file (writer p))"
  by (cases "flush_at p") (auto simp: due_in_def)

lemma due_in_mono: "due_in bs k p \<Longrightarrow> k \<le> l \<Longrightarrow> due_in bs l p"
  by (auto simp: due_in_def)

lemma due_in_steps: "wal_steps n p q \<Longrightarrow> flush_inv p \<Longrightarrow> due_in bs (n + k) p \<Longrightarrow> due_in bs k q"
proof (induction arbitrary: k rule: wal_steps.induct)
  case (flushed n p q r)
  then show ?case using due_in_flush [of q r bs k] wal_steps_inv [of n p q] by simp
next
  case (called_by n p q r)
  then show ?case using due_in_caller by blast
qed simp

text \<open>Steps of the flush thread that are left once the flag is down.\<close>

fun flush_steps_left :: "flush_pc \<Rightarrow> nat" where
  "flush_steps_left F_waiting = 4"
| "flush_steps_left F_writing = 3"
| "flush_steps_left F_condition = 2"
| "flush_steps_left F_final = 1"
| "flush_steps_left F_over = 0"

lemma flush_step_left: "flush_step p q \<Longrightarrow> \<not> wal_running (writer p) \<Longrightarrow>
    flush_steps_left (flush_at q) < flush_steps_left (flush_at p) \<and> \<not> wal_running (writer q)"
  by (induction rule: flush_step.induct) (auto simp: flush_swap_def flush_write_def final_flush_def)

lemma flush_steps_bounded:
  "wal_steps n p q \<Longrightarrow> \<not> wal_running (writer p) \<Longrightarrow>
     n + flush_steps_left (flush_at q) \<le> flush_steps_left (flush_at p) \<and> \<not> wal_running (writer q)"
proof (induction rule: wal_steps.induct)
  case (flushed n p q r)
  then show ?case using flush_step_left [of q r] by auto
next
  case (called_by n p q r)
  then show ?case using caller_writer [of q r] by auto
qed simp

lemma flush_step_enabled: "flush_at p \<noteq> F_over \<Longrightarrow> \<exists>q. flush_step p q"
  using flush_step.intros [of p] by (cases "flush_at p") blast+

lemma flush_thread_ends: "\<not> wal_running (writer p) \<Longrightarrow> \<exists>q. flush_step\<^sup>*\<^sup>* p q \<and> flush_at q = F_over"
proof (induction "flush_steps_left (flush_at p)" arbitrary: p rule: less_induct)
  case less
  show ?case
  proof (cases "flush_at p = F_over")
    case False
    then obtain r where "flush_step p r" using flush_step_enabled by blast
    moreover from this less obtain q where "flush_step\<^sup>*\<^sup>* r q" "flush_at q = F_over"
      using flush_step_left [of p r] by blast
    ultimately show ?thesis by (blast intro: converse_rtranclp_into_rtranclp)
  qed blast
qed

lemma over_stays: "wal_steps n p q \<Longrightarrow> flush_at p = F_over \<Longrightarrow> flush_at q = F_over \<and> wal_file (writer q) = wal_file (writer p)"
proof (induction rule: wal_steps.induct)
  case (flushed n p q r)
  then show ?case by (auto elim: flush_step.cases)
next
  case (called_by n p q r)
  then show ?case using caller_writer [of q r] by auto
qed simp

text \<open>The steps of the flush thread alone do what \<open>close_wal\<close> does at once.\<close>

lemma close_flush_step:
  assumes "flush_step p q" "flush_inv p" "\<not> wal_running (writer p)"
  shows "wal_file (if flush_at q = F_over then writer q else close_wal (writer q)) = wal_file (close_wal (writer p))"
  using assms
  by (induction rule: flush_step.induct) (auto simp: close_wal_def flush_inv_def flush_swap_def flush_write_def final_flush_def Let_def)

lemma close_flush_steps:
  assumes "flush_step\<^sup>*\<^sup>* p q" "flush_inv p" "\<not> wal_running (writer p)" "flush_at p \<noteq> F_over"
  shows "flush_inv q \<and> \<not> wal_running (writer q) \<and>
    wal_file (if flush_at q = F_over then writer q else close_wal (writer q)) = wal_file (close_wal (writer p))"
  using assms
proof (induction rule: rtranclp_induct)
  case (step q r)
  then have q: "flush_inv q" "\<not> wal_running (writer q)" "flush_at q \<noteq> F_over" by (auto elim: flush_step.cases)
  with step show ?case using close_flush_step [of q r] flush_step_inv [of q r] flush_step_left [of q r] by auto
qed simp


section \<open>Properties\<close>

text \<open>
  C17: what is logged reaches the file. The flush thread is never stuck before its end, and after
  four of its steps, whatever other threads append in between and whether or not the writer is
  being closed, the file begins with everything that was in the file and in both buffers,
  in the order of the calls.
\<close>

theorem logged_bytes_reach_the_file:
  assumes "wal_reachable p" and "flush_at p \<noteq> F_over"
  shows "(\<exists>q. flush_step p q) \<and>
    (\<forall>n q. wal_steps n p q \<and> 4 \<le> n \<longrightarrow> prefix (wal_file (writer p) @ flush_buf (writer p) @ active_buf (writer p)) (wal_file (writer q)))"
proof (intro conjI allI impI)
  show "\<exists>q. flush_step p q" by (rule flush_step_enabled [OF assms(2)])
next
  fix n q
  assume n: "wal_steps n p q \<and> 4 \<le> n"
  have "due_in (log_bytes (writer p)) 4 p"
    using assms(2) by (cases "flush_at p") (auto simp: due_in_def)
  then have "due_in (log_bytes (writer p)) (n + 0) p" using n by (auto intro: due_in_mono)
  then have "due_in (log_bytes (writer p)) 0 q"
    using due_in_steps n wal_reachable_inv [OF assms(1)] by blast
  then show "prefix (wal_file (writer p) @ flush_buf (writer p) @ active_buf (writer p)) (wal_file (writer q))"
    using due_in_0 by (simp add: log_bytes_def)
qed

definition fresh_wal :: WalProcess where
  "fresh_wal = open_process \<lparr>wal_file = [], active_buf = [], flush_buf = [], wal_running = True, flushing = False\<rparr>"

definition logging_wal :: WalProcess where
  "logging_wal = fresh_wal\<lparr>writer := acknowledge (writer fresh_wal) 7\<rparr>"

lemma logging_wal_reachable: "wal_reachable logging_wal"
proof -
  have "wal_steps 0 fresh_wal logging_wal"
    unfolding logging_wal_def by (rule called_by [OF none c_acknowledge])
  then show ?thesis
    unfolding wal_reachable_def fresh_wal_def
    by (intro exI [of _ "''w''"] exI [of _ "[]"]) (auto simp: open_wal_def)
qed

theorem logged_bytes_reach_the_file_witness:
  "\<exists>q. flush_step logging_wal q"
  using logged_bytes_reach_the_file [OF logging_wal_reachable] by (simp add: logging_wal_def fresh_wal_def open_process_def)

text \<open>
  C18: closing the log. Once the destructor has lowered the flag the flush thread makes at most
  four more steps; left alone it comes to its end, and the file is then what the model of
  the destructor as one operation gives. What other threads append after the end of the
  flush thread is never written.
\<close>

theorem close_writes_all_and_no_more:
  assumes "wal_reachable p" and "\<not> wal_running (writer p)" and "flush_at p \<noteq> F_over"
  shows "(\<forall>n q. wal_steps n p q \<longrightarrow> n \<le> 4) \<and> (\<exists>q. flush_step\<^sup>*\<^sup>* p q \<and> flush_at q = F_over) \<and>
    (\<forall>q. flush_step\<^sup>*\<^sup>* p q \<and> flush_at q = F_over \<longrightarrow> wal_file (writer q) = wal_file (close_wal (writer p)) \<and>
      (\<forall>n r. wal_steps n q r \<longrightarrow> wal_file (writer r) = wal_file (writer q)))"
proof (intro conjI allI impI)
  fix n q
  assume "wal_steps n p q"
  moreover have "flush_steps_left (flush_at p) \<le> 4" by (cases "flush_at p") simp_all
  ultimately show "n \<le> 4" using flush_steps_bounded [of n p q] assms(2) by simp
next
  show "\<exists>q. flush_step\<^sup>*\<^sup>* p q \<and> flush_at q = F_over" by (rule flush_thread_ends [OF assms(2)])
next
  fix q
  assume "flush_step\<^sup>*\<^sup>* p q \<and> flush_at q = F_over"
  then show "wal_file (writer q) = wal_file (close_wal (writer p))"
    using close_flush_steps [of p q] wal_reachable_inv [OF assms(1)] assms(2,3) by auto
next
  fix q n r
  assume "flush_step\<^sup>*\<^sup>* p q \<and> flush_at q = F_over" "wal_steps n q r"
  then show "wal_file (writer r) = wal_file (writer q)" using over_stays by blast
qed

definition closing_wal :: WalProcess where
  "closing_wal = logging_wal\<lparr>writer := (writer logging_wal)\<lparr>wal_running := False\<rparr>, destructor_at := D_joining\<rparr>"

lemma closing_wal_reachable: "wal_reachable closing_wal"
proof -
  have "caller_step logging_wal closing_wal"
    unfolding closing_wal_def by (rule c_stop) (simp add: logging_wal_def fresh_wal_def open_process_def)
  then show ?thesis using logging_wal_reachable called_by unfolding wal_reachable_def by blast
qed

theorem close_writes_all_and_no_more_witness:
  "\<exists>q. flush_step\<^sup>*\<^sup>* closing_wal q \<and> flush_at q = F_over \<and> wal_file (writer q) = wal_file (close_wal (writer closing_wal))"
  using close_writes_all_and_no_more [OF closing_wal_reachable]
  by (auto simp: closing_wal_def logging_wal_def fresh_wal_def open_process_def)

end
