(* ===== verification/MQ_TopicRouter.thy ===== *)
theory MQ_TopicRouter
  imports MQ_Message MQ_Containers
begin

text \<open>
  \<open>TopicRouter\<close>: subscriptions of clients to topic patterns in consumer groups, wildcard
  matching, and the choice of the targets of a message. Each public method holds \<open>mu_\<close>
  for its whole body, so it is one step on the subscription table.
\<close>

section \<open>Definitions\<close>

record GroupState =
  members :: "ClientId list"
  rr_idx :: u64

type_synonym groups = "(string, GroupState) unordered_map"

record TopicRouter =
  subscriptions :: "(string, groups) unordered_map"

definition new_router :: TopicRouter where
  "new_router = \<lparr>subscriptions = []\<rparr>"

text \<open>The group a subscription goes to: an empty name becomes one of the client's own.\<close>

definition effective_group :: "string \<Rightarrow> ClientId \<Rightarrow> string" where
  "effective_group grp client_id = (if grp = [] then ''__unique_'' @ to_string client_id else grp)"

definition subscribe :: "TopicRouter \<Rightarrow> string \<Rightarrow> string \<Rightarrow> ClientId \<Rightarrow> TopicRouter" where
  "subscribe r tpc grp client_id =
     (let g = effective_group grp client_id;
          groups = (case map_of (subscriptions r) tpc of None \<Rightarrow> [] | Some gs \<Rightarrow> gs);
          state = (case map_of groups g of None \<Rightarrow> \<lparr>members = [], rr_idx = 0\<rparr> | Some st \<Rightarrow> st);
          state' = (if client_id \<in> set (members state) then state
                    else state\<lparr>members := members state @ [client_id]\<rparr>)
      in r\<lparr>subscriptions := AList.update tpc (AList.update g state' groups) (subscriptions r)\<rparr>)"

fun unsubscribe_groups :: "ClientId \<Rightarrow> groups \<Rightarrow> groups" where
  "unsubscribe_groups client_id [] = []"
| "unsubscribe_groups client_id ((g, state) # gs) =
     (let state' = state\<lparr>members := filter (\<lambda>m. m \<noteq> client_id) (members state)\<rparr>
      in if members state' = [] then unsubscribe_groups client_id gs
         else (g, state') # unsubscribe_groups client_id gs)"

fun unsubscribe_topics :: "ClientId \<Rightarrow> (string, groups) unordered_map \<Rightarrow> (string, groups) unordered_map" where
  "unsubscribe_topics client_id [] = []"
| "unsubscribe_topics client_id ((t, groups) # ts) =
     (let groups' = unsubscribe_groups client_id groups
      in if groups' = [] then unsubscribe_topics client_id ts
         else (t, groups') # unsubscribe_topics client_id ts)"

definition unsubscribe :: "TopicRouter \<Rightarrow> ClientId \<Rightarrow> TopicRouter" where
  "unsubscribe r client_id = r\<lparr>subscriptions := unsubscribe_topics client_id (subscriptions r)\<rparr>"

text \<open>\<open>std::string::find\<close> of a character; \<open>None\<close> is \<open>npos\<close>.\<close>

fun find_char :: "char \<Rightarrow> string \<Rightarrow> nat option" where
  "find_char c [] = None"
| "find_char c (x # xs) = (if x = c then Some 0 else map_option Suc (find_char c xs))"

definition matches :: "string \<Rightarrow> string \<Rightarrow> bool" where
  "matches pattern tpc =
     (if pattern = tpc then True
      else case find_char CHR ''*'' pattern of
        None \<Rightarrow> False
      | Some star \<Rightarrow>
          (let prefix = take star pattern
           in if prefix \<noteq> [] \<and> take (length prefix) tpc = prefix then True
              else if prefix = [] then True
              else False))"

text \<open>\<open>group_name.rfind("__unique_", 0) == 0\<close>: the name starts with the marker.\<close>

definition is_unique_group :: "string \<Rightarrow> bool" where
  "is_unique_group name \<longleftrightarrow> take (length ''__unique_'') name = ''__unique_''"

definition route_group :: "u64 \<Rightarrow> string \<Rightarrow> GroupState \<Rightarrow> (ClientId \<times> u64) list \<times> GroupState" where
  "route_group mid group_name state =
     (if members state = [] then ([], state)
      else if is_unique_group group_name then (map (\<lambda>cid. (cid, mid)) (members state), state)
      else let idx = unat (rr_idx state) mod length (members state)
           in ([(members state ! idx, mid)], state\<lparr>rr_idx := rr_idx state + 1\<rparr>))"

fun route_groups :: "u64 \<Rightarrow> groups \<Rightarrow> (ClientId \<times> u64) list \<times> groups" where
  "route_groups mid [] = ([], [])"
| "route_groups mid ((g, state) # gs) =
     (let (ts, state') = route_group mid g state;
          (ts', gs') = route_groups mid gs
      in (ts @ ts', (g, state') # gs'))"

fun route_topics :: "Message \<Rightarrow> (string, groups) unordered_map \<Rightarrow>
    (ClientId \<times> u64) list \<times> (string, groups) unordered_map" where
  "route_topics msg [] = ([], [])"
| "route_topics msg ((pattern, groups) # ps) =
     (let (ts, groups') = (if matches pattern (topic msg) then route_groups (msg_id msg) groups
                           else ([], groups));
          (ts', ps') = route_topics msg ps
      in (ts @ ts', (pattern, groups') # ps'))"

definition route :: "TopicRouter \<Rightarrow> Message \<Rightarrow> (ClientId \<times> u64) list \<times> TopicRouter" where
  "route r msg =
     (let (targets, subs) = route_topics msg (subscriptions r)
      in (targets, r\<lparr>subscriptions := subs\<rparr>))"


section \<open>The subscription table as a relation\<close>

definition subscribed :: "TopicRouter \<Rightarrow> string \<Rightarrow> string \<Rightarrow> ClientId \<Rightarrow> bool" where
  "subscribed r pattern grp c \<longleftrightarrow>
     (\<exists>gs st. (pattern, gs) \<in> set (subscriptions r) \<and> (grp, st) \<in> set gs \<and> c \<in> set (members st))"

definition group_inv :: "GroupState \<Rightarrow> bool" where
  "group_inv st \<longleftrightarrow> members st \<noteq> [] \<and> distinct (members st)"

definition groups_inv :: "groups \<Rightarrow> bool" where
  "groups_inv gs \<longleftrightarrow> um_invar gs \<and> gs \<noteq> [] \<and> (\<forall>(g, st) \<in> set gs. group_inv st)"

definition router_inv :: "TopicRouter \<Rightarrow> bool" where
  "router_inv r \<longleftrightarrow> um_invar (subscriptions r) \<and> (\<forall>(p, gs) \<in> set (subscriptions r). groups_inv gs)"

lemma router_inv_new [simp]: "router_inv new_router"
  by (simp add: router_inv_def new_router_def um_invar_def)

lemma subscribed_new [simp]: "\<not> subscribed new_router p g c"
  by (simp add: subscribed_def new_router_def)

text \<open>Looking a pattern and a group up, with the default that \<open>operator[]\<close> would create.\<close>

definition groups_at :: "TopicRouter \<Rightarrow> string \<Rightarrow> groups" where
  "groups_at r pattern = (case map_of (subscriptions r) pattern of None \<Rightarrow> [] | Some gs \<Rightarrow> gs)"

definition state_at :: "groups \<Rightarrow> string \<Rightarrow> GroupState" where
  "state_at gs g = (case map_of gs g of None \<Rightarrow> \<lparr>members = [], rr_idx = 0\<rparr> | Some st \<Rightarrow> st)"

lemma in_groups_iff: "groups_inv gs \<Longrightarrow> (g, st) \<in> set gs \<longleftrightarrow> map_of gs g = Some st"
  by (rule um.in_items_iff) (simp add: groups_inv_def)

lemma in_subscriptions_iff:
  "router_inv r \<Longrightarrow> (p, gs) \<in> set (subscriptions r) \<longleftrightarrow> map_of (subscriptions r) p = Some gs"
  by (rule um.in_items_iff) (simp add: router_inv_def)

lemma router_inv_groups: "router_inv r \<Longrightarrow> map_of (subscriptions r) p = Some gs \<Longrightarrow> groups_inv gs"
  using in_subscriptions_iff [of r p gs] by (auto simp: router_inv_def)

lemma subscribed_iff:
  assumes "router_inv r"
  shows "subscribed r p g c \<longleftrightarrow> c \<in> set (members (state_at (groups_at r p) g))"
proof (cases "map_of (subscriptions r) p")
  case None
  then show ?thesis
    by (simp add: subscribed_def groups_at_def state_at_def in_subscriptions_iff [OF assms])
next
  case (Some gs)
  then show ?thesis
    using router_inv_groups [OF assms Some]
    by (auto simp: subscribed_def groups_at_def state_at_def in_subscriptions_iff [OF assms]
        in_groups_iff split: option.splits)
qed

lemma subscribe_eq:
  "subscribe r t grp c =
     (let g = effective_group grp c; st = state_at (groups_at r t) g;
          st' = (if c \<in> set (members st) then st else st\<lparr>members := members st @ [c]\<rparr>)
      in r\<lparr>subscriptions := AList.update t (AList.update g st' (groups_at r t)) (subscriptions r)\<rparr>)"
  by (simp add: subscribe_def groups_at_def state_at_def Let_def)

lemma groups_at_inv: "router_inv r \<Longrightarrow> groups_at r p \<noteq> [] \<Longrightarrow> groups_inv (groups_at r p)"
  by (auto simp: groups_at_def router_inv_def split: option.splits dest: map_of_SomeD)

lemma state_at_distinct: "router_inv r \<Longrightarrow> distinct (members (state_at (groups_at r p) g))"
  using groups_at_inv [of r p]
  by (cases "groups_at r p = []")
    (auto simp: state_at_def groups_inv_def group_inv_def split: option.splits dest!: map_of_SomeD)

lemma groups_inv_update:
  assumes "groups_inv gs \<or> gs = []" "group_inv st"
  shows "groups_inv (AList.update g st gs)"
proof -
  have u: "um_invar gs"
    using assms(1) by (auto simp: groups_inv_def um_invar_def)
  have "group_inv st'" if "(g', st') \<in> set (AList.update g st gs)" for g' st'
    using that assms um.in_items_iff [OF um.invar_update [OF u]] um.lookup_update [OF u] um.in_items_iff [OF u]
    by (fastforce simp: groups_inv_def split: if_splits)
  then show ?thesis
    using um.invar_update [OF u] by (auto simp: groups_inv_def update_nonempty)
qed

lemma router_inv_subscribe:
  assumes "router_inv r"
  shows "router_inv (subscribe r t grp c)"
proof -
  define g where "g = effective_group grp c"
  define st where "st = state_at (groups_at r t) g"
  define st' where "st' = (if c \<in> set (members st) then st else st\<lparr>members := members st @ [c]\<rparr>)"
  have u: "um_invar (subscriptions r)"
    using assms by (simp add: router_inv_def)
  have "group_inv st'"
    using state_at_distinct [OF assms, of t g] by (auto simp: group_inv_def st'_def st_def)
  then have gi: "groups_inv (AList.update g st' (groups_at r t))"
    using groups_at_inv [OF assms, of t] by (intro groups_inv_update) auto
  have "groups_inv gs" if "(p, gs) \<in> set (AList.update t (AList.update g st' (groups_at r t)) (subscriptions r))" for p gs
    using that gi assms um.in_items_iff [OF um.invar_update [OF u]] um.lookup_update [OF u] um.in_items_iff [OF u]
    by (fastforce simp: router_inv_def split: if_splits)
  then show ?thesis
    using um.invar_update [OF u]
    by (simp add: router_inv_def subscribe_eq Let_def case_prod_beta flip: g_def st_def)
      (metis prod.collapse st'_def)
qed

lemma subscribed_subscribe:
  assumes "router_inv r"
  shows "subscribed (subscribe r t grp c) p g d \<longleftrightarrow>
    subscribed r p g d \<or> p = t \<and> g = effective_group grp c \<and> d = c"
proof -
  have "groups_at (subscribe r t grp c) p =
     (if p = t then AList.update (effective_group grp c)
        (let st = state_at (groups_at r t) (effective_group grp c)
         in if c \<in> set (members st) then st else st\<lparr>members := members st @ [c]\<rparr>) (groups_at r t)
      else groups_at r p)"
    by (simp add: subscribe_eq groups_at_def update_conv' Let_def)
  then show ?thesis
    by (auto simp: subscribed_iff [OF assms] subscribed_iff [OF router_inv_subscribe [OF assms]]
        state_at_def update_conv' Let_def)
qed


section \<open>Unsubscribing\<close>

lemma unsubscribe_groups_eq:
  "unsubscribe_groups c gs =
     filter (\<lambda>(g, st). members st \<noteq> [])
       (map (\<lambda>(g, st). (g, st\<lparr>members := filter (\<lambda>m. m \<noteq> c) (members st)\<rparr>)) gs)"
  by (induction c gs rule: unsubscribe_groups.induct) (auto simp: Let_def)

lemma unsubscribe_topics_eq:
  "unsubscribe_topics c ts =
     filter (\<lambda>(t, gs). gs \<noteq> []) (map (\<lambda>(t, gs). (t, unsubscribe_groups c gs)) ts)"
  by (induction c ts rule: unsubscribe_topics.induct) (auto simp: Let_def)

lemma distinct_keys_filter_map:
  "distinct (map fst xs) \<Longrightarrow> distinct (map fst (filter P (map (\<lambda>(k, v). (k, f k v)) xs)))"
  by (induction xs) (auto simp: rev_image_eqI)

lemma groups_inv_unsubscribe:
  "groups_inv gs \<Longrightarrow> unsubscribe_groups c gs \<noteq> [] \<Longrightarrow> groups_inv (unsubscribe_groups c gs)"
  unfolding groups_inv_def um_invar_def unsubscribe_groups_eq group_inv_def
  by (auto intro!: distinct_keys_filter_map)

lemma router_inv_unsubscribe: "router_inv r \<Longrightarrow> router_inv (unsubscribe r c)"
  unfolding router_inv_def um_invar_def unsubscribe_def unsubscribe_topics_eq
  by (auto intro!: distinct_keys_filter_map groups_inv_unsubscribe)

lemma in_unsubscribe_groups:
  "(\<exists>st. (g, st) \<in> set (unsubscribe_groups c gs) \<and> d \<in> set (members st)) \<longleftrightarrow>
   (\<exists>st. (g, st) \<in> set gs \<and> d \<in> set (members st)) \<and> d \<noteq> c"
  by (force simp: unsubscribe_groups_eq filter_empty_conv image_iff)

lemma subscribed_unsubscribe:
  "subscribed (unsubscribe r c) p g d \<longleftrightarrow> subscribed r p g d \<and> d \<noteq> c"
proof -
  have "subscribed (unsubscribe r c) p g d \<longleftrightarrow>
     (\<exists>gs. (p, gs) \<in> set (subscriptions r) \<and>
        (\<exists>st. (g, st) \<in> set (unsubscribe_groups c gs) \<and> d \<in> set (members st)))"
    by (force simp: subscribed_def unsubscribe_def unsubscribe_topics_eq)
  then show ?thesis
    unfolding in_unsubscribe_groups by (auto simp: subscribed_def)
qed


section \<open>Pattern matching\<close>

lemma find_char_None: "find_char c s = None \<longleftrightarrow> c \<notin> set s"
  by (induction c s rule: find_char.induct) auto

lemma find_char_Some:
  "find_char c s = Some n \<Longrightarrow> n < length s \<and> s ! n = c \<and> c \<notin> set (take n s)"
  by (induction c s arbitrary: n rule: find_char.induct) (auto split: if_splits)

lemma find_char_append: "c \<notin> set pre \<Longrightarrow> find_char c (pre @ c # suf) = Some (length pre)"
  by (induction pre) auto

lemma matches_iff:
  "matches p t \<longleftrightarrow> p = t \<or> (\<exists>pre suf rest. p = pre @ CHR ''*'' # suf \<and> CHR ''*'' \<notin> set pre \<and> t = pre @ rest)"
  (is "_ \<longleftrightarrow> _ \<or> ?wild")
proof (cases "find_char CHR ''*'' p")
  case None
  then have "CHR ''*'' \<notin> set p" by (simp add: find_char_None)
  with None show ?thesis
    by (auto simp: matches_def)
next
  case (Some n)
  from find_char_Some [OF this] have n: "n < length p" "p ! n = CHR ''*''" "CHR ''*'' \<notin> set (take n p)"
    by auto
  then have p: "p = take n p @ CHR ''*'' # drop (Suc n) p"
    by (metis id_take_nth_drop)
  have "take (length (take n p)) t = take n p \<longleftrightarrow> ?wild"
  proof
    assume "take (length (take n p)) t = take n p"
    then have "t = take n p @ drop (length (take n p)) t"
      by (metis append_take_drop_id)
    with p n show ?wild by blast
  next
    assume ?wild
    then obtain pre suf rest where w: "p = pre @ CHR ''*'' # suf" "CHR ''*'' \<notin> set pre" "t = pre @ rest"
      by blast
    with Some have "n = length pre"
      by (simp add: find_char_append)
    with w show "take (length (take n p)) t = take n p" by simp
  qed
  with Some n show ?thesis
    by (auto simp: matches_def Let_def)
qed


section \<open>Routing\<close>

text \<open>The targets of a message, group by group, without the update of the counters.\<close>

definition group_targets :: "u64 \<Rightarrow> string \<Rightarrow> GroupState \<Rightarrow> (ClientId \<times> u64) list" where
  "group_targets mid g st = fst (route_group mid g st)"

lemma fst_route_groups: "fst (route_groups mid gs) = concat (map (\<lambda>(g, st). group_targets mid g st) gs)"
  by (induction mid gs rule: route_groups.induct) (auto simp: group_targets_def split: prod.splits)

lemma snd_route_groups: "snd (route_groups mid gs) = map (\<lambda>(g, st). (g, snd (route_group mid g st))) gs"
  by (induction mid gs rule: route_groups.induct) (auto split: prod.splits)

lemma fst_route_topics:
  "fst (route_topics m ps) =
     concat (map (\<lambda>(p, gs). if matches p (topic m) then fst (route_groups (msg_id m) gs) else []) ps)"
  by (induction ps) (auto split: prod.splits)

lemma snd_route_topics:
  "snd (route_topics m ps) =
     map (\<lambda>(p, gs). (p, if matches p (topic m) then snd (route_groups (msg_id m) gs) else gs)) ps"
  by (induction ps) (auto split: prod.splits)

lemma route_simps:
  "fst (route r m) = fst (route_topics m (subscriptions r))"
  "subscriptions (snd (route r m)) = snd (route_topics m (subscriptions r))"
  by (simp_all add: route_def split: prod.split)

lemma route_group_members [simp]: "members (snd (route_group mid g st)) = members st"
  by (simp add: route_group_def Let_def)

lemma map_fst_route_groups [simp]: "map fst (snd (route_groups mid gs)) = map fst gs"
  by (simp add: snd_route_groups comp_def case_prod_beta)

lemma map_fst_route_topics [simp]: "map fst (snd (route_topics m ps)) = map fst ps"
  by (simp add: snd_route_topics comp_def case_prod_beta)

lemma groups_inv_route: "groups_inv gs \<Longrightarrow> groups_inv (snd (route_groups mid gs))"
  unfolding groups_inv_def um_invar_def map_fst_route_groups
  by (auto simp: snd_route_groups group_inv_def)

lemma router_inv_route:
  assumes "router_inv r"
  shows "router_inv (snd (route r m))"
proof -
  have "groups_inv gs" if gs: "(p, gs) \<in> set (snd (route_topics m (subscriptions r)))" for p gs
  proof -
    obtain gs0 where "(p, gs0) \<in> set (subscriptions r)"
      and "gs = (if matches p (topic m) then snd (route_groups (msg_id m) gs0) else gs0)"
      using gs by (auto simp: snd_route_topics)
    with assms show ?thesis
      by (auto simp: router_inv_def intro: groups_inv_route)
  qed
  with assms show ?thesis
    by (auto simp: router_inv_def um_invar_def route_simps)
qed

lemma in_route_groups:
  "(\<exists>st. (g, st) \<in> set (snd (route_groups mid gs)) \<and> c \<in> set (members st)) \<longleftrightarrow>
   (\<exists>st. (g, st) \<in> set gs \<and> c \<in> set (members st))"
  by (force simp: snd_route_groups)

lemma in_route_topics:
  "(p, gs') \<in> set (snd (route_topics m ps)) \<longleftrightarrow>
   (\<exists>gs. (p, gs) \<in> set ps \<and> gs' = (if matches p (topic m) then snd (route_groups (msg_id m) gs) else gs))"
  by (induction ps) (auto split: prod.splits)

lemma subscribed_route: "subscribed (snd (route r m)) p g c \<longleftrightarrow> subscribed r p g c"
proof (cases "matches p (topic m)")
  case True
  then have "subscribed (snd (route r m)) p g c \<longleftrightarrow>
    (\<exists>gs. (p, gs) \<in> set (subscriptions r) \<and>
       (\<exists>st. (g, st) \<in> set (snd (route_groups (msg_id m) gs)) \<and> c \<in> set (members st)))"
    unfolding subscribed_def route_simps in_route_topics by auto
  then show ?thesis
    unfolding in_route_groups by (simp add: subscribed_def)
next
  case False
  then show ?thesis
    by (simp add: subscribed_def route_simps in_route_topics)
qed

lemma route_targets_iff:
  "x \<in> set (fst (route r m)) \<longleftrightarrow>
     (\<exists>p gs g st. (p, gs) \<in> set (subscriptions r) \<and> matches p (topic m) \<and> (g, st) \<in> set gs \<and>
        x \<in> set (group_targets (msg_id m) g st))"
  by (force simp: route_simps fst_route_topics fst_route_groups split: if_splits)

lemma group_targets_members: "(c, i) \<in> set (group_targets mid g st) \<Longrightarrow> i = mid \<and> c \<in> set (members st)"
  by (auto simp: group_targets_def route_group_def Let_def split: if_splits)

lemma group_targets_unique:
  "is_unique_group g \<Longrightarrow> group_targets mid g st = map (\<lambda>c. (c, mid)) (members st)"
  by (simp add: group_targets_def route_group_def)

lemma group_targets_competing:
  "\<not> is_unique_group g \<Longrightarrow> members st \<noteq> [] \<Longrightarrow>
     group_targets mid g st = [(members st ! (unat (rr_idx st) mod length (members st)), mid)]"
  by (simp add: group_targets_def route_group_def)

lemma length_group_targets:
  "group_inv st \<Longrightarrow> length (group_targets mid g st) = (if is_unique_group g then length (members st) else 1)"
  by (simp add: group_inv_def group_targets_unique group_targets_competing)

text \<open>
  Up to permutation the result does not depend on the iteration order of the two
  unordered maps.
\<close>

lemma mset_concat_map: "mset (concat (map f xs)) = (\<Sum>x \<in># mset xs. mset (f x))"
  by (induction xs) auto

lemma route_mset:
  "mset (fst (route r m)) =
     (\<Sum>(p, gs) \<in># mset (subscriptions r). if matches p (topic m)
        then (\<Sum>(g, st) \<in># mset gs. mset (group_targets (msg_id m) g st)) else {#})"
  by (simp add: route_simps fst_route_topics fst_route_groups mset_concat_map case_prod_unfold
      if_distrib [of mset] cong: if_cong)

lemma route_sound:
  "(c, i) \<in> set (fst (route r m)) \<Longrightarrow> i = msg_id m \<and> (\<exists>p g. matches p (topic m) \<and> subscribed r p g c)"
  unfolding route_targets_iff subscribed_def using group_targets_members by blast

lemma route_complete:
  assumes "subscribed r p g c" "matches p (topic m)"
  shows "if is_unique_group g then (c, msg_id m) \<in> set (fst (route r m))
    else \<exists>c'. subscribed r p g c' \<and> (c', msg_id m) \<in> set (fst (route r m))"
proof -
  from assms(1) obtain gs st where st: "(p, gs) \<in> set (subscriptions r)" "(g, st) \<in> set gs" "c \<in> set (members st)"
    by (auto simp: subscribed_def)
  then have sub: "x \<in> set (group_targets (msg_id m) g st) \<Longrightarrow> x \<in> set (fst (route r m))" for x
    using assms(2) unfolding route_targets_iff by blast
  show ?thesis
  proof (cases "is_unique_group g")
    case True
    with st sub show ?thesis by (simp add: group_targets_unique)
  next
    case False
    let ?c = "members st ! (unat (rr_idx st) mod length (members st))"
    have ne: "members st \<noteq> []" using st(3) by auto
    then have "?c \<in> set (members st)" by simp
    moreover have "(?c, msg_id m) \<in> set (fst (route r m))"
      using False ne by (intro sub) (simp add: group_targets_competing)
    ultimately show ?thesis
      using False st unfolding subscribed_def by auto
  qed
qed

lemma route_count:
  assumes "router_inv r"
  shows "length (fst (route r m)) =
    (\<Sum>(p, gs) \<leftarrow> subscriptions r. if matches p (topic m)
       then (\<Sum>(g, st) \<leftarrow> gs. if is_unique_group g then length (members st) else 1) else 0)"
proof -
  have gs: "length (fst (route_groups (msg_id m) gs)) =
      (\<Sum>(g, st) \<leftarrow> gs. if is_unique_group g then length (members st) else 1)"
    if "(p, gs) \<in> set (subscriptions r)" for p gs
  proof -
    have "group_inv st" if "(g, st) \<in> set gs" for g st
      using that \<open>(p, gs) \<in> set (subscriptions r)\<close> assms by (auto simp: router_inv_def groups_inv_def)
    then show ?thesis
      unfolding fst_route_groups length_concat map_map comp_def
      by (intro arg_cong [of _ _ sum_list] map_cong) (auto simp: length_group_targets)
  qed
  show ?thesis
    unfolding route_simps fst_route_topics length_concat map_map comp_def
    by (intro arg_cong [of _ _ sum_list] map_cong) (auto simp: gs)
qed


section \<open>Round robin\<close>

definition route_n :: "nat \<Rightarrow> TopicRouter \<Rightarrow> Message \<Rightarrow> TopicRouter" where
  "route_n n r m = ((\<lambda>r. snd (route r m)) ^^ n) r"

lemma route_n_simps [simp]: "route_n 0 r m = r" "route_n (Suc n) r m = snd (route (route_n n r m) m)"
  by (simp_all add: route_n_def)

lemma map_of_map_key: "map_of (map (\<lambda>(k, v). (k, f k v)) xs) k = map_option (f k) (map_of xs k)"
  by (induction xs) auto

lemma groups_at_route:
  "groups_at (snd (route r m)) p =
     (if matches p (topic m) then snd (route_groups (msg_id m) (groups_at r p)) else groups_at r p)"
  unfolding groups_at_def route_simps snd_route_topics map_of_map_key by (simp split: option.split)

lemma state_at_route:
  "members (state_at gs g) \<noteq> [] \<Longrightarrow>
     state_at (snd (route_groups mid gs)) g = snd (route_group mid g (state_at gs g))"
  unfolding state_at_def snd_route_groups map_of_map_key by (simp split: option.splits)

text \<open>While only \<open>route\<close> runs, a competing group keeps its members and counts its deliveries.\<close>

lemma state_at_route_n:
  assumes "members st \<noteq> []" "\<not> is_unique_group g" "matches p (topic m)"
    and st: "st = state_at (groups_at r p) g"
  shows "state_at (groups_at (route_n n r m) p) g = st\<lparr>rr_idx := rr_idx st + of_nat n\<rparr>"
proof (induction n)
  case 0
  then show ?case by (simp add: st)
next
  case (Suc n)
  with assms(1-3) show ?case
    by (simp add: groups_at_route state_at_route route_group_def Let_def algebra_simps)
qed

lemma round_robin_picks:
  assumes "members st \<noteq> []" "\<not> is_unique_group g" "matches p (topic m)"
    and st: "st = state_at (groups_at r p) g"
    and "unat (rr_idx st) + n < 2 ^ 64"
  shows "group_targets (msg_id m) g (state_at (groups_at (route_n n r m) p) g) =
    [(rotate (unat (rr_idx st)) (members st) ! (n mod length (members st)), msg_id m)]"
proof -
  have "unat (rr_idx st + of_nat n) = unat (rr_idx st) + n"
    using assms(5) by (simp add: unat_word_ariths unat_of_nat)
  then show ?thesis
    using assms(1,2) by (simp add: state_at_route_n [OF assms(1-4)] group_targets_competing nth_rotate mod_simps)
qed

lemma mset_rotate: "mset (rotate n xs) = mset xs"
  unfolding rotate_drop_take by (metis append_take_drop_id mset_append union_commute)

lemma is_unique_effective: "is_unique_group (effective_group [] c)"
  by (simp add: is_unique_group_def effective_group_def)


section \<open>Properties\<close>

text \<open>The states a router can be in: any sequence of the three public methods.\<close>

inductive router_reachable :: "TopicRouter \<Rightarrow> bool" where
  init: "router_reachable new_router"
| sub: "router_reachable r \<Longrightarrow> router_reachable (subscribe r t g c)"
| unsub: "router_reachable r \<Longrightarrow> router_reachable (unsubscribe r c)"
| routed: "router_reachable r \<Longrightarrow> router_reachable (snd (route r m))"

lemma router_reachable_inv: "router_reachable r \<Longrightarrow> router_inv r"
  by (induction rule: router_reachable.induct)
    (auto intro: router_inv_subscribe router_inv_unsubscribe router_inv_route)

text \<open>The scenario of the repository's own test: two competing consumers, one independent
  group, one wildcard subscriber.\<close>

definition test_router :: TopicRouter where
  "test_router =
     subscribe (subscribe (subscribe (subscribe new_router
       ''order.created'' ''groupA'' 1) ''order.created'' ''groupA'' 2)
       ''order.created'' ''groupB'' 3) ''order.*'' [] 4"

lemma test_router_reachable: "router_reachable test_router"
  unfolding test_router_def by (intro router_reachable.intros)

lemma test_router_subscribed: "subscribed test_router p g d \<longleftrightarrow>
   p = ''order.created'' \<and> (g = ''groupA'' \<and> d \<in> {1, 2} \<or> g = ''groupB'' \<and> d = 3) \<or>
   p = ''order.*'' \<and> g = effective_group [] 4 \<and> d = 4"
  by (auto simp: test_router_def subscribed_subscribe router_inv_subscribe effective_group_def)

text \<open>
  In every state the router can reach, pattern and group names are distinct, and no
  group is empty or lists a client twice; so \<open>route\<close> never divides by zero and never
  skips a group for being empty.
\<close>

theorem router_well_formed:
  assumes "router_reachable r" and "(p, gs) \<in> set (subscriptions r)"
  shows "distinct (map fst (subscriptions r)) \<and> distinct (map fst gs) \<and> gs \<noteq> [] \<and>
    (\<forall>(g, st) \<in> set gs. members st \<noteq> [] \<and> distinct (members st))"
  using router_reachable_inv [OF assms(1)] assms(2)
  by (auto simp: router_inv_def groups_inv_def group_inv_def um_invar_def)

theorem router_well_formed_witness:
  "\<exists>gs. (''order.created'', gs) \<in> set (subscriptions test_router) \<and> gs \<noteq> [] \<and>
     (\<forall>(g, st) \<in> set gs. members st \<noteq> [])"
proof -
  have "subscribed test_router ''order.created'' ''groupB'' 3"
    by (simp add: test_router_subscribed)
  then obtain gs where gs: "(''order.created'', gs) \<in> set (subscriptions test_router)"
    unfolding subscribed_def by blast
  from router_well_formed [OF test_router_reachable gs] gs show ?thesis
    by (auto simp: case_prod_beta)
qed

text \<open>
  C24: the operations refine an abstract subscription relation. \<open>subscribe\<close> adds exactly
  the requested membership (a private group when no group is named, a different one for
  each client), \<open>unsubscribe\<close> removes the client from every group and nothing else,
  \<open>route\<close> changes no membership.
\<close>

theorem subscription_refinement:
  assumes "router_reachable r"
  shows "(subscribed (subscribe r t grp c) p g d \<longleftrightarrow>
      subscribed r p g d \<or> p = t \<and> g = effective_group grp c \<and> d = c) \<and>
    (effective_group [] c = effective_group [] d \<longleftrightarrow> c = d) \<and>
    (subscribed (unsubscribe r c) p g d \<longleftrightarrow> subscribed r p g d \<and> d \<noteq> c) \<and>
    (subscribed (snd (route r m)) p g d \<longleftrightarrow> subscribed r p g d)"
  using subscribed_subscribe [OF router_reachable_inv [OF assms]]
  by (simp add: subscribed_unsubscribe subscribed_route effective_group_def to_string_inj)

theorem subscription_refinement_witness:
  "subscribed (subscribe test_router ''order.created'' [] 7) ''order.created'' (effective_group [] 7) 7 \<and>
   \<not> subscribed (unsubscribe test_router 3) ''order.created'' ''groupB'' 3"
  using subscription_refinement [OF test_router_reachable, of "''order.created''" "[]" 7 "''order.created''"
      "effective_group [] 7" 7 new_message]
    subscription_refinement [OF test_router_reachable, of "[]" "[]" 3 "''order.created''" "''groupB''" 3 new_message]
  by simp

text \<open>
  C23: who receives a message. Every target carries the message's id and is a member of a
  group subscribed to a matching pattern; for every such group, each member of a private
  group and exactly one member of a competing group is a target, so the number of targets
  is the sum over the matching groups. The order in which the table of patterns is
  iterated does not change who is a target and how often.
\<close>

theorem route_delivery:
  assumes "router_reachable r"
  shows "(\<forall>c i. (c, i) \<in> set (fst (route r m)) \<longrightarrow>
        i = msg_id m \<and> (\<exists>p g. matches p (topic m) \<and> subscribed r p g c)) \<and>
    (\<forall>p g c. subscribed r p g c \<and> matches p (topic m) \<longrightarrow>
        (if is_unique_group g then (c, msg_id m) \<in> set (fst (route r m))
         else \<exists>c'. subscribed r p g c' \<and> (c', msg_id m) \<in> set (fst (route r m)))) \<and>
    length (fst (route r m)) =
      (\<Sum>(p, gs) \<leftarrow> subscriptions r. if matches p (topic m)
         then (\<Sum>(g, st) \<leftarrow> gs. if is_unique_group g then length (members st) else 1) else 0) \<and>
    (\<forall>r'. mset (subscriptions r') = mset (subscriptions r) \<longrightarrow> mset (fst (route r' m)) = mset (fst (route r m)))"
  using route_sound [of _ _ r m] route_complete [of r _ _ _ m] route_count [OF router_reachable_inv [OF assms], of m]
    route_mset [of r m] route_mset [of _ m]
  by auto

theorem route_delivery_witness:
  "\<exists>c'. subscribed test_router ''order.created'' ''groupA'' c' \<and>
     (c', 101) \<in> set (fst (route test_router (new_message\<lparr>msg_id := 101, topic := ''order.created''\<rparr>)))"
proof -
  let ?m = "new_message\<lparr>msg_id := 101, topic := ''order.created''\<rparr>"
  have "subscribed test_router ''order.created'' ''groupA'' 1 \<and> matches ''order.created'' (topic ?m)"
    by (simp add: test_router_subscribed matches_def)
  moreover have "\<not> is_unique_group ''groupA''"
    by (simp add: is_unique_group_def)
  ultimately show ?thesis
    using route_delivery [OF test_router_reachable, of ?m] by fastforce
qed

text \<open>
  After \<open>unsubscribe\<close> a client is the target of no message, and every other client
  still gets what its private subscriptions match.
\<close>

theorem unsubscribed_client_is_silent:
  "(c, i) \<notin> set (fst (route (unsubscribe r c) m)) \<and>
   (\<forall>d p g. d \<noteq> c \<and> is_unique_group g \<and> matches p (topic m) \<and> subscribed r p g d \<longrightarrow>
      (d, msg_id m) \<in> set (fst (route (unsubscribe r c) m)))"
  using route_sound [of c i "unsubscribe r c" m] route_complete [of "unsubscribe r c" _ _ _ m]
  by (auto simp: subscribed_unsubscribe)

theorem unsubscribed_client_is_silent_witness:
  "(4, 101) \<in> set (fst (route (unsubscribe test_router 3)
     (new_message\<lparr>msg_id := 101, topic := ''order.created''\<rparr>)))"
proof -
  let ?m = "new_message\<lparr>msg_id := 101, topic := ''order.created''\<rparr>"
  have "matches ''order.*'' (topic ?m)"
    by (simp add: matches_def)
  then show ?thesis
    using unsubscribed_client_is_silent [of 3 101 test_router ?m] is_unique_effective [of 4]
    by (auto simp: test_router_subscribed)
qed



text \<open>
  A pattern matches a topic exactly when they are equal, or the pattern has a star and
  the topic starts with everything before the first star. What follows the star plays no
  role, so a pattern that begins with a star matches every topic.
\<close>

theorem matches_spec:
  "matches p t \<longleftrightarrow> p = t \<or>
     (\<exists>pre suf rest. p = pre @ CHR ''*'' # suf \<and> CHR ''*'' \<notin> set pre \<and> t = pre @ rest)"
  by (rule matches_iff)

end
