(* ===== verification/MQ_AckEngine.thy ===== *)
theory MQ_AckEngine
  imports MQ_Message MQ_SafeQueue MQ_Containers
begin

text \<open>
  \<open>AckEngine\<close>: deliveries waiting for an acknowledgement, their deadlines, and what happens
  to a delivery that fails: it goes back to the main queue with its retry count
  incremented, or to the dead-letter queue. The two queues are shared with the rest of
  the broker and passed explicitly. A method holds \<open>mu_\<close> for its whole body; when a push
  into a full queue makes it wait, its outcome is \<open>Blocked\<close>.
\<close>

section \<open>Definitions\<close>

record InFlight =
  fl_msg :: Message
  subscriber_id :: ClientId
  deadline :: time_point
  fl_retry :: int

type_synonym delivery = "u64 \<times> ClientId"

record AckEngine =
  ack_timeout :: int
  max_retries :: int
  in_flight :: "(delivery, InFlight) std_map"
  deadlines :: "(time_point \<times> delivery) list"
  ack_running :: bool

record Queues =
  main_queue :: "Message SafeQueue"
  dlq :: "Message SafeQueue"

definition new_ack_engine :: "int \<Rightarrow> int \<Rightarrow> AckEngine" where
  "new_ack_engine timeout retries =
     \<lparr>ack_timeout = timeout, max_retries = retries, in_flight = [], deadlines = [], ack_running = True\<rparr>"

definition stop_ack_engine :: "AckEngine \<Rightarrow> AckEngine" where
  "stop_ack_engine ae = ae\<lparr>ack_running := False\<rparr>"

text \<open>\<open>now\<close> is what \<open>steady_clock::now()\<close> returns in the call.\<close>

definition track :: "AckEngine \<Rightarrow> time_point \<Rightarrow> Message \<Rightarrow> ClientId \<Rightarrow> AckEngine" where
  "track ae now msg sid =
     (let dl = now + ack_timeout ae
      in ae\<lparr>in_flight := om_update (msg_id msg, sid)
                \<lparr>fl_msg = msg, subscriber_id = sid, deadline = dl, fl_retry = retry_count msg\<rparr> (in_flight ae),
            deadlines := pq_push (dl, (msg_id msg, sid)) (deadlines ae)\<rparr>)"

definition ack :: "AckEngine \<Rightarrow> u64 \<Rightarrow> ClientId \<Rightarrow> AckEngine" where
  "ack ae mid cid =
     (case map_of (in_flight ae) (mid, cid) of
        None \<Rightarrow> ae
      | Some _ \<Rightarrow> ae\<lparr>in_flight := om_delete (mid, cid) (in_flight ae)\<rparr>)"

definition requeue_or_dlq :: "AckEngine \<Rightarrow> time_point \<Rightarrow> InFlight \<Rightarrow> Queues \<Rightarrow> (InFlight \<times> Queues) outcome" where
  "requeue_or_dlq ae now entry qs =
     (if fl_retry entry \<ge> max_retries ae then
        let dlq_msg = new_message\<lparr>msg_id := msg_id (fl_msg entry),
                        topic := ''$DLQ.'' @ topic (fl_msg entry), body := body (fl_msg entry)\<rparr>
        in obind (push (dlq qs) dlq_msg) (\<lambda>q. Done (entry, qs\<lparr>dlq := q\<rparr>))
      else
        let entry' = entry\<lparr>fl_retry := fl_retry entry + 1, deadline := now + ack_timeout ae\<rparr>;
            requeue_msg = (fl_msg entry')\<lparr>retry_count := fl_retry entry'\<rparr>
        in obind (push (main_queue qs) requeue_msg) (\<lambda>q. Done (entry', qs\<lparr>main_queue := q\<rparr>)))"

definition nack :: "AckEngine \<Rightarrow> time_point \<Rightarrow> u64 \<Rightarrow> ClientId \<Rightarrow> Queues \<Rightarrow> (AckEngine \<times> Queues) outcome" where
  "nack ae now mid cid qs =
     (case map_of (in_flight ae) (mid, cid) of
        None \<Rightarrow> Done (ae, qs)
      | Some entry \<Rightarrow>
          obind (requeue_or_dlq ae now entry qs) (\<lambda>(_, qs').
          Done (ae\<lparr>in_flight := om_delete (mid, cid) (in_flight ae)\<rparr>, qs')))"

text \<open>The iteration of \<open>client_disconnected\<close> over the ordered map, erasing as it goes.\<close>

fun disconnect_loop :: "AckEngine \<Rightarrow> time_point \<Rightarrow> ClientId \<Rightarrow> (delivery, InFlight) std_map \<Rightarrow> Queues \<Rightarrow>
    ((delivery, InFlight) std_map \<times> Queues) outcome" where
  "disconnect_loop ae now cid [] qs = Done ([], qs)"
| "disconnect_loop ae now cid ((k, entry) # m) qs =
     (if subscriber_id entry = cid then
        obind (requeue_or_dlq ae now entry qs) (\<lambda>(_, qs'). disconnect_loop ae now cid m qs')
      else
        obind (disconnect_loop ae now cid m qs) (\<lambda>(m', qs'). Done ((k, entry) # m', qs')))"

definition client_disconnected :: "AckEngine \<Rightarrow> time_point \<Rightarrow> ClientId \<Rightarrow> Queues \<Rightarrow> (AckEngine \<times> Queues) outcome" where
  "client_disconnected ae now cid qs =
     obind (disconnect_loop ae now cid (in_flight ae) qs) (\<lambda>(m, qs'). Done (ae\<lparr>in_flight := m\<rparr>, qs'))"

text \<open>One turn of \<open>redelivery_loop\<close>: the inner loop over the expired deadlines.\<close>

function redelivery_pass :: "time_point \<Rightarrow> AckEngine \<Rightarrow> Queues \<Rightarrow> (AckEngine \<times> Queues) outcome" where
  "redelivery_pass now ae qs =
     (case deadlines ae of
        [] \<Rightarrow> Done (ae, qs)
      | (due, key) # rest \<Rightarrow>
          (if due > now then Done (ae, qs)
           else
             let ae1 = ae\<lparr>deadlines := rest\<rparr> in
             (case map_of (in_flight ae1) key of
                None \<Rightarrow> redelivery_pass now ae1 qs
              | Some entry \<Rightarrow>
                  (if deadline entry > due then redelivery_pass now ae1 qs
                   else obind (requeue_or_dlq ae1 now entry qs) (\<lambda>(_, qs').
                        redelivery_pass now (ae1\<lparr>in_flight := om_delete key (in_flight ae1)\<rparr>) qs')))))"
  by pat_completeness auto
termination
  by (relation "measure (\<lambda>(now, ae, qs). length (deadlines ae))") auto

declare redelivery_pass.simps [simp del]


section \<open>Failed deliveries\<close>

definition requeue_msg :: "InFlight \<Rightarrow> Message" where
  "requeue_msg e = (fl_msg e)\<lparr>retry_count := fl_retry e + 1\<rparr>"

definition dead_letter :: "InFlight \<Rightarrow> Message" where
  "dead_letter e = \<lparr>msg_id = msg_id (fl_msg e), topic = ''$DLQ.'' @ topic (fl_msg e),
     body = body (fl_msg e), retry_count = 0\<rparr>"

definition retried :: "AckEngine \<Rightarrow> InFlight list \<Rightarrow> Message list" where
  "retried ae es = map requeue_msg (filter (\<lambda>e. fl_retry e < max_retries ae) es)"

definition buried :: "AckEngine \<Rightarrow> InFlight list \<Rightarrow> Message list" where
  "buried ae es = map dead_letter (filter (\<lambda>e. max_retries ae \<le> fl_retry e) es)"

text \<open>Failing a list of deliveries one after the other.\<close>

fun fail_all :: "AckEngine \<Rightarrow> time_point \<Rightarrow> InFlight list \<Rightarrow> Queues \<Rightarrow> Queues outcome" where
  "fail_all ae now [] qs = Done qs"
| "fail_all ae now (e # es) qs = obind (requeue_or_dlq ae now e qs) (\<lambda>(_, qs'). fail_all ae now es qs')"

definition room_for :: "Message list \<Rightarrow> Message SafeQueue \<Rightarrow> bool" where
  "room_for ms q \<longleftrightarrow> length (queue q) + length ms \<le> capacity q"

definition enqueue :: "Message list \<Rightarrow> Message SafeQueue \<Rightarrow> Message SafeQueue" where
  "enqueue ms q = q\<lparr>queue := queue q @ ms\<rparr>"

lemma enqueue_simps [simp]:
  "queue (enqueue ms q) = queue q @ ms" "capacity (enqueue ms q) = capacity q" "enqueue [] q = q"
  by (simp_all add: enqueue_def)

lemma requeue_or_dlq_eq:
  "requeue_or_dlq ae now e qs =
     (if max_retries ae \<le> fl_retry e then
        (if length (queue (dlq qs)) < capacity (dlq qs)
         then Done (e, qs\<lparr>dlq := enqueue [dead_letter e] (dlq qs)\<rparr>) else Blocked)
      else
        (if length (queue (main_queue qs)) < capacity (main_queue qs)
         then Done (e\<lparr>fl_retry := fl_retry e + 1, deadline := now + ack_timeout ae\<rparr>,
                    qs\<lparr>main_queue := enqueue [requeue_msg e] (main_queue qs)\<rparr>) else Blocked))"
  by (simp add: requeue_or_dlq_def push_def dead_letter_def requeue_msg_def enqueue_def new_message_def)

lemma fail_all_eq:
  assumes "queue_invar (main_queue qs)" "queue_invar (dlq qs)"
  shows "fail_all ae now es qs =
    (if room_for (retried ae es) (main_queue qs) \<and> room_for (buried ae es) (dlq qs)
     then Done (qs\<lparr>main_queue := enqueue (retried ae es) (main_queue qs),
                   dlq := enqueue (buried ae es) (dlq qs)\<rparr>)
     else Blocked)"
  using assms
proof (induction es arbitrary: qs)
  case Nil
  then show ?case
    by (simp add: retried_def buried_def room_for_def queue_invar_def)
next
  case (Cons e es)
  then show ?case
    by (auto simp: requeue_or_dlq_eq retried_def buried_def room_for_def queue_invar_def enqueue_def)
qed

lemma nack_eq:
  "nack ae now mid cid qs =
     (case map_of (in_flight ae) (mid, cid) of
        None \<Rightarrow> Done (ae, qs)
      | Some e \<Rightarrow> obind (fail_all ae now [e] qs) (\<lambda>qs'.
          Done (ae\<lparr>in_flight := om_delete (mid, cid) (in_flight ae)\<rparr>, qs')))"
  by (simp add: nack_def requeue_or_dlq_eq split: option.split)

lemma disconnect_loop_eq:
  "disconnect_loop ae now cid m qs =
     obind (fail_all ae now (map snd (filter (\<lambda>(k, e). subscriber_id e = cid) m)) qs) (\<lambda>qs'.
     Done (filter (\<lambda>(k, e). subscriber_id e \<noteq> cid) m, qs'))"
proof (induction ae now cid m qs rule: disconnect_loop.induct)
  case (2 ae now cid k e m qs)
  then show ?case
    by (auto simp: obind_assoc case_prod_beta intro!: obind_cong)
qed simp

lemma client_disconnected_eq:
  "client_disconnected ae now cid qs =
     obind (fail_all ae now (map snd (filter (\<lambda>(k, e). subscriber_id e = cid) (in_flight ae))) qs) (\<lambda>qs'.
     Done (ae\<lparr>in_flight := filter (\<lambda>(k, e). subscriber_id e \<noteq> cid) (in_flight ae)\<rparr>, qs'))"
  by (simp add: client_disconnected_def disconnect_loop_eq obind_assoc)



section \<open>Expired deliveries\<close>

text \<open>
  The decisions of a redelivery pass without the pushes: which deliveries it takes out of
  the table, and what is left of the heap and the table.
\<close>

fun expire :: "time_point \<Rightarrow> (time_point \<times> delivery) list \<Rightarrow> (delivery, InFlight) std_map \<Rightarrow>
    (delivery \<times> InFlight) list \<times> (time_point \<times> delivery) list \<times> (delivery, InFlight) std_map" where
  "expire now [] m = ([], [], m)"
| "expire now ((due, key) # rest) m =
     (if now < due then ([], (due, key) # rest, m)
      else case map_of m key of
        None \<Rightarrow> expire now rest m
      | Some e \<Rightarrow>
          if due < deadline e then expire now rest m
          else (let (es, r) = expire now rest (om_delete key m) in ((key, e) # es, r)))"

lemma fail_all_deadlines [simp]:
  "fail_all (ae\<lparr>deadlines := dl\<rparr>) now es qs = fail_all ae now es qs"
  "fail_all (ae\<lparr>in_flight := m\<rparr>) now es qs = fail_all ae now es qs"
  by (induction es arbitrary: qs) (simp_all add: requeue_or_dlq_eq)

lemma redelivery_pass_eq:
  "redelivery_pass now ae qs = (let (es, dl, m) = expire now (deadlines ae) (in_flight ae) in
     obind (fail_all ae now (map snd es) qs) (\<lambda>qs'. Done (ae\<lparr>deadlines := dl, in_flight := m\<rparr>, qs')))"
proof (induction "deadlines ae" arbitrary: ae qs)
  case Nil
  then show ?case by (simp add: redelivery_pass.simps [of now ae])
next
  case (Cons x rest)
  obtain due key where x: "x = (due, key)" by (cases x)
  note dl = Cons.hyps(2) [symmetric, unfolded x]
  let ?ae = "ae\<lparr>deadlines := rest\<rparr>"
  show ?case
  proof (cases "now < due")
    case True
    then show ?thesis by (simp add: redelivery_pass.simps [of now ae] dl)
  next
    case due: False
    show ?thesis
    proof (cases "\<exists>e. map_of (in_flight ae) key = Some e \<and> \<not> due < deadline e")
      case True
      then obtain e where e: "map_of (in_flight ae) key = Some e" "\<not> due < deadline e" by blast
      let ?ae' = "?ae\<lparr>in_flight := om_delete key (in_flight ae)\<rparr>"
      have IH: "redelivery_pass now ?ae' qs' =
          (let (es, dl, m) = expire now rest (om_delete key (in_flight ae)) in
           obind (fail_all ae now (map snd es) qs') (\<lambda>qs''. Done (ae\<lparr>deadlines := dl, in_flight := m\<rparr>, qs'')))" for qs'
        using Cons.hyps(1) [of ?ae' qs'] by (simp add: case_prod_beta)
      have "requeue_or_dlq ?ae now e qs = requeue_or_dlq ae now e qs"
        by (simp add: requeue_or_dlq_eq)
      with due e show ?thesis
        by (simp add: redelivery_pass.simps [of now ae] dl IH obind_assoc case_prod_unfold Let_def)
    next
      case False
      with due Cons.hyps(1) [of ?ae qs] show ?thesis
        by (auto simp: redelivery_pass.simps [of now ae] dl case_prod_beta split: option.split)
    qed
  qed
qed

text \<open>Every delivery in the table has its deadline in the heap.\<close>

definition covered :: "(time_point \<times> delivery) list \<Rightarrow> (delivery, InFlight) std_map \<Rightarrow> bool" where
  "covered dl m \<longleftrightarrow> (\<forall>(k, e) \<in> set m. (deadline e, k) \<in> set dl)"

lemma om_delete_filter: "om_invar m \<Longrightarrow> om_delete k m = filter (\<lambda>(j, v). j \<noteq> k) m"
proof (induction k m rule: om_delete.induct)
  case (2 k j w m)
  then have "filter (\<lambda>(i, v). i \<noteq> j) m = m"
    by (force intro!: filter_True)
  with 2 show ?case by auto
qed simp

lemma covered_lookup: "om_invar m \<Longrightarrow> covered dl m \<longleftrightarrow> (\<forall>k e. map_of m k = Some e \<longrightarrow> (deadline e, k) \<in> set dl)"
  unfolding covered_def using om.in_items_iff by fastforce

text \<open>
  A pass takes out exactly the deliveries whose deadline has passed, each once, and keeps
  every remaining delivery covered: nothing can be forgotten by the scanner.
\<close>

text \<open>When the top of the heap is in the future, nothing in the table is due.\<close>

lemma nothing_due:
  assumes "sorted ((due, key) # rest)" "covered ((due, key) # rest) m" "now < due"
  shows "filter (\<lambda>(k, e). now < deadline e) m = m" "filter_mset (\<lambda>(k, e). deadline e \<le> now) (mset m) = {#}"
proof -
  have "now < deadline e" if "(k, e) \<in> set m" for k e
  proof -
    have "(deadline e, k) \<in># mset ((due, key) # rest)"
      using that assms(2) by (auto simp: covered_def)
    from pq.top_least [OF assms(1) this] assms(3) show ?thesis
      by (auto simp: less_eq_prod_def)
  qed
  then have late: "\<forall>x \<in> set m. now < deadline (snd x)"
    by auto
  show "filter (\<lambda>(k, e). now < deadline e) m = m"
    using late by (auto intro!: filter_True)
  show "filter_mset (\<lambda>(k, e). deadline e \<le> now) (mset m) = {#}"
    using late by (fastforce simp: filter_mset_eq_mempty_iff)
qed

lemma expired_deleted:
  assumes "om_invar m" "map_of m key = Some e" "deadline e \<le> now"
  shows "filter (\<lambda>(k, e). now < deadline e) (om_delete key m) = filter (\<lambda>(k, e). now < deadline e) m"
  unfolding om_delete_filter [OF assms(1)] filter_filter
  using assms(2,3) om.in_items_iff [OF assms(1), of key] by (auto intro!: filter_cong)

lemma expire_spec:
  assumes "om_invar m" "sorted dl" "covered dl m" "expire now dl m = (es, dl', m')"
  shows "m' = filter (\<lambda>(k, e). now < deadline e) m \<and>
    mset es = filter_mset (\<lambda>(k, e). deadline e \<le> now) (mset m) \<and> sorted dl' \<and> covered dl' m'"
  using assms
proof (induction now dl m arbitrary: es dl' m' rule: expire.induct)
  case (1 now m)
  then have "m = []" by (cases m) (auto simp: covered_def)
  with 1 show ?case by simp
next
  case (2 now due key rest m)
  note om = \<open>om_invar m\<close>
  show ?case
  proof (cases "now < due")
    case True
    from nothing_due [OF 2(5,6) this] show ?thesis
      using True 2(5,6,7) by auto
  next
    case due: False
    show ?thesis
    proof (cases "\<exists>e. map_of m key = Some e \<and> \<not> due < deadline e")
      case True
      then obtain e where e: "map_of m key = Some e" "\<not> due < deadline e" by blast
      obtain es1 where r: "expire now rest (om_delete key m) = (es1, dl', m')" "es = (key, e) # es1"
        using 2(7) due e by (auto split: prod.splits)
      have "covered rest (om_delete key m)"
        using 2(6) om by (auto simp: covered_lookup om_invar_delete map_of_om_delete)
      from 2(3) [OF due e om_invar_delete [OF om] _ this r(1)] 2(5)
      have IH: "m' = filter (\<lambda>(k, e). now < deadline e) (om_delete key m)"
        "mset es1 = filter_mset (\<lambda>(k, e). deadline e \<le> now) (mset (om_delete key m))" "sorted dl'" "covered dl' m'"
        by auto
      have le: "deadline e \<le> now" using e due by simp
      show ?thesis
        using IH r(2) le expired_deleted [OF om e(1) le] om.mset_delete [OF om e(1)] by simp
    next
      case False
      then have "expire now rest m = (es, dl', m')"
        using 2(7) due by (auto split: option.splits)
      moreover have "covered rest m"
        using 2(6) om False by (auto simp: covered_lookup)
      ultimately show ?thesis
        using 2(1,2) [OF due] 2(5) om False by (cases "map_of m key") auto
    qed
  qed
qed


section \<open>The invariant\<close>

text \<open>
  The table is a well-formed ordered map whose keys name the message and the client of
  their entry, the heap is ordered and covers the table, and an entry counts the same
  number of retries as its message.
\<close>

definition entry_ok :: "delivery \<times> InFlight \<Rightarrow> bool" where
  "entry_ok = (\<lambda>(k, e). k = (msg_id (fl_msg e), subscriber_id e) \<and> fl_retry e = retry_count (fl_msg e))"

definition ack_inv :: "AckEngine \<Rightarrow> bool" where
  "ack_inv ae \<longleftrightarrow> om_invar (in_flight ae) \<and> sorted (deadlines ae) \<and>
     covered (deadlines ae) (in_flight ae) \<and> (\<forall>x \<in> set (in_flight ae). entry_ok x)"

lemma ack_inv_new: "ack_inv (new_ack_engine t r)"
  by (simp add: ack_inv_def new_ack_engine_def covered_def)

lemma om_invar_filter: "om_invar m \<Longrightarrow> om_invar (filter P m)"
  unfolding om_invar_def by (induction m) auto

lemma covered_filter: "covered dl m \<Longrightarrow> covered dl (filter P m)"
  by (auto simp: covered_def)

lemma set_pq_push [simp]: "set (pq_push x q) = insert x (set q)"
  by (simp add: pq_push_def set_insort_key)

lemma ack_inv_track: "ack_inv ae \<Longrightarrow> ack_inv (track ae now m c)"
proof -
  assume inv: "ack_inv ae"
  then have om: "om_invar (in_flight ae)" by (simp add: ack_inv_def)
  note om' = om_invar_update [OF om]
  have "covered (deadlines (track ae now m c)) (in_flight (track ae now m c))"
    using inv by (auto simp: track_def Let_def covered_def ack_inv_def dest!: om_set_update)
  moreover have "\<forall>x \<in> set (in_flight (track ae now m c)). entry_ok x"
    using inv by (auto simp: track_def Let_def entry_ok_def ack_inv_def dest!: om_set_update)
  ultimately show ?thesis
    using inv by (simp add: ack_inv_def track_def Let_def om' pq.invar_push)
qed

lemma ack_eq: "ack_inv ae \<Longrightarrow> ack ae mid cid = ae\<lparr>in_flight := filter (\<lambda>(k, e). k \<noteq> (mid, cid)) (in_flight ae)\<rparr>"
proof -
  assume "ack_inv ae"
  then have om: "om_invar (in_flight ae)" by (simp add: ack_inv_def)
  have "filter (\<lambda>(k, e). k \<noteq> (mid, cid)) (in_flight ae) = in_flight ae" if "map_of (in_flight ae) (mid, cid) = None"
    using that by (auto intro!: filter_True simp: map_of_eq_None_iff rev_image_eqI)
  then show ?thesis
    by (auto simp: ack_def om_delete_filter [OF om] split: option.split)
qed

lemma ack_inv_ack: "ack_inv ae \<Longrightarrow> ack_inv (ack ae mid cid)"
  by (simp add: ack_eq) (simp add: ack_inv_def om_invar_filter covered_filter)


section \<open>Operations that fail deliveries\<close>

definition queues_invar :: "Queues \<Rightarrow> bool" where
  "queues_invar qs \<longleftrightarrow> queue_invar (main_queue qs) \<and> queue_invar (dlq qs)"

text \<open>Both queues take the messages of the failed deliveries.\<close>

definition accepts :: "AckEngine \<Rightarrow> InFlight list \<Rightarrow> Queues \<Rightarrow> bool" where
  "accepts ae es qs \<longleftrightarrow> room_for (retried ae es) (main_queue qs) \<and> room_for (buried ae es) (dlq qs)"

definition hand_over :: "AckEngine \<Rightarrow> InFlight list \<Rightarrow> Queues \<Rightarrow> Queues" where
  "hand_over ae es qs = qs\<lparr>main_queue := enqueue (retried ae es) (main_queue qs),
     dlq := enqueue (buried ae es) (dlq qs)\<rparr>"

lemma fail_all_hand_over:
  "queues_invar qs \<Longrightarrow> fail_all ae now es qs = (if accepts ae es qs then Done (hand_over ae es qs) else Blocked)"
  by (simp add: fail_all_eq queues_invar_def accepts_def hand_over_def)

lemma hand_over_invar: "queues_invar qs \<Longrightarrow> accepts ae es qs \<Longrightarrow> queues_invar (hand_over ae es qs)"
  by (simp add: queues_invar_def accepts_def hand_over_def queue_invar_def room_for_def)

text \<open>The identity and payload of a message, which a failure must not lose.\<close>

definition letter :: "Message \<Rightarrow> u64 \<times> bytes" where
  "letter m = (msg_id m, body m)"

definition ledger :: "AckEngine \<Rightarrow> Queues \<Rightarrow> (u64 \<times> bytes) multiset" where
  "ledger ae qs = image_mset (\<lambda>(k, e). letter (fl_msg e)) (mset (in_flight ae)) +
     image_mset letter (mset (queue (main_queue qs)) + mset (queue (dlq qs)))"

lemma letter_failed [simp]: "letter (requeue_msg e) = letter (fl_msg e)" "letter (dead_letter e) = letter (fl_msg e)"
  by (simp_all add: letter_def requeue_msg_def dead_letter_def)

lemma mset_hand_over:
  "image_mset letter (mset (queue (main_queue (hand_over ae es qs))) + mset (queue (dlq (hand_over ae es qs)))) =
   image_mset letter (mset (queue (main_queue qs)) + mset (queue (dlq qs))) +
   image_mset (\<lambda>e. letter (fl_msg e)) (mset es)"
proof -
  have "image_mset letter (mset (retried ae es)) + image_mset letter (mset (buried ae es)) =
      image_mset (\<lambda>e. letter (fl_msg e)) (mset es)"
    by (induction es) (auto simp: retried_def buried_def)
  then show ?thesis
    by (simp add: hand_over_def ac_simps)
qed

text \<open>A failed delivery reached the queue it belongs to.\<close>

definition handed :: "AckEngine \<Rightarrow> InFlight \<Rightarrow> Queues \<Rightarrow> bool" where
  "handed ae e qs \<longleftrightarrow> (if fl_retry e < max_retries ae then requeue_msg e \<in> set (queue (main_queue qs))
     else dead_letter e \<in> set (queue (dlq qs)))"

lemma hand_over_handed: "e \<in> set es \<Longrightarrow> handed ae e (hand_over ae es qs)"
  by (simp add: handed_def hand_over_def retried_def buried_def)

text \<open>
  What \<open>nack\<close>, \<open>client_disconnected\<close> and a redelivery pass have in common: each fails a set
  of deliveries, in some order, and keeps the others and their deadlines.
\<close>

locale failure_op =
  fixes operation :: "AckEngine \<Rightarrow> Queues \<Rightarrow> (AckEngine \<times> Queues) outcome"
    and failing :: "delivery \<times> InFlight \<Rightarrow> bool"
    and now :: time_point
  assumes fails: "ack_inv ae \<Longrightarrow> \<exists>es dl. mset es = filter_mset failing (mset (in_flight ae)) \<and> sorted dl \<and>
    covered dl (filter (\<lambda>x. \<not> failing x) (in_flight ae)) \<and>
    operation ae qs = obind (fail_all ae now (map snd es) qs) (\<lambda>qs'.
      Done (ae\<lparr>deadlines := dl, in_flight := filter (\<lambda>x. \<not> failing x) (in_flight ae)\<rparr>, qs'))"
begin

lemma exact:
  assumes "ack_inv ae" "queues_invar qs"
  shows "\<exists>es dl. mset es = filter_mset failing (mset (in_flight ae)) \<and>
    (if accepts ae (map snd es) qs
     then ack_inv (ae\<lparr>deadlines := dl, in_flight := filter (\<lambda>x. \<not> failing x) (in_flight ae)\<rparr>) \<and>
       operation ae qs = Done (ae\<lparr>deadlines := dl, in_flight := filter (\<lambda>x. \<not> failing x) (in_flight ae)\<rparr>,
         hand_over ae (map snd es) qs)
     else operation ae qs = Blocked)"
proof -
  obtain es dl where *: "mset es = filter_mset failing (mset (in_flight ae))" "sorted dl"
    "covered dl (filter (\<lambda>x. \<not> failing x) (in_flight ae))"
    "operation ae qs = obind (fail_all ae now (map snd es) qs) (\<lambda>qs'.
      Done (ae\<lparr>deadlines := dl, in_flight := filter (\<lambda>x. \<not> failing x) (in_flight ae)\<rparr>, qs'))"
    using fails [OF assms(1)] by blast
  have "ack_inv (ae\<lparr>deadlines := dl, in_flight := filter (\<lambda>x. \<not> failing x) (in_flight ae)\<rparr>)"
    using assms(1) *(2,3) by (simp add: ack_inv_def om_invar_filter)
  with * show ?thesis
    by (intro exI [of _ es] exI [of _ dl]) (simp add: fail_all_hand_over [OF assms(2)])
qed

lemma no_fault: "ack_inv ae \<Longrightarrow> queues_invar qs \<Longrightarrow> operation ae qs \<noteq> Fault"
  using exact [of ae qs] by (metis outcome.distinct(3,5))

lemma preserves:
  assumes "ack_inv ae" "queues_invar qs" "operation ae qs = Done (ae', qs')"
  shows "ack_inv ae' \<and> queues_invar qs' \<and> max_retries ae' = max_retries ae \<and> ack_timeout ae' = ack_timeout ae"
  using exact [OF assms(1,2)] assms(2,3) hand_over_invar by (auto split: if_splits)

lemma conserves:
  assumes "ack_inv ae" "queues_invar qs" "operation ae qs = Done (ae', qs')"
  shows "ledger ae' qs' = ledger ae qs"
proof -
  let ?f = "\<lambda>(k, e). letter (fl_msg e)"
  obtain es where es: "mset es = filter_mset failing (mset (in_flight ae))"
    "in_flight ae' = filter (\<lambda>x. \<not> failing x) (in_flight ae)" "qs' = hand_over ae (map snd es) qs"
    using exact [OF assms(1,2)] assms(3) by (auto split: if_splits)
  have "image_mset (\<lambda>e. letter (fl_msg e)) (mset (map snd es)) = image_mset ?f (mset es)"
    by (simp add: image_mset.compositionality comp_def case_prod_unfold)
  moreover have "image_mset ?f (mset (in_flight ae)) =
      image_mset ?f (filter_mset (\<lambda>x. \<not> failing x) (mset (in_flight ae))) + image_mset ?f (filter_mset failing (mset (in_flight ae)))"
    by (metis image_mset_union multiset_partition union_commute)
  ultimately show ?thesis
    unfolding ledger_def es(3) mset_hand_over by (simp add: es(1,2))
qed

text \<open>A delivery that fails is handed to one of the queues, any other stays in the table.\<close>

lemma fate:
  assumes "ack_inv ae" "queues_invar qs" "operation ae qs = Done (ae', qs')" "map_of (in_flight ae) k = Some e"
  shows "if failing (k, e) then map_of (in_flight ae') k = None \<and> handed ae e qs' else map_of (in_flight ae') k = Some e"
proof -
  obtain es where es: "mset es = filter_mset failing (mset (in_flight ae))"
    "in_flight ae' = filter (\<lambda>x. \<not> failing x) (in_flight ae)" "qs' = hand_over ae (map snd es) qs"
    using exact [OF assms(1,2)] assms(3) by (auto split: if_splits)
  have om: "om_invar (in_flight ae)" "om_invar (in_flight ae')"
    using assms(1) es(2) by (simp_all add: ack_inv_def om_invar_filter)
  have ke: "(k, e) \<in> set (in_flight ae)"
    using assms(4) om.in_items_iff [OF om(1)] by blast
  show ?thesis
  proof (cases "failing (k, e)")
    case True
    with ke have "(k, e) \<in># mset es"
      unfolding es(1) by simp
    then have "e \<in> set (map snd es)" by force
    then have "handed ae e qs'"
      unfolding es(3) by (rule hand_over_handed)
    moreover have "map_of (in_flight ae') k = None"
      using True assms(4) es(2) om.in_items_iff [OF om(1), of k] by (auto simp: map_of_eq_None_iff)
    ultimately show ?thesis using True by simp
  next
    case False
    with ke have "(k, e) \<in> set (in_flight ae')" by (simp add: es(2))
    with False show ?thesis using om.in_items_iff [OF om(2), of k e] by simp
  qed
qed

lemma queues_grow:
  assumes "ack_inv ae" "queues_invar qs" "operation ae qs = Done (ae', qs')" "handed ae'' e qs"
  shows "handed ae'' e qs'"
  using exact [OF assms(1,2)] assms(3,4) by (auto simp: handed_def hand_over_def split: if_splits)

end

interpretation scan: failure_op "\<lambda>ae qs. redelivery_pass now ae qs" "\<lambda>(k, e). deadline e \<le> now" now for now
proof unfold_locales
  fix ae qs
  assume inv: "ack_inv ae"
  obtain es dl m where e: "expire now (deadlines ae) (in_flight ae) = (es, dl, m)"
    by (cases "expire now (deadlines ae) (in_flight ae)") auto
  have neg: "(\<lambda>x. \<not> (case x of (k, e) \<Rightarrow> deadline e \<le> now)) = (\<lambda>(k :: delivery, e). now < deadline e)"
    by (auto simp: fun_eq_iff)
  show "\<exists>es dl. mset es = filter_mset (\<lambda>(k, e). deadline e \<le> now) (mset (in_flight ae)) \<and> sorted dl \<and>
    covered dl (filter (\<lambda>x. \<not> (case x of (k, e) \<Rightarrow> deadline e \<le> now)) (in_flight ae)) \<and>
    redelivery_pass now ae qs = obind (fail_all ae now (map snd es) qs) (\<lambda>qs'. Done (ae\<lparr>deadlines := dl,
      in_flight := filter (\<lambda>x. \<not> (case x of (k, e) \<Rightarrow> deadline e \<le> now)) (in_flight ae)\<rparr>, qs'))"
    unfolding neg using expire_spec [OF _ _ _ e] inv
    by (intro exI [of _ es] exI [of _ dl]) (auto simp: redelivery_pass_eq e ack_inv_def)
qed

interpretation gone: failure_op "\<lambda>ae qs. client_disconnected ae now cid qs" "\<lambda>(k, e). subscriber_id e = cid" now
  for now cid
proof unfold_locales
  fix ae qs
  assume inv: "ack_inv ae"
  show "\<exists>es dl. mset es = filter_mset (\<lambda>(k, e). subscriber_id e = cid) (mset (in_flight ae)) \<and> sorted dl \<and>
    covered dl (filter (\<lambda>x. \<not> (case x of (k, e) \<Rightarrow> subscriber_id e = cid)) (in_flight ae)) \<and>
    client_disconnected ae now cid qs = obind (fail_all ae now (map snd es) qs) (\<lambda>qs'. Done (ae\<lparr>deadlines := dl,
      in_flight := filter (\<lambda>x. \<not> (case x of (k, e) \<Rightarrow> subscriber_id e = cid)) (in_flight ae)\<rparr>, qs'))"
    using inv
    by (intro exI [of _ "filter (\<lambda>(k, e). subscriber_id e = cid) (in_flight ae)"] exI [of _ "deadlines ae"])
      (simp add: client_disconnected_eq ack_inv_def covered_filter case_prod_unfold)
qed

interpretation nk: failure_op "\<lambda>ae qs. nack ae now mid cid qs" "\<lambda>(k, e). k = (mid, cid)" now for now mid cid
proof unfold_locales
  fix ae qs
  assume inv: "ack_inv ae"
  then have om: "om_invar (in_flight ae)" by (simp add: ack_inv_def)
  have neg: "(\<lambda>x. \<not> (case x of (k, e) \<Rightarrow> k = (mid, cid))) = (\<lambda>(j :: delivery, v :: InFlight). j \<noteq> (mid, cid))"
    by auto
  let ?es = "case map_of (in_flight ae) (mid, cid) of None \<Rightarrow> [] | Some e \<Rightarrow> [((mid, cid), e)]"
  have "mset ?es = filter_mset (\<lambda>(k, e). k = (mid, cid)) (mset (in_flight ae))"
  proof (cases "map_of (in_flight ae) (mid, cid)")
    case None
    then have "filter_mset (\<lambda>(k, e). k = (mid, cid)) (mset (in_flight ae)) = {#}"
      by (auto simp: filter_mset_eq_mempty_iff map_of_eq_None_iff rev_image_eqI)
    with None show ?thesis by simp
  next
    case (Some e)
    have "filter_mset (\<lambda>(k, e). k = (mid, cid)) (mset (in_flight ae)) = {#((mid, cid), e)#}"
      by (subst om.mset_delete [OF om Some]) (auto simp: om_delete_filter [OF om] filter_mset_eq_mempty_iff)
    with Some show ?thesis by simp
  qed
  then show "\<exists>es dl. mset es = filter_mset (\<lambda>(k, e). k = (mid, cid)) (mset (in_flight ae)) \<and> sorted dl \<and>
    covered dl (filter (\<lambda>x. \<not> (case x of (k, e) \<Rightarrow> k = (mid, cid))) (in_flight ae)) \<and>
    nack ae now mid cid qs = obind (fail_all ae now (map snd es) qs) (\<lambda>qs'. Done (ae\<lparr>deadlines := dl,
      in_flight := filter (\<lambda>x. \<not> (case x of (k, e) \<Rightarrow> k = (mid, cid))) (in_flight ae)\<rparr>, qs'))"
    using inv ack_eq [OF inv, of mid cid]
    by (intro exI [of _ ?es] exI [of _ "deadlines ae"])
      (auto simp: nack_eq neg ack_inv_def covered_filter om_delete_filter [OF om] ack_def split: option.split)
qed


text \<open>The failure of one delivery, which the operations above repeat.\<close>

lemma requeue_or_dlq_DoneD:
  assumes "requeue_or_dlq ae now e qs = Done (e', qs')" "queues_invar qs"
  shows "qs' = hand_over ae [e] qs \<and> queues_invar qs'"
  using assms
  by (auto simp: requeue_or_dlq_eq queues_invar_def queue_invar_def hand_over_def retried_def buried_def split: if_splits)

lemma ack_inv_delete: "ack_inv ae \<Longrightarrow> ack_inv (ae\<lparr>in_flight := om_delete k (in_flight ae)\<rparr>)"
  by (auto simp: ack_inv_def om_invar_filter om_delete_filter covered_filter)

text \<open>Dropping the top of the heap is harmless when no entry of the table needs it.\<close>

lemma ack_inv_pop:
  assumes "ack_inv ae" "deadlines ae = (due, k) # rest"
    and "\<forall>e. map_of (in_flight ae) k = Some e \<longrightarrow> deadline e \<noteq> due"
  shows "ack_inv (ae\<lparr>deadlines := rest\<rparr>)"
proof -
  have "om_invar (in_flight ae)" "covered ((due, k) # rest) (in_flight ae)"
    using assms(1,2) by (simp_all add: ack_inv_def)
  then have "covered rest (in_flight ae)"
    using assms(3) by (auto simp: covered_lookup)
  then show ?thesis
    using assms(1,2) by (auto simp: ack_inv_def)
qed


section \<open>Sequences of calls\<close>

datatype engine_call =
    Track time_point Message ClientId
  | Acknowledge u64 ClientId
  | Reject time_point u64 ClientId
  | Disconnected time_point ClientId
  | Scan time_point

fun engine_step :: "engine_call \<Rightarrow> AckEngine \<times> Queues \<Rightarrow> (AckEngine \<times> Queues) outcome" where
  "engine_step (Track now m c) (ae, qs) = Done (track ae now m c, qs)"
| "engine_step (Acknowledge mid c) (ae, qs) = Done (ack ae mid c, qs)"
| "engine_step (Reject now mid c) (ae, qs) = nack ae now mid c qs"
| "engine_step (Disconnected now c) (ae, qs) = client_disconnected ae now c qs"
| "engine_step (Scan now) (ae, qs) = redelivery_pass now ae qs"

fun engine_run :: "engine_call list \<Rightarrow> AckEngine \<times> Queues \<Rightarrow> (AckEngine \<times> Queues) outcome" where
  "engine_run [] s = Done s"
| "engine_run (c # cs) s = obind (engine_step c s) (engine_run cs)"

definition engine_inv :: "AckEngine \<times> Queues \<Rightarrow> bool" where
  "engine_inv s \<longleftrightarrow> ack_inv (fst s) \<and> queues_invar (snd s)"

lemma track_ack_params [simp]:
  "max_retries (track ae now m c) = max_retries ae" "max_retries (ack ae mid cid) = max_retries ae"
  by (simp_all add: track_def Let_def ack_def split: option.split)

lemma engine_step_preserves:
  "engine_inv s \<Longrightarrow> engine_step c s = Done s' \<Longrightarrow> engine_inv s' \<and> max_retries (fst s') = max_retries (fst s)"
  by (cases c; cases s; cases s')
    (auto simp: engine_inv_def ack_inv_track ack_inv_ack dest: scan.preserves gone.preserves nk.preserves)

lemma engine_step_no_fault: "engine_inv s \<Longrightarrow> engine_step c s \<noteq> Fault"
  by (cases c; cases s) (simp_all add: engine_inv_def scan.no_fault gone.no_fault nk.no_fault)

text \<open>What every call keeps, a sequence of calls keeps.\<close>

lemma engine_run_keeps:
  assumes "engine_run cs s = Done s'" "P s"
    and "\<And>c s s'. c \<in> set cs \<Longrightarrow> P s \<Longrightarrow> engine_step c s = Done s' \<Longrightarrow> P s'"
  shows "P s'"
  using assms
proof (induction cs arbitrary: s)
  case (Cons c cs)
  then obtain s1 where s1: "engine_step c s = Done s1" "engine_run cs s1 = Done s'"
    by (auto elim: obind_DoneE)
  have "P s1" by (rule Cons.prems(3) [OF _ Cons.prems(2) s1(1)]) simp
  then show ?case
    by (rule Cons.IH [OF s1(2)]) (rule Cons.prems(3); simp)
qed simp

lemma engine_run_preserves: "engine_inv s \<Longrightarrow> engine_run cs s = Done s' \<Longrightarrow> engine_inv s'"
  by (erule engine_run_keeps) (auto dest: engine_step_preserves)

lemma engine_run_max_retries:
  assumes "engine_inv s" "engine_run cs s = Done s'"
  shows "max_retries (fst s') = max_retries (fst s)"
  using engine_run_keeps [OF assms(2), of "\<lambda>t. engine_inv t \<and> max_retries (fst t) = max_retries (fst s)"]
    assms(1) engine_step_preserves by fastforce

lemma engine_run_no_fault: "engine_inv s \<Longrightarrow> engine_run cs s \<noteq> Fault"
proof (induction cs arbitrary: s)
  case (Cons c cs)
  then show ?case
    using engine_step_no_fault [of s c] engine_step_preserves [of s c] by (cases "engine_step c s") auto
qed simp

text \<open>The calls that may take a delivery out of the table without failing it.\<close>

fun releases :: "delivery \<Rightarrow> engine_call \<Rightarrow> bool" where
  "releases k (Track now m c) \<longleftrightarrow> (msg_id m, c) = k"
| "releases k (Acknowledge mid c) \<longleftrightarrow> (mid, c) = k"
| "releases k _ \<longleftrightarrow> False"

text \<open>The delivery waits in the table, or its failure was handed to a queue.\<close>

definition accounted :: "delivery \<Rightarrow> InFlight \<Rightarrow> AckEngine \<times> Queues \<Rightarrow> bool" where
  "accounted k e s \<longleftrightarrow> map_of (in_flight (fst s)) k = Some e \<or> handed (fst s) e (snd s)"

lemma handed_max_retries: "max_retries ae = max_retries ae' \<Longrightarrow> handed ae e qs = handed ae' e qs"
  by (simp add: handed_def)

lemma engine_step_handed:
  assumes "engine_inv s" "engine_step c s = Done s'" "handed (fst s) e (snd s)"
  shows "handed (fst s') e (snd s')"
proof -
  have "handed (fst s) e (snd s')"
    using assms by (cases c; cases s; cases s')
      (auto simp: engine_inv_def dest: scan.queues_grow gone.queues_grow nk.queues_grow)
  then show ?thesis
    using engine_step_preserves [OF assms(1,2)] handed_max_retries by blast
qed

lemma engine_step_accounted:
  assumes "engine_inv s" "engine_step c s = Done s'" "accounted k e s" "\<not> releases k c"
  shows "accounted k e s'"
proof (cases "handed (fst s) e (snd s)")
  case True
  then show ?thesis
    using engine_step_handed [OF assms(1,2)] by (simp add: accounted_def)
next
  case False
  with assms(3) have k: "map_of (in_flight (fst s)) k = Some e" by (simp add: accounted_def)
  obtain ae qs where s: "s = (ae, qs)" by (cases s)
  obtain ae' qs' where s': "s' = (ae', qs')" by (cases s')
  have inv: "ack_inv ae" "queues_invar qs" using assms(1) by (simp_all add: engine_inv_def s)
  have "map_of (in_flight ae') k = Some e \<or> handed ae e qs'"
  proof (cases c)
    case (Track now m d)
    then show ?thesis using assms(2,4) k by (auto simp: s s' track_def Let_def map_of_om_update)
  next
    case (Acknowledge mid d)
    then show ?thesis using assms(2,4) k inv
      by (auto simp: s s' ack_def map_of_om_delete ack_inv_def split: option.split_asm)
  next
    case (Reject now mid d)
    then show ?thesis using nk.fate [of ae qs now mid d ae' qs' k e] inv assms(2) k by (auto simp: s s' split: if_splits)
  next
    case (Disconnected now d)
    then show ?thesis using gone.fate [of ae qs now d ae' qs' k e] inv assms(2) k by (auto simp: s s' split: if_splits)
  next
    case (Scan now)
    then show ?thesis using scan.fate [of ae qs now ae' qs' k e] inv assms(2) k by (auto simp: s s' split: if_splits)
  qed
  then show ?thesis
    using engine_step_preserves [OF assms(1,2)] handed_max_retries [of ae ae'] by (auto simp: accounted_def s s')
qed

lemma engine_run_accounted:
  assumes "engine_inv s" "engine_run cs s = Done s'" "accounted k e s" "\<forall>c \<in> set cs. \<not> releases k c"
  shows "accounted k e s'"
proof -
  have "engine_inv s' \<and> accounted k e s'"
    by (rule engine_run_keeps [OF assms(2)])
      (use assms engine_step_preserves engine_step_accounted in blast)+
  then show ?thesis ..
qed

lemma engine_run_handed:
  assumes "engine_inv s" "engine_run cs s = Done s'" "handed (fst s) e (snd s)"
  shows "handed (fst s') e (snd s')"
proof -
  have "engine_inv s' \<and> handed (fst s') e (snd s')"
    by (rule engine_run_keeps [OF assms(2)])
      (use assms engine_step_preserves engine_step_handed in blast)+
  then show ?thesis ..
qed

lemma engine_run_append: "engine_run (cs @ ds) s = obind (engine_run cs s) (engine_run ds)"
proof (induction cs arbitrary: s)
  case (Cons c cs)
  then show ?case by (auto simp: obind_assoc intro!: obind_cong)
qed simp


section \<open>Retry budget\<close>

text \<open>A delivery attempt that fails: the dispatcher takes the next message and tracks it for a
  client, the client rejects it.\<close>

definition fail_attempt :: "time_point \<Rightarrow> ClientId \<Rightarrow> AckEngine \<times> Queues \<Rightarrow> (AckEngine \<times> Queues) outcome" where
  "fail_attempt now c = (\<lambda>(ae, qs). case try_pop_for (main_queue qs) of
       (None, q) \<Rightarrow> Done (ae, qs\<lparr>main_queue := q\<rparr>)
     | (Some m, q) \<Rightarrow> nack (track ae now m c) now (msg_id m) c (qs\<lparr>main_queue := q\<rparr>))"

fun fail_attempts :: "time_point list \<Rightarrow> ClientId \<Rightarrow> AckEngine \<times> Queues \<Rightarrow> (AckEngine \<times> Queues) outcome" where
  "fail_attempts [] c s = Done s"
| "fail_attempts (now # ts) c s = obind (fail_attempt now c s) (fail_attempts ts c)"

lemma fail_attempt_single:
  assumes "in_flight ae = []" "queue (main_queue qs) = [m]" "queue (dlq qs) = []"
    "0 < capacity (main_queue qs)" "0 < capacity (dlq qs)"
  shows "\<exists>dl. fail_attempt now c (ae, qs) = Done (ae\<lparr>deadlines := dl\<rparr>,
    if retry_count m < max_retries ae
    then qs\<lparr>main_queue := (main_queue qs)\<lparr>queue := [m\<lparr>retry_count := retry_count m + 1\<rparr>]\<rparr>\<rparr>
    else \<lparr>main_queue = (main_queue qs)\<lparr>queue := []\<rparr>,
          dlq = (dlq qs)\<lparr>queue := [\<lparr>msg_id = msg_id m, topic = ''$DLQ.'' @ topic m, body = body m, retry_count = 0\<rparr>]\<rparr>\<rparr>)"
  using assms
  by (intro exI [of _ "pq_push (now + ack_timeout ae, msg_id m, c) (deadlines ae)"], cases ae)
    (auto simp: fail_attempt_def try_pop_for_def track_def Let_def nack_def requeue_or_dlq_eq
      enqueue_def requeue_msg_def dead_letter_def)

lemma fail_attempts_retry:
  assumes "in_flight ae = []" "queue (main_queue qs) = [m]" "queue (dlq qs) = []"
    "0 < capacity (main_queue qs)" "0 < capacity (dlq qs)" "retry_count m + int (length ts) \<le> max_retries ae"
  shows "\<exists>dl. fail_attempts ts c (ae, qs) = Done (ae\<lparr>deadlines := dl\<rparr>,
    qs\<lparr>main_queue := (main_queue qs)\<lparr>queue := [m\<lparr>retry_count := retry_count m + int (length ts)\<rparr>]\<rparr>\<rparr>)"
  using assms
proof (induction ts arbitrary: ae qs m)
  case Nil
  then show ?case by (auto intro!: exI [of _ "deadlines ae"])
next
  case (Cons now ts)
  let ?m = "m\<lparr>retry_count := retry_count m + 1\<rparr>"
  let ?qs = "qs\<lparr>main_queue := (main_queue qs)\<lparr>queue := [?m]\<rparr>\<rparr>"
  obtain dl where dl: "fail_attempt now c (ae, qs) = Done (ae\<lparr>deadlines := dl\<rparr>, ?qs)"
    using fail_attempt_single [OF Cons.prems(1-5), of now c] Cons.prems(6) by auto
  have "\<exists>dl'. fail_attempts ts c (ae\<lparr>deadlines := dl\<rparr>, ?qs) = Done ((ae\<lparr>deadlines := dl\<rparr>)\<lparr>deadlines := dl'\<rparr>,
      ?qs\<lparr>main_queue := (main_queue ?qs)\<lparr>queue := [?m\<lparr>retry_count := retry_count ?m + int (length ts)\<rparr>]\<rparr>\<rparr>)"
    by (rule Cons.IH) (use Cons.prems in auto)
  then show ?case
    by (simp add: dl algebra_simps)
qed

lemma fail_attempts_append: "fail_attempts (ts @ us) c s = obind (fail_attempts ts c s) (fail_attempts us c)"
proof (induction ts arbitrary: s)
  case (Cons t ts)
  then show ?case by (auto simp: obind_assoc intro!: obind_cong)
qed simp


section \<open>Properties\<close>

text \<open>States the witnesses use: one delivery of message 1 to client 7, in flight since time 0.\<close>

definition sample_engine :: AckEngine where
  "sample_engine = track (new_ack_engine 5000 3) 0 (new_message\<lparr>msg_id := 1, topic := ''a''\<rparr>) 7"

definition sample_entry :: InFlight where
  "sample_entry = \<lparr>fl_msg = new_message\<lparr>msg_id := 1, topic := ''a''\<rparr>, subscriber_id = 7, deadline = 5000, fl_retry = 0\<rparr>"

definition sample_queues :: Queues where
  "sample_queues = \<lparr>main_queue = new_queue 10, dlq = new_queue 10\<rparr>"

lemma sample_queues_invar: "queues_invar sample_queues"
  by (simp add: sample_queues_def queues_invar_def queue_invar_def new_queue_def)

lemma sample_engine_inv: "ack_inv sample_engine"
  by (simp add: sample_engine_def ack_inv_track ack_inv_new)

lemma sample_engine_in_flight: "in_flight sample_engine = [((1, 7), sample_entry)]"
  by (simp add: sample_engine_def track_def new_ack_engine_def sample_entry_def)

lemma sample_engine_retries [simp]: "max_retries sample_engine = 3"
  by (simp add: sample_engine_def new_ack_engine_def)

text \<open>
  The engine is safe under every sequence of calls. Started on two queues within their
  capacity, no call reads or writes out of bounds, and whenever the sequence completes, the
  table is a well-formed map, every entry's key and retry count agree with its message,
  every delivery in flight still has its deadline in the heap (so the scanner will find
  it), and both queues are within their capacity.
\<close>

theorem ack_engine_invariant:
  assumes "queues_invar qs"
  shows "engine_run cs (new_ack_engine t r, qs) \<noteq> Fault \<and>
    (\<forall>ae' qs'. engine_run cs (new_ack_engine t r, qs) = Done (ae', qs') \<longrightarrow> ack_inv ae' \<and> queues_invar qs')"
proof -
  have "engine_inv (new_ack_engine t r, qs)"
    using assms by (simp add: engine_inv_def ack_inv_new)
  then show ?thesis
    using engine_run_no_fault [of "(new_ack_engine t r, qs)" cs] engine_run_preserves [of "(new_ack_engine t r, qs)" cs]
    by (auto simp: engine_inv_def)
qed

theorem ack_engine_invariant_witness:
  "queues_invar sample_queues \<and>
   engine_run [Track 0 new_message 7, Scan 9000] (new_ack_engine 5000 3, sample_queues) \<noteq> Fault"
  using ack_engine_invariant [OF sample_queues_invar, of "[Track 0 new_message 7, Scan 9000]" 5000 3]
  by (simp add: sample_queues_invar)

text \<open>
  C2: at-least-once delivery. A delivery that is in flight and neither acknowledged nor
  tracked again is not forgotten: in every sequence of calls that contains a scan at or
  after its deadline, whatever is called before and after, its message ends up in the main
  queue with one more retry, or in the dead-letter queue when its retries are used up.
\<close>

theorem unacknowledged_delivery_is_handed_over:
  assumes "ack_inv ae" and "queues_invar qs" and "map_of (in_flight ae) k = Some e"
    and "\<forall>c \<in> set (cs @ ds). \<not> releases k c" and "deadline e \<le> now"
    and "engine_run (cs @ Scan now # ds) (ae, qs) = Done (ae', qs')"
  shows "if fl_retry e < max_retries ae
    then (fl_msg e)\<lparr>retry_count := fl_retry e + 1\<rparr> \<in> set (queue (main_queue qs'))
    else \<lparr>msg_id = msg_id (fl_msg e), topic = ''$DLQ.'' @ topic (fl_msg e), body = body (fl_msg e), retry_count = 0\<rparr>
           \<in> set (queue (dlq qs'))"
proof -
  have inv: "engine_inv (ae, qs)" using assms(1,2) by (simp add: engine_inv_def)
  obtain s1 s2 where run: "engine_run cs (ae, qs) = Done s1" "engine_step (Scan now) s1 = Done s2"
    "engine_run ds s2 = Done (ae', qs')"
    using assms(6) unfolding engine_run_append engine_run.simps obind_eq_Done_iff by blast
  note inv1 = engine_run_preserves [OF inv run(1)]
  have "accounted k e s1"
    by (rule engine_run_accounted [OF inv run(1)]) (use assms(3,4) in \<open>auto simp: accounted_def\<close>)
  then have "handed (fst s2) e (snd s2)"
    using engine_step_handed [OF inv1 run(2)] scan.fate [of "fst s1" "snd s1" now "fst s2" "snd s2" k e] assms(5) run(2)
      inv1 handed_max_retries [of "fst s1" "fst s2"] engine_step_preserves [OF inv1 run(2)]
    by (cases s1; cases s2) (auto simp: accounted_def engine_inv_def)
  moreover have "engine_inv s2"
    using engine_step_preserves [OF inv1 run(2)] by simp
  ultimately have "handed ae' e qs'"
    using engine_run_handed [OF _ run(3)] by simp
  moreover have "max_retries ae' = max_retries ae"
    using engine_run_max_retries [OF inv assms(6)] by simp
  ultimately show ?thesis
    by (auto simp: handed_def requeue_msg_def dead_letter_def split: if_splits)
qed

theorem unacknowledged_delivery_is_handed_over_witness:
  "(new_message\<lparr>msg_id := 1, topic := ''a''\<rparr>)\<lparr>retry_count := 1\<rparr> \<in> set (queue (main_queue
     (sample_queues\<lparr>main_queue := enqueue [(new_message\<lparr>msg_id := 1, topic := ''a''\<rparr>)\<lparr>retry_count := 1\<rparr>] (new_queue 10)\<rparr>)))"
proof -
  have run: "engine_run ([Acknowledge 2 7] @ Scan 6000 # []) (sample_engine, sample_queues) = Done (sample_engine\<lparr>deadlines := [], in_flight := []\<rparr>,
      sample_queues\<lparr>main_queue := enqueue [(new_message\<lparr>msg_id := 1, topic := ''a''\<rparr>)\<lparr>retry_count := 1\<rparr>] (new_queue 10)\<rparr>)"
    by (simp add: sample_engine_def track_def new_ack_engine_def ack_def pq_push_def redelivery_pass.simps
        requeue_or_dlq_eq sample_queues_def new_queue_def enqueue_def requeue_msg_def)
  have "map_of (in_flight sample_engine) (1, 7) = Some sample_entry"
    by (simp add: sample_engine_in_flight)
  from unacknowledged_delivery_is_handed_over [OF sample_engine_inv sample_queues_invar this _ _ run]
  show ?thesis by (simp add: sample_entry_def)
qed

text \<open>
  C21: a turn of the scanner, exactly. It takes out of the table the deliveries whose
  deadline is not after \<open>now\<close>, each once and no other, and appends their messages to the
  main queue (retry count incremented) or the dead-letter queue (topic prefixed) according
  to the retries left; when one of the queues has no room for them, it waits. The entries
  of the heap that belong to acknowledged or newer deliveries have no effect.
\<close>

theorem redelivery_pass_exact:
  assumes "ack_inv ae" and "queues_invar qs"
  shows "\<exists>es dl. mset es = filter_mset (\<lambda>(k, e). deadline e \<le> now) (mset (in_flight ae)) \<and>
    redelivery_pass now ae qs =
      (if room_for (retried ae (map snd es)) (main_queue qs) \<and> room_for (buried ae (map snd es)) (dlq qs)
       then Done (ae\<lparr>deadlines := dl, in_flight := filter (\<lambda>(k, e). now < deadline e) (in_flight ae)\<rparr>,
         qs\<lparr>main_queue := enqueue (retried ae (map snd es)) (main_queue qs),
            dlq := enqueue (buried ae (map snd es)) (dlq qs)\<rparr>)
       else Blocked)"
proof -
  have neg: "(\<lambda>x. \<not> (case x of (k, e) \<Rightarrow> deadline e \<le> now)) = (\<lambda>(k :: delivery, e). now < deadline e)"
    by (auto simp: fun_eq_iff)
  show ?thesis
    using scan.exact [OF assms, of now] unfolding neg accepts_def hand_over_def
    by (elim exE) (rule exI, rule exI, auto split: if_splits)
qed

theorem redelivery_pass_exact_witness:
  "\<exists>es. mset es = filter_mset (\<lambda>(k, e). deadline e \<le> 6000) (mset (in_flight sample_engine)) \<and>
    (\<exists>ae' qs'. redelivery_pass 6000 sample_engine sample_queues = Done (ae', qs') \<and> in_flight ae' = [])"
  using redelivery_pass_exact [OF sample_engine_inv sample_queues_invar, of 6000]
  by (auto simp: sample_engine_in_flight sample_entry_def sample_queues_def new_queue_def room_for_def
      retried_def buried_def split: if_splits)

text \<open>
  The behaviour of \<open>nack\<close> on every branch. A delivery that is not in flight changes nothing; a delivery
  with retries left goes to the back of the main queue with its retry count incremented; a
  delivery with none left goes to the dead-letter queue; in both cases exactly this
  delivery leaves the table, and a full queue makes the caller wait.
\<close>

theorem nack_exact:
  assumes "ack_inv ae"
  shows "nack ae now mid cid qs =
    (case map_of (in_flight ae) (mid, cid) of
       None \<Rightarrow> Done (ae, qs)
     | Some e \<Rightarrow>
         let ae' = ae\<lparr>in_flight := filter (\<lambda>(k, e). k \<noteq> (mid, cid)) (in_flight ae)\<rparr> in
         if retry_count (fl_msg e) < max_retries ae then
           (if length (queue (main_queue qs)) < capacity (main_queue qs)
            then Done (ae', qs\<lparr>main_queue := enqueue [(fl_msg e)\<lparr>retry_count := retry_count (fl_msg e) + 1\<rparr>] (main_queue qs)\<rparr>)
            else Blocked)
         else
           (if length (queue (dlq qs)) < capacity (dlq qs)
            then Done (ae', qs\<lparr>dlq := enqueue [\<lparr>msg_id = mid, topic = ''$DLQ.'' @ topic (fl_msg e),
                   body = body (fl_msg e), retry_count = 0\<rparr>] (dlq qs)\<rparr>)
            else Blocked))"
proof (cases "map_of (in_flight ae) (mid, cid)")
  case (Some e)
  have om: "om_invar (in_flight ae)" using assms by (simp add: ack_inv_def)
  from Some assms have "entry_ok ((mid, cid), e)"
    using om.in_items_iff [OF om] by (auto simp: ack_inv_def)
  with Some show ?thesis
    by (auto simp: nack_def requeue_or_dlq_eq om_delete_filter [OF om] entry_ok_def requeue_msg_def dead_letter_def)
qed (simp add: nack_def)

theorem nack_exact_witness:
  "ack_inv sample_engine \<and> nack sample_engine 10 1 7 sample_queues =
     Done (sample_engine\<lparr>in_flight := []\<rparr>, sample_queues\<lparr>main_queue :=
       enqueue [(new_message\<lparr>msg_id := 1, topic := ''a''\<rparr>)\<lparr>retry_count := 1\<rparr>] (new_queue 10)\<rparr>)"
  using nack_exact [OF sample_engine_inv, of 10 1 7 sample_queues]
  by (simp add: sample_engine_in_flight sample_engine_inv sample_entry_def sample_queues_def new_queue_def)

text \<open>
  C20: no failure loses or duplicates a message. Whichever of the three failure paths runs,
  the ids and bodies held by the table, the main queue and the dead-letter queue together
  are the same, counted with multiplicity, before and after.
\<close>

theorem failures_conserve_messages:
  assumes "ack_inv ae" and "queues_invar qs"
    and "nack ae now mid cid qs = Done (ae', qs') \<or> client_disconnected ae now cid qs = Done (ae', qs') \<or>
      redelivery_pass now ae qs = Done (ae', qs')"
  shows "ledger ae' qs' = ledger ae qs"
  using assms(3) nk.conserves [OF assms(1,2)] gone.conserves [OF assms(1,2)] scan.conserves [OF assms(1,2)] by blast

theorem failures_conserve_messages_witness:
  "ledger (sample_engine\<lparr>in_flight := []\<rparr>) (sample_queues\<lparr>main_queue :=
     enqueue [(new_message\<lparr>msg_id := 1, topic := ''a''\<rparr>)\<lparr>retry_count := 1\<rparr>] (new_queue 10)\<rparr>) = ledger sample_engine sample_queues"
proof -
  have "nack sample_engine 10 1 7 sample_queues = Done (sample_engine\<lparr>in_flight := []\<rparr>, sample_queues\<lparr>main_queue :=
      enqueue [(new_message\<lparr>msg_id := 1, topic := ''a''\<rparr>)\<lparr>retry_count := 1\<rparr>] (new_queue 10)\<rparr>)"
    by (simp add: nack_def sample_engine_in_flight requeue_or_dlq_eq sample_entry_def sample_queues_def new_queue_def
        requeue_msg_def)
  then show ?thesis
    using failures_conserve_messages [OF sample_engine_inv sample_queues_invar] by blast
qed

text \<open>
  An acknowledgement takes exactly its delivery out of the table, although the deadline
  stays in the heap: a later turn of the scanner hands over only other deliveries, those
  of the same message to other clients included.
\<close>

theorem acknowledged_delivery_is_not_redelivered:
  assumes "ack_inv ae" and "queues_invar qs" and "redelivery_pass now (ack ae mid cid) qs = Done (ae', qs')"
  shows "map_of (in_flight (ack ae mid cid)) = (map_of (in_flight ae))((mid, cid) := None) \<and>
    deadlines (ack ae mid cid) = deadlines ae \<and>
    (\<exists>es. mset es = filter_mset (\<lambda>(k, e). k \<noteq> (mid, cid) \<and> deadline e \<le> now) (mset (in_flight ae)) \<and>
      queue (main_queue qs') = queue (main_queue qs) @ retried ae (map snd es) \<and>
      queue (dlq qs') = queue (dlq qs) @ buried ae (map snd es))"
proof -
  have om: "om_invar (in_flight ae)" using assms(1) by (simp add: ack_inv_def)
  have "map_of (in_flight (ack ae mid cid)) = (map_of (in_flight ae))((mid, cid) := None)"
    "deadlines (ack ae mid cid) = deadlines ae"
    by (auto simp: ack_def map_of_om_delete [OF om] split: option.split)
  moreover obtain es where es: "mset es = filter_mset (\<lambda>(k, e). deadline e \<le> now) (mset (in_flight (ack ae mid cid)))"
    "qs' = hand_over (ack ae mid cid) (map snd es) qs"
    using scan.exact [OF ack_inv_ack [OF assms(1), of mid cid] assms(2), of now] assms(3) by (auto split: if_splits)
  moreover have "filter_mset (\<lambda>(k, e). deadline e \<le> now) (mset (in_flight (ack ae mid cid))) =
      filter_mset (\<lambda>(k, e). k \<noteq> (mid, cid) \<and> deadline e \<le> now) (mset (in_flight ae))"
    by (auto simp: ack_eq [OF assms(1)] filter_filter_mset intro!: filter_mset_cong)
  moreover have "retried (ack ae mid cid) = retried ae" "buried (ack ae mid cid) = buried ae"
    by (simp_all add: retried_def buried_def fun_eq_iff)
  ultimately show ?thesis
    by (intro conjI exI [of _ es]) (simp_all add: hand_over_def)
qed

theorem acknowledged_delivery_is_not_redelivered_witness:
  "\<exists>es. mset es = filter_mset (\<lambda>(k, e). k \<noteq> (1, 7) \<and> deadline e \<le> 6000) (mset (in_flight sample_engine)) \<and>
     queue (main_queue sample_queues) = queue (main_queue sample_queues) @ retried sample_engine (map snd es)"
proof -
  have "redelivery_pass 6000 (ack sample_engine 1 7) sample_queues =
      Done (sample_engine\<lparr>in_flight := [], deadlines := []\<rparr>, sample_queues)"
    by (simp add: sample_engine_def track_def new_ack_engine_def ack_def pq_push_def redelivery_pass.simps)
  from acknowledged_delivery_is_not_redelivered [OF sample_engine_inv sample_queues_invar this]
  show ?thesis by blast
qed



text \<open>
  The table has one slot per message id and client. When a second message with the same
  id is delivered to the same client, which a publisher that chooses its own ids can
  bring about, it takes the place of the first: one acknowledgement settles both, and a
  failure hands over only the second.
\<close>

theorem track_overwrites_same_id:
  assumes "ack_inv ae" and "msg_id m1 = msg_id m2"
  shows "map_of (in_flight (track (track ae t1 m1 c) t2 m2 c)) (msg_id m1, c) =
      Some \<lparr>fl_msg = m2, subscriber_id = c, deadline = t2 + ack_timeout ae, fl_retry = retry_count m2\<rparr> \<and>
    mset (in_flight (track (track ae t1 m1 c) t2 m2 c)) = mset (in_flight (track ae t2 m2 c)) \<and>
    map_of (in_flight (ack (track (track ae t1 m1 c) t2 m2 c) (msg_id m1) c)) (msg_id m1, c) = None"
proof -
  have om: "om_invar (in_flight ae)" using assms(1) by (simp add: ack_inv_def)
  note om' = om_invar_update [OF om]
  have "mset (om_update k v (om_update k w (in_flight ae))) = mset (om_update k v (in_flight ae))" for k v w
    by (simp add: om.mset_items om om' om_invar_update map_of_om_update)
  then show ?thesis
    using assms(2) by (simp add: track_def Let_def ack_def map_of_om_update map_of_om_delete om' om_invar_update)
qed

theorem track_overwrites_same_id_witness:
  "map_of (in_flight (track sample_engine 5 (new_message\<lparr>msg_id := 1, topic := ''b''\<rparr>) 7)) (1, 7) =
     Some \<lparr>fl_msg = new_message\<lparr>msg_id := 1, topic := ''b''\<rparr>, subscriber_id = 7, deadline = 5005, fl_retry = 0\<rparr>"
  using track_overwrites_same_id [OF ack_inv_new, of "new_message\<lparr>msg_id := 1, topic := ''a''\<rparr>"
      "new_message\<lparr>msg_id := 1, topic := ''b''\<rparr>" 5000 3 0 7 5]
  by (simp add: sample_engine_def) (simp add: new_ack_engine_def)

end
