(* ===== verification/MQ_Broker.thy ===== *)
theory MQ_Broker
  imports MQ_TopicRouter MQ_TcpServer MQ_Wal MQ_AckEngine
begin

text \<open>
  \<open>main.cpp\<close>: the configuration, the start-up, the frame handler, the dispatcher and the
  dead-letter logger, composed from the components as the code composes them. A clock
  reading and the results of socket calls are arguments of the operations that use them.
\<close>

section \<open>Configuration\<close>

text \<open>
  \<open>std::stoi\<close>: leading white space, an optional sign, then at least one digit; what follows
  the digits is ignored. The two exceptions are the strings of their types.
\<close>

definition is_digit :: "char \<Rightarrow> bool" where
  "is_digit c \<longleftrightarrow> of_char CHR ''0'' \<le> (of_char c :: nat) \<and> (of_char c :: nat) \<le> of_char CHR ''9''"

definition is_space :: "char \<Rightarrow> bool" where
  "is_space c \<longleftrightarrow> c \<in> {CHR '' '', CHR 0x09, CHR 0x0A, CHR 0x0B, CHR 0x0C, CHR 0x0D}"

definition stoi :: "string \<Rightarrow> string + int" where
  "stoi s =
     (let s1 = dropWhile is_space s;
          neg = (s1 \<noteq> [] \<and> hd s1 = CHR ''-'');
          s2 = (if s1 \<noteq> [] \<and> hd s1 \<in> {CHR ''-'', CHR ''+''} then tl s1 else s1);
          ds = takeWhile is_digit s2;
          v = (if neg then - int (digits_val ds) else int (digits_val ds))
      in if ds = [] then Inl ''std::invalid_argument''
         else if v < - (2 ^ 31) \<or> 2 ^ 31 \<le> v then Inl ''std::out_of_range''
         else Inr v)"

record Config =
  TCP_PORT :: u16
  QUEUE_CAP :: u64
  MAX_RETRIES :: int
  ACK_TIMEOUT :: int
  WAL_PATH :: string

definition env_or :: "(string \<Rightarrow> string option) \<Rightarrow> string \<Rightarrow> string \<Rightarrow> string" where
  "env_or getenv key def = (case getenv key of Some v \<Rightarrow> v | None \<Rightarrow> def)"

fun sbind :: "'e + 'a \<Rightarrow> ('a \<Rightarrow> 'e + 'b) \<Rightarrow> 'e + 'b" where
  "sbind (Inl e) f = Inl e"
| "sbind (Inr x) f = f x"

definition load_config :: "(string \<Rightarrow> string option) \<Rightarrow> string + Config" where
  "load_config getenv =
     sbind (stoi (env_or getenv ''TCP_PORT'' ''9099'')) (\<lambda>tcp_port.
     sbind (stoi (env_or getenv ''QUEUE_CAPACITY'' ''10000'')) (\<lambda>queue_cap.
     sbind (stoi (env_or getenv ''MAX_RETRIES'' ''3'')) (\<lambda>retries.
     sbind (stoi (env_or getenv ''ACK_TIMEOUT_MS'' ''5000'')) (\<lambda>timeout.
     Inr \<lparr>TCP_PORT = word_of_int tcp_port, QUEUE_CAP = word_of_int queue_cap, MAX_RETRIES = retries,
          ACK_TIMEOUT = timeout, WAL_PATH = env_or getenv ''WAL_PATH'' ''./data/broker.wal''\<rparr>))))"


section \<open>The broker\<close>

text \<open>The objects the threads of \<open>main\<close> share; \<open>server_ptr\<close> is null until the server exists.\<close>

record Broker =
  queues :: Queues
  wal :: WalWriter
  router :: TopicRouter
  ack_engine :: AckEngine
  next_id :: u64
  server_ptr :: "TcpServer option"

text \<open>The server is made and started once everything it refers to exists; \<open>Inl\<close> is the exception that ends \<open>main\<close>.\<close>

definition boot_server :: "Config \<Rightarrow> Broker \<Rightarrow> int \<Rightarrow> int \<Rightarrow> int \<Rightarrow> string + Broker" where
  "boot_server cfg b socket_res bind_res listen_res =
     (case start (new_server (TCP_PORT cfg)) socket_res bind_res listen_res of
        (Some e, s) \<Rightarrow> Inl e
      | (None, s) \<Rightarrow> Inr (b\<lparr>server_ptr := Some s\<rparr>))"

text \<open>
  The start of \<open>main\<close>: \<open>Inl\<close> is the message of the exception that ends the process. The
  arguments are whether the log file opens, its content, whether it opens again for
  reading, and the results of \<open>socket\<close>, \<open>bind\<close> and \<open>listen\<close>.
\<close>

definition boot :: "Config \<Rightarrow> bool \<Rightarrow> bytes \<Rightarrow> bool \<Rightarrow> int \<Rightarrow> int \<Rightarrow> int \<Rightarrow> (string + Broker) outcome" where
  "boot cfg is_open content readable socket_res bind_res listen_res =
     (let main_q = new_queue (unat (QUEUE_CAP cfg)); dl_q = new_queue (unat (QUEUE_CAP cfg)) in
      case open_wal (WAL_PATH cfg) is_open content of
        Inl e \<Rightarrow> Done (Inl e)
      | Inr w \<Rightarrow>
          obind (replay (if readable then Some (wal_file w) else None) main_q) (\<lambda>main_q'.
          let b = \<lparr>queues = \<lparr>main_queue = main_q', dlq = dl_q\<rparr>, wal = w, router = new_router,
                   ack_engine = new_ack_engine (ACK_TIMEOUT cfg) (MAX_RETRIES cfg),
                   next_id = 1, server_ptr = None\<rparr>
          in Done (boot_server cfg b socket_res bind_res listen_res)))"

definition send_frame :: "(nat \<Rightarrow> int \<Rightarrow> int) \<Rightarrow> ClientId \<Rightarrow> bytes \<Rightarrow> Broker \<Rightarrow> Broker" where
  "send_frame os_send cid frame b = b\<lparr>server_ptr := map_option (\<lambda>s. send_to os_send s cid frame) (server_ptr b)\<rparr>"

text \<open>\<open>main_queue.push\<close> on the shared state.\<close>

definition push_main :: "Message \<Rightarrow> Broker \<Rightarrow> Broker outcome" where
  "push_main m b = obind (push (main_queue (queues b)) m) (\<lambda>q. Done (b\<lparr>queues := (queues b)\<lparr>main_queue := q\<rparr>\<rparr>))"

definition on_frame :: "(nat \<Rightarrow> int \<Rightarrow> int) \<Rightarrow> time_point \<Rightarrow> Broker frame_handler" where
  "on_frame os_send now cid ty mid payload b =
     (case ty of
        SUBSCRIBE \<Rightarrow>
          obind (decode_subscribe payload) (\<lambda>sub.
          if sub_topic sub = [] then Done b
          else Done (b\<lparr>router := subscribe (router b) (sub_topic sub) (sub_group sub) cid\<rparr>))
      | PUBLISH \<Rightarrow>
          obind (decode_publish payload) (\<lambda>pub.
          if pub_topic pub = [] then Done b
          else
            let (new_id, next') = (if mid \<noteq> 0 then (mid, next_id b) else (next_id b, next_id b + 1));
                msg = new_message\<lparr>msg_id := new_id, topic := pub_topic pub, body := pub_body pub\<rparr>;
                b1 = b\<lparr>next_id := next'\<rparr>;
                b2 = b1\<lparr>wal := append (wal b1) msg\<rparr>
            in push_main msg b2)
      | ACK \<Rightarrow>
          (let b1 = b\<lparr>ack_engine := ack (ack_engine b) mid cid\<rparr>
           in Done (b1\<lparr>wal := acknowledge (wal b1) mid\<rparr>))
      | NACK \<Rightarrow>
          obind (nack (ack_engine b) now mid cid (queues b)) (\<lambda>(ae, qs).
          Done (b\<lparr>ack_engine := ae, queues := qs\<rparr>))
      | HEARTBEAT \<Rightarrow>
          (case server_ptr b of
             None \<Rightarrow> Done b
           | Some _ \<Rightarrow> Done (send_frame os_send cid (encode_ack_frame HEARTBEAT 0) b))
      | ERROR_RESP \<Rightarrow>
          (let b1 = b\<lparr>router := unsubscribe (router b) cid\<rparr>
           in obind (client_disconnected (ack_engine b1) now cid (queues b1)) (\<lambda>(ae, qs).
              Done (b1\<lparr>ack_engine := ae, queues := qs\<rparr>)))
      | _ \<Rightarrow> Done b)"

text \<open>
  A turn of the dispatcher. \<open>clock k\<close> and \<open>os_send k\<close> are the clock reading and the socket of
  the \<open>k\<close>-th target.
\<close>

fun dispatch_targets :: "(nat \<Rightarrow> nat \<Rightarrow> int \<Rightarrow> int) \<Rightarrow> (nat \<Rightarrow> time_point) \<Rightarrow> nat \<Rightarrow> Message \<Rightarrow>
    (ClientId \<times> u64) list \<Rightarrow> Broker \<Rightarrow> Broker" where
  "dispatch_targets os_send clock k msg [] b = b"
| "dispatch_targets os_send clock k msg ((client_id, routed_msg_id) # targets) b =
     (let b1 = b\<lparr>ack_engine := track (ack_engine b) (clock k) msg client_id\<rparr>;
          frame = encode_frame EVENT_DATA (msg_id msg) (topic msg) (body msg)
      in dispatch_targets os_send clock (Suc k) msg targets (send_frame (os_send k) client_id frame b1))"

definition dispatcher_step :: "(nat \<Rightarrow> nat \<Rightarrow> int \<Rightarrow> int) \<Rightarrow> (nat \<Rightarrow> time_point) \<Rightarrow> Broker \<Rightarrow> Broker" where
  "dispatcher_step os_send clock b =
     (case try_pop_for (main_queue (queues b)) of
        (None, q) \<Rightarrow> b\<lparr>queues := (queues b)\<lparr>main_queue := q\<rparr>\<rparr>
      | (Some msg, q) \<Rightarrow>
          (let b1 = b\<lparr>queues := (queues b)\<lparr>main_queue := q\<rparr>\<rparr>;
               (targets, r) = route (router b1) msg;
               b2 = b1\<lparr>router := r\<rparr>
           in if targets = [] then b2 else dispatch_targets os_send clock 0 msg targets b2))"

text \<open>A turn of the dead-letter logger: the dead letter goes back to the main queue, followed
  by an audit event with an id of its own.\<close>

definition audit_body :: "Message \<Rightarrow> string" where
  "audit_body m =
     (let orig_body = string_of_bytes (body m)
      in ''{\"original_id\": \"'' @ to_string (uint (msg_id m)) @
         ''\", \"original_topic\": \"'' @ topic m @ ''\"'' @
         '', \"original_body\": '' @ (if orig_body = [] then ''{}'' else orig_body) @ ''}'')"

definition dlq_logger_step :: "Broker \<Rightarrow> Broker outcome" where
  "dlq_logger_step b =
     (case try_pop_for (dlq (queues b)) of
        (None, q) \<Rightarrow> Done (b\<lparr>queues := (queues b)\<lparr>dlq := q\<rparr>\<rparr>)
      | (Some opt, q) \<Rightarrow>
          obind (push_main opt (b\<lparr>queues := (queues b)\<lparr>dlq := q\<rparr>\<rparr>)) (\<lambda>b1.
          let sys_msg = new_message\<lparr>msg_id := next_id b1, topic := ''$SYS.dlq'',
                body := bytes_of_string (audit_body opt)\<rparr>;
              b2 = b1\<lparr>next_id := next_id b1 + 1\<rparr>;
              b3 = b2\<lparr>wal := append (wal b2) sys_msg\<rparr>
          in push_main sys_msg b3))"

text \<open>The threads of the components: a turn of the scanner, the two halves of a flush, an
  accepted connection, the end of a connection, and the graceful shutdown.\<close>

definition scanner_step :: "time_point \<Rightarrow> Broker \<Rightarrow> Broker outcome" where
  "scanner_step now b =
     obind (redelivery_pass now (ack_engine b) (queues b)) (\<lambda>(ae, qs). Done (b\<lparr>ack_engine := ae, queues := qs\<rparr>))"

definition close_connection :: "ClientId \<Rightarrow> Broker \<Rightarrow> Broker" where
  "close_connection cid b = b\<lparr>server_ptr := map_option (close_client cid) (server_ptr b)\<rparr>"

definition shutdown :: "Broker \<Rightarrow> Broker" where
  "shutdown b =
     (let b1 = b\<lparr>ack_engine := stop_ack_engine (ack_engine b)\<rparr>;
          b2 = b1\<lparr>server_ptr := map_option stop (server_ptr b1)\<rparr>
      in b2\<lparr>wal := close_wal (wal b2)\<rparr>)"


text \<open>The destructors of the server and of the engine, which run when \<open>main\<close> returns.\<close>

definition destroy_server :: "TcpServer \<Rightarrow> TcpServer" where
  "destroy_server s = stop s"

definition destroy_ack_engine :: "AckEngine \<Rightarrow> AckEngine" where
  "destroy_ack_engine ae = stop_ack_engine ae"

text \<open>Both were stopped before, so the destructors find nothing to do.\<close>

lemma destructors_after_shutdown:
  "map_option destroy_server (server_ptr (shutdown b)) = server_ptr (shutdown b)"
  "destroy_ack_engine (ack_engine (shutdown b)) = ack_engine (shutdown b)"
proof -
  have "stop (stop s) = stop s" for s by (simp add: stop_def Let_def)
  then show "map_option destroy_server (server_ptr (shutdown b)) = server_ptr (shutdown b)"
    by (simp add: destroy_server_def shutdown_def Let_def option.map_comp comp_def)
  show "destroy_ack_engine (ack_engine (shutdown b)) = ack_engine (shutdown b)"
    by (simp add: destroy_ack_engine_def shutdown_def stop_ack_engine_def Let_def)
qed


section \<open>Critical sections\<close>

text \<open>
  The threads of the broker interleave between the critical sections of the components.
  One step of \<open>component_call\<close> is one critical section, made by any thread with any
  arguments the code can pass; a push that waits has not made its step yet. Inside a
  method of the engine that fails several deliveries, the failure of one delivery is a
  step, since the queue it is pushed to is visible to other threads at once.
\<close>

definition retry_limit :: "Broker \<Rightarrow> int" where
  "retry_limit b = max 0 (max_retries (ack_engine b))"

inductive component_call :: "Broker \<Rightarrow> Broker \<Rightarrow> bool" where
  c_subscribe: "component_call b (b\<lparr>router := subscribe (router b) t g cid\<rparr>)"
| c_unsubscribe: "component_call b (b\<lparr>router := unsubscribe (router b) cid\<rparr>)"
| c_route: "component_call b (b\<lparr>router := snd (route (router b) m)\<rparr>)"
| c_next_id: "component_call b (b\<lparr>next_id := next_id b + 1\<rparr>)"
| c_append: "record_ok (publish_record m) \<Longrightarrow> component_call b (b\<lparr>wal := append (wal b) m\<rparr>)"
| c_acknowledge: "component_call b (b\<lparr>wal := acknowledge (wal b) mid\<rparr>)"
| c_swap: "\<not> flushing (wal b) \<Longrightarrow> component_call b (b\<lparr>wal := flush_swap (wal b)\<rparr>)"
| c_write: "flushing (wal b) \<Longrightarrow> component_call b (b\<lparr>wal := flush_write (wal b)\<rparr>)"
| c_push: "retry_count m = 0 \<Longrightarrow> push_main m b = Done b' \<Longrightarrow> component_call b b'"
| c_pop_main: "component_call b (b\<lparr>queues := (queues b)\<lparr>main_queue := snd (try_pop_for (main_queue (queues b)))\<rparr>\<rparr>)"
| c_pop_dlq: "component_call b (b\<lparr>queues := (queues b)\<lparr>dlq := snd (try_pop_for (dlq (queues b)))\<rparr>\<rparr>)"
| c_track: "0 \<le> retry_count m \<Longrightarrow> retry_count m \<le> retry_limit b \<Longrightarrow>
    component_call b (b\<lparr>ack_engine := track (ack_engine b) now m cid\<rparr>)"
| c_ack: "component_call b (b\<lparr>ack_engine := ack (ack_engine b) mid cid\<rparr>)"
| c_fail: "map_of (in_flight (ack_engine b)) k = Some e \<Longrightarrow>
    requeue_or_dlq (ack_engine b) now e (queues b) = Done (e', qs) \<Longrightarrow>
    component_call b (b\<lparr>ack_engine := (ack_engine b)\<lparr>in_flight := om_delete k (in_flight (ack_engine b))\<rparr>, queues := qs\<rparr>)"
| c_expire: "deadlines (ack_engine b) = (due, k) # rest \<Longrightarrow> map_of (in_flight (ack_engine b)) k = Some e \<Longrightarrow>
    \<not> due < deadline e \<Longrightarrow> requeue_or_dlq (ack_engine b) now e (queues b) = Done (e', qs) \<Longrightarrow>
    component_call b (b\<lparr>ack_engine := (ack_engine b)\<lparr>deadlines := rest,
      in_flight := om_delete k (in_flight (ack_engine b))\<rparr>, queues := qs\<rparr>)"
| c_stale: "deadlines (ack_engine b) = (due, k) # rest \<Longrightarrow>
    (\<forall>e. map_of (in_flight (ack_engine b)) k = Some e \<longrightarrow> due < deadline e) \<Longrightarrow>
    component_call b (b\<lparr>ack_engine := (ack_engine b)\<lparr>deadlines := rest\<rparr>\<rparr>)"
| c_send: "component_call b (send_frame os_send cid frame b)"
| c_accept: "server_ptr b = Some s \<Longrightarrow> accept_step s sock = Some (cid, s') \<Longrightarrow>
    component_call b (b\<lparr>server_ptr := Some s'\<rparr>)"
| c_close: "component_call b (close_connection cid b)"

inductive_simps component_call_iff: "component_call b b'"

abbreviation calls :: "Broker \<Rightarrow> Broker \<Rightarrow> bool" where
  "calls \<equiv> component_call\<^sup>*\<^sup>*"

definition fair_retries :: "int \<Rightarrow> Message list \<Rightarrow> bool" where
  "fair_retries limit ms \<longleftrightarrow> (\<forall>m \<in> set ms. 0 \<le> retry_count m \<and> retry_count m \<le> limit)"

definition server_inv :: "TcpServer \<Rightarrow> bool" where
  "server_inv s \<longleftrightarrow> um_invar (clients s) \<and> (\<forall>cid sock. map_of (clients s) cid = Some sock \<longrightarrow> sock = cid \<and> sock \<noteq> INVALID_SOCK)"

text \<open>
  The invariant of the shared state: every component is well formed, no message carries more
  retries than the limit, dead letters start afresh, every client identifier is the socket
  it was accepted on, and the log is a sequence of whole records.
\<close>

definition broker_inv :: "Broker \<Rightarrow> bool" where
  "broker_inv b \<longleftrightarrow> router_inv (router b) \<and> ack_inv (ack_engine b) \<and> queues_invar (queues b) \<and>
     fair_retries (retry_limit b) (queue (main_queue (queues b))) \<and>
     fair_retries 0 (queue (dlq (queues b))) \<and>
     fair_retries (retry_limit b) (map (\<lambda>(k, e). fl_msg e) (in_flight (ack_engine b))) \<and>
     (\<forall>s. server_ptr b = Some s \<longrightarrow> server_inv s) \<and> (\<exists>rs. wal_inv (wal b) rs)"

lemma send_to_clients [simp]: "clients (send_to os_send s cid frame) = clients s"
  by (simp add: send_to_def split: option.split)

lemma server_inv_send: "server_inv s \<Longrightarrow> server_inv (send_to os_send s cid frame)"
  by (simp add: server_inv_def)

lemma server_inv_accept: "server_inv s \<Longrightarrow> accept_step s sock = Some (cid, s') \<Longrightarrow> server_inv s'"
  unfolding server_inv_def accept_step_def
  by (split if_split_asm, simp, split if_split_asm, simp) (force simp: um.invar_update update_conv')

lemma server_inv_close: "server_inv s \<Longrightarrow> server_inv (close_client cid s)"
  by (auto simp: server_inv_def close_client_def um.invar_delete AList.delete_conv' split: if_splits)

lemma fair_retries_simps [simp]:
  "fair_retries l []" "fair_retries l (m # ms) \<longleftrightarrow> 0 \<le> retry_count m \<and> retry_count m \<le> l \<and> fair_retries l ms"
  "fair_retries l (ms @ ms') \<longleftrightarrow> fair_retries l ms \<and> fair_retries l ms'"
  by (auto simp: fair_retries_def)

lemma fair_retries_subset: "fair_retries l ms \<Longrightarrow> set ms' \<subseteq> set ms \<Longrightarrow> fair_retries l ms'"
  by (auto simp: fair_retries_def)

lemma fair_retries_delete:
  "fair_retries l (map f m) \<Longrightarrow> fair_retries l (map f (om_delete k m))"
  by (erule fair_retries_subset) (use om_set_delete [of k m] in auto)

lemma retry_limit_simps [simp]:
  "retry_limit (b\<lparr>queues := qs\<rparr>) = retry_limit b" "retry_limit (b\<lparr>router := r\<rparr>) = retry_limit b"
  "retry_limit (b\<lparr>wal := w\<rparr>) = retry_limit b" "retry_limit (b\<lparr>next_id := n\<rparr>) = retry_limit b"
  "retry_limit (b\<lparr>server_ptr := s\<rparr>) = retry_limit b"
  by (simp_all add: retry_limit_def)

text \<open>A failed delivery keeps the retry counts within the limit.\<close>

lemma fair_retries_hand_over:
  assumes "entry_ok (k, e)" "fair_retries (max 0 (max_retries ae)) [fl_msg e]"
    and "fair_retries (max 0 (max_retries ae)) (queue (main_queue qs))" "fair_retries 0 (queue (dlq qs))"
  shows "fair_retries (max 0 (max_retries ae)) (queue (main_queue (hand_over ae [e] qs))) \<and>
    fair_retries 0 (queue (dlq (hand_over ae [e] qs)))"
  using assms by (auto simp: hand_over_def retried_def buried_def requeue_msg_def dead_letter_def entry_ok_def)

lemma broker_inv_fail:
  assumes "broker_inv b" "map_of (in_flight (ack_engine b)) k = Some e"
    and "requeue_or_dlq (ack_engine b) now e (queues b) = Done (e', qs)"
  shows "broker_inv (b\<lparr>ack_engine := (ack_engine b)\<lparr>in_flight := om_delete k (in_flight (ack_engine b))\<rparr>, queues := qs\<rparr>)"
proof -
  let ?ae = "ack_engine b"
  have "(k, e) \<in> set (in_flight ?ae)"
    using assms(2) by (rule map_of_SomeD)
  then have "entry_ok (k, e)" "fair_retries (max 0 (max_retries ?ae)) [fl_msg e]"
    using assms(1) by (auto simp: broker_inv_def ack_inv_def fair_retries_def retry_limit_def)
  moreover have "qs = hand_over ?ae [e] (queues b)" "queues_invar (hand_over ?ae [e] (queues b))"
    using requeue_or_dlq_DoneD [OF assms(3)] assms(1) by (auto simp: broker_inv_def)
  ultimately show ?thesis
    using assms(1) fair_retries_hand_over [of k e ?ae "queues b"]
    by (auto simp: broker_inv_def retry_limit_def ack_inv_delete fair_retries_delete)
qed

lemma broker_inv_pop:
  assumes "broker_inv b" "deadlines (ack_engine b) = (due, k) # rest"
    and "\<forall>e. map_of (in_flight (ack_engine b)) k = Some e \<longrightarrow> deadline e \<noteq> due"
  shows "broker_inv (b\<lparr>ack_engine := (ack_engine b)\<lparr>deadlines := rest\<rparr>\<rparr>)"
  using assms ack_inv_pop [OF _ assms(2,3)] by (auto simp: broker_inv_def retry_limit_def)

lemma set_try_pop_for: "set (queue (snd (try_pop_for q))) \<subseteq> set (queue q)"
  by (auto simp: try_pop_for_def split: list.split)

lemma broker_inv_track:
  assumes "broker_inv b" "0 \<le> retry_count m" "retry_count m \<le> retry_limit b"
  shows "broker_inv (b\<lparr>ack_engine := track (ack_engine b) now m cid\<rparr>)"
proof -
  let ?ae = "ack_engine b"
  have "set (map (\<lambda>(k, e). fl_msg e) (in_flight (track ?ae now m cid))) \<subseteq>
      set (m # map (\<lambda>(k, e). fl_msg e) (in_flight ?ae))"
    by (force simp: track_def Let_def dest!: om_set_update)
  moreover have "fair_retries (retry_limit b) (m # map (\<lambda>(k, e). fl_msg e) (in_flight ?ae))"
    using assms by (simp add: broker_inv_def)
  ultimately have "fair_retries (retry_limit b) (map (\<lambda>(k, e). fl_msg e) (in_flight (track ?ae now m cid)))"
    by (rule fair_retries_subset [rotated])
  with assms(1) show ?thesis
    by (simp add: broker_inv_def retry_limit_def ack_inv_track)
qed

lemma broker_inv_ack:
  assumes "broker_inv b"
  shows "broker_inv (b\<lparr>ack_engine := ack (ack_engine b) mid cid\<rparr>)"
proof -
  have "fair_retries (retry_limit b) (map (\<lambda>(k, e). fl_msg e) (in_flight (ack (ack_engine b) mid cid)))"
    using assms by (auto simp: broker_inv_def ack_def fair_retries_delete split: option.split)
  with assms show ?thesis
    by (simp add: broker_inv_def retry_limit_def ack_inv_ack)
qed

lemma broker_inv_push:
  assumes "broker_inv b" "retry_count m = 0" "push_main m b = Done b'"
  shows "broker_inv b'"
proof -
  obtain q where q: "push (main_queue (queues b)) m = Done q" "b' = b\<lparr>queues := (queues b)\<lparr>main_queue := q\<rparr>\<rparr>"
    using assms(3) by (auto simp: push_main_def elim: obind_DoneE)
  moreover have "0 \<le> retry_limit b" by (simp add: retry_limit_def)
  ultimately show ?thesis
    using assms(1,2) push_invar [OF q(1)] sq.psh_DoneD [OF q(1)] by (simp add: broker_inv_def queues_invar_def)
qed

lemma broker_inv_router: "broker_inv b \<Longrightarrow> router_inv r \<Longrightarrow> broker_inv (b\<lparr>router := r\<rparr>)"
  by (simp add: broker_inv_def)

lemma broker_inv_wal: "broker_inv b \<Longrightarrow> \<forall>rs. wal_inv (wal b) rs \<longrightarrow> (\<exists>rs'. wal_inv w rs') \<Longrightarrow> broker_inv (b\<lparr>wal := w\<rparr>)"
  by (auto simp: broker_inv_def)

lemma broker_inv_server: "broker_inv b \<Longrightarrow> \<forall>s. sp = Some s \<longrightarrow> server_inv s \<Longrightarrow> broker_inv (b\<lparr>server_ptr := sp\<rparr>)"
  by (simp add: broker_inv_def)

lemma broker_inv_next_id: "broker_inv b \<Longrightarrow> broker_inv (b\<lparr>next_id := n\<rparr>)"
  by (simp add: broker_inv_def)

lemma broker_inv_parts:
  "broker_inv b \<Longrightarrow> router_inv (router b)" "broker_inv b \<Longrightarrow> ack_inv (ack_engine b)"
  "broker_inv b \<Longrightarrow> queues_invar (queues b)" "broker_inv b \<Longrightarrow> server_ptr b = Some s \<Longrightarrow> server_inv s"
  by (simp_all add: broker_inv_def)

lemma broker_inv_call: "component_call b b' \<Longrightarrow> broker_inv b \<Longrightarrow> broker_inv b'"
proof (induction rule: component_call.induct)
  case (c_pop_main b)
  then show ?case
    using set_try_pop_for [of "main_queue (queues b)"]
    by (auto simp: broker_inv_def queues_invar_def try_pop_for_invar intro: fair_retries_subset)
next
  case (c_pop_dlq b)
  then show ?case
    using set_try_pop_for [of "dlq (queues b)"]
    by (auto simp: broker_inv_def queues_invar_def try_pop_for_invar intro: fair_retries_subset)
next
  case (c_expire b due k rest e now e' qs)
  let ?b = "b\<lparr>ack_engine := (ack_engine b)\<lparr>in_flight := om_delete k (in_flight (ack_engine b))\<rparr>, queues := qs\<rparr>"
  have "om_invar (in_flight (ack_engine b))"
    using c_expire by (simp add: broker_inv_def ack_inv_def)
  then have "broker_inv (?b\<lparr>ack_engine := (ack_engine ?b)\<lparr>deadlines := rest\<rparr>\<rparr>)"
    using c_expire by (intro broker_inv_pop [of ?b due k] broker_inv_fail) (auto simp: map_of_om_delete)
  moreover have "?b\<lparr>ack_engine := (ack_engine ?b)\<lparr>deadlines := rest\<rparr>\<rparr> = b\<lparr>ack_engine := (ack_engine b)\<lparr>deadlines := rest,
      in_flight := om_delete k (in_flight (ack_engine b))\<rparr>, queues := qs\<rparr>"
    by (intro Broker.equality AckEngine.equality) simp_all
  ultimately show ?case by (simp only:)
next
  case (c_stale b due k rest)
  then show ?case by (intro broker_inv_pop) auto
next
  case (c_accept b s sock cid s')
  then show ?case using server_inv_accept [OF broker_inv_parts(4)] by (intro broker_inv_server) auto
qed (auto intro: broker_inv_push broker_inv_track broker_inv_ack broker_inv_fail
    broker_inv_router broker_inv_wal broker_inv_server broker_inv_next_id wal_inv_steps
    intro!: server_inv_send server_inv_close
    simp: broker_inv_parts router_inv_subscribe router_inv_unsubscribe router_inv_route
      send_frame_def close_connection_def)


section \<open>The handlers as sequences of critical sections\<close>

lemma calls_push: "retry_count m = 0 \<Longrightarrow> push_main m b = Done b' \<Longrightarrow> calls b b'"
  by (blast intro: c_push)

lemma broker_equal: "b\<lparr>queues := qs, ack_engine := ae\<rparr> = b\<lparr>ack_engine := ae, queues := qs\<rparr>" for b :: Broker
  by (rule Broker.equality) simp_all

text \<open>Failing the deliveries of a list one by one.\<close>

lemma calls_fail_all:
  assumes "distinct (map fst es)" "\<forall>(k, e) \<in> set es. map_of m k = Some e" "om_invar m"
    and "fail_all (ack_engine b) now (map snd es) (queues b) = Done qs" "in_flight (ack_engine b) = m"
  shows "calls b (b\<lparr>ack_engine := (ack_engine b)\<lparr>in_flight := fold om_delete (map fst es) m\<rparr>, queues := qs\<rparr>)"
  using assms
proof (induction es arbitrary: b m)
  case Nil
  then have "b\<lparr>ack_engine := (ack_engine b)\<lparr>in_flight := m\<rparr>, queues := qs\<rparr> = b"
    by (intro Broker.equality) auto
  then show ?case by simp
next
  case (Cons x es)
  obtain k e where x: "x = (k, e)" by (cases x)
  let ?ae = "ack_engine b"
  obtain e' qs1 where q: "requeue_or_dlq ?ae now e (queues b) = Done (e', qs1)" "fail_all ?ae now (map snd es) qs1 = Done qs"
    using Cons.prems(4) by (auto simp: x elim: obind_DoneE)
  let ?b = "b\<lparr>ack_engine := ?ae\<lparr>in_flight := om_delete k m\<rparr>, queues := qs1\<rparr>"
  have "component_call b (b\<lparr>ack_engine := ?ae\<lparr>in_flight := om_delete k (in_flight ?ae)\<rparr>, queues := qs1\<rparr>)"
    by (rule c_fail [OF _ q(1)]) (use Cons.prems x in simp)
  then have "component_call b ?b"
    using Cons.prems(5) by (simp only:)
  moreover have "calls ?b (?b\<lparr>ack_engine := (ack_engine ?b)\<lparr>in_flight := fold om_delete (map fst es) (om_delete k m)\<rparr>, queues := qs\<rparr>)"
    by (rule Cons.IH) (use Cons.prems q(2) in \<open>auto simp: x map_of_om_delete om_invar_delete rev_image_eqI\<close>)
  ultimately show ?case
    by (simp add: x converse_rtranclp_into_rtranclp broker_equal)
qed

lemma fold_om_delete:
  "om_invar m \<Longrightarrow> fold om_delete ks m = filter (\<lambda>(k, e). k \<notin> set ks) m"
proof (induction ks arbitrary: m)
  case (Cons k ks)
  then show ?case
    by (auto simp: om_delete_filter om_invar_filter intro!: filter_cong)
qed (simp add: case_prod_unfold)

lemma calls_nack:
  assumes "nack (ack_engine b) now mid cid (queues b) = Done (ae, qs)"
  shows "calls b (b\<lparr>ack_engine := ae, queues := qs\<rparr>)"
proof (cases "map_of (in_flight (ack_engine b)) (mid, cid)")
  case None
  with assms have "ae = ack_engine b" "qs = queues b" by (auto simp: nack_def)
  then show ?thesis by simp
next
  case (Some e)
  with assms obtain e' where "requeue_or_dlq (ack_engine b) now e (queues b) = Done (e', qs)"
    "ae = (ack_engine b)\<lparr>in_flight := om_delete (mid, cid) (in_flight (ack_engine b))\<rparr>"
    by (auto simp: nack_def elim!: obind_DoneE)
  with c_fail [OF Some this(1)] show ?thesis by blast
qed

lemma calls_disconnected:
  assumes "ack_inv (ack_engine b)" "client_disconnected (ack_engine b) now cid (queues b) = Done (ae, qs)"
  shows "calls b (b\<lparr>ack_engine := ae, queues := qs\<rparr>)"
proof -
  let ?m = "in_flight (ack_engine b)"
  let ?es = "filter (\<lambda>(k, e). subscriber_id e = cid) ?m"
  have om: "om_invar ?m" using assms(1) by (simp add: ack_inv_def)
  obtain qs' where q: "fail_all (ack_engine b) now (map snd ?es) (queues b) = Done qs'" "qs = qs'"
    "ae = (ack_engine b)\<lparr>in_flight := filter (\<lambda>(k, e). subscriber_id e \<noteq> cid) ?m\<rparr>"
    using assms(2) by (auto simp: client_disconnected_eq elim: obind_DoneE)
  have d: "distinct (map fst ?m)" by (rule om.distinct_items [OF om])
  have "k \<notin> set (map fst ?es) \<longleftrightarrow> subscriber_id e \<noteq> cid" if "(k, e) \<in> set ?m" for k e
    using that by (cases k) (auto simp: image_iff om.in_items_iff [OF om])
  then have "fold om_delete (map fst ?es) ?m = filter (\<lambda>(k, e). subscriber_id e \<noteq> cid) ?m"
    unfolding fold_om_delete [OF om] by (intro filter_cong refl) (simp only: case_prod_unfold prod.collapse)
  moreover have "calls b (b\<lparr>ack_engine := (ack_engine b)\<lparr>in_flight := fold om_delete (map fst ?es) ?m\<rparr>, queues := qs\<rparr>)"
  proof (rule calls_fail_all [where now = now, OF _ _ om _ refl])
    show "\<forall>(k, e) \<in> set ?es. map_of ?m k = Some e"
      by (simp add: om.in_items_iff [OF om] case_prod_unfold)
  qed (simp_all add: q distinct_map_filter d)
  ultimately show ?thesis by (simp add: q(3))
qed

lemma calls_scan:
  assumes "redelivery_pass now (ack_engine b) (queues b) = Done (ae, qs)"
  shows "calls b (b\<lparr>ack_engine := ae, queues := qs\<rparr>)"
  using assms
proof (induction "deadlines (ack_engine b)" arbitrary: b)
  case Nil
  then show ?case by (auto simp: redelivery_pass.simps [of now "ack_engine b"])
next
  case (Cons x rest)
  obtain due k where "x = (due, k)" by (cases x)
  note dl = Cons.hyps(2) [symmetric, unfolded this]
  let ?ae = "ack_engine b"
  consider "now < due" | (stale) "\<not> now < due" "\<forall>e. map_of (in_flight ?ae) k = Some e \<longrightarrow> due < deadline e"
    | (fail) e where "\<not> now < due" "map_of (in_flight ?ae) k = Some e" "\<not> due < deadline e"
    by blast
  then show ?case
  proof cases
    case 1
    with Cons.prems show ?thesis by (auto simp: redelivery_pass.simps [of now ?ae] dl)
  next
    case stale
    let ?b = "b\<lparr>ack_engine := ?ae\<lparr>deadlines := rest\<rparr>\<rparr>"
    have "redelivery_pass now (ack_engine ?b) (queues ?b) = Done (ae, qs)"
      using stale Cons.prems by (auto simp: redelivery_pass.simps [of now ?ae] dl Let_def split: option.split_asm)
    from Cons.hyps(1) [OF _ this] c_stale [OF dl stale(2)] show ?thesis
      by (simp add: converse_rtranclp_into_rtranclp)
  next
    case (fail e)
    have "requeue_or_dlq (?ae\<lparr>deadlines := rest\<rparr>) now e (queues b) = requeue_or_dlq ?ae now e (queues b)"
      by (simp add: requeue_or_dlq_eq)
    with fail Cons.prems obtain e' qs1 where q: "requeue_or_dlq ?ae now e (queues b) = Done (e', qs1)"
      "redelivery_pass now (?ae\<lparr>deadlines := rest, in_flight := om_delete k (in_flight ?ae)\<rparr>) qs1 = Done (ae, qs)"
      by (auto simp: redelivery_pass.simps [of now ?ae] dl Let_def elim: obind_DoneE)
    let ?b = "b\<lparr>ack_engine := ?ae\<lparr>deadlines := rest, in_flight := om_delete k (in_flight ?ae)\<rparr>, queues := qs1\<rparr>"
    have "calls ?b (?b\<lparr>ack_engine := ae, queues := qs\<rparr>)"
      by (rule Cons.hyps(1)) (use q in simp_all)
    with c_expire [OF dl fail(2,3) q(1)] show ?thesis
      by (simp add: converse_rtranclp_into_rtranclp broker_equal)
  qed
qed

text \<open>The message a publication becomes, and the identifier counter after it.\<close>

definition published_message :: "u64 \<Rightarrow> bytes \<Rightarrow> Broker \<Rightarrow> Message" where
  "published_message mid payload b = \<lparr>msg_id = (if mid \<noteq> 0 then mid else next_id b),
     topic = pub_topic (publish_of payload), body = pub_body (publish_of payload), retry_count = 0\<rparr>"

definition counter_after :: "u64 \<Rightarrow> Broker \<Rightarrow> u64" where
  "counter_after mid b = (if mid \<noteq> 0 then next_id b else next_id b + 1)"

lemma on_frame_publish:
  "on_frame os_send now cid PUBLISH mid payload b =
     (if pub_topic (publish_of payload) = [] then Done b
      else push_main (published_message mid payload b)
        (b\<lparr>next_id := counter_after mid b, wal := append (wal b) (published_message mid payload b)\<rparr>))"
  by (simp add: on_frame_def decode_publish_eq published_message_def counter_after_def new_message_def Let_def)

lemma on_frame_publish_wire:
  assumes "0 < length t" "length t < 2 ^ 16"
    and "m = \<lparr>msg_id = (if mid \<noteq> 0 then mid else next_id b), topic = t, body = bdy, retry_count = 0\<rparr>"
  shows "on_frame os_send now cid PUBLISH mid (be_bytes 2 (length t) @ bytes_of_string t @ bdy) b =
    push_main m (b\<lparr>next_id := counter_after mid b, wal := append (wal b) m\<rparr>)"
proof -
  let ?p = "be_bytes 2 (length t) @ bytes_of_string t @ bdy"
  have "publish_of ?p = \<lparr>pub_topic = t, pub_body = bdy\<rparr>"
    using decode_publish_wire [OF assms(2), of bdy] by (simp add: decode_publish_eq)
  moreover from this have "published_message mid ?p b = m"
    by (simp add: published_message_def assms(3))
  ultimately show ?thesis using assms(1) by (simp add: on_frame_publish)
qed

lemma published_message_ok:
  "length payload < 2 ^ 32 \<Longrightarrow> record_ok (publish_record (published_message mid payload b))"
  using publish_of_bounds [of payload] by (simp add: publish_record_def published_message_def)

lemma calls_next_id: "calls b (b\<lparr>next_id := counter_after mid b\<rparr>)"
  using c_next_id [of b] by (cases "mid = 0") (auto simp: counter_after_def)

lemma calls_publish:
  assumes "length payload < 2 ^ 32" "on_frame os_send now cid PUBLISH mid payload b = Done b'"
  shows "calls b b'"
proof (cases "pub_topic (publish_of payload) = []")
  case False
  let ?m = "published_message mid payload b"
  let ?b = "b\<lparr>next_id := counter_after mid b\<rparr>"
  have "component_call ?b (?b\<lparr>wal := append (wal ?b) ?m\<rparr>)"
    by (intro c_append published_message_ok assms(1))
  then have "calls b (b\<lparr>next_id := counter_after mid b, wal := append (wal b) ?m\<rparr>)"
    using calls_next_id [of b mid] by simp
  also have "calls \<dots> b'"
    by (rule calls_push [of ?m]) (use False assms(2) in \<open>simp_all add: on_frame_publish published_message_def\<close>)
  finally show ?thesis .
qed (use assms(2) in \<open>simp add: on_frame_publish\<close>)

lemma on_frame_calls:
  assumes "broker_inv b" "length payload < 2 ^ 32" "on_frame os_send now cid ty mid payload b = Done b'"
  shows "calls b b'"
proof (cases ty)
  case PUBLISH
  then show ?thesis using calls_publish assms(2,3) by simp
next
  case SUBSCRIBE
  then show ?thesis
    using assms(3) c_subscribe by (auto simp: on_frame_def decode_subscribe_eq split: if_splits)
next
  case ACK
  let ?b = "b\<lparr>ack_engine := ack (ack_engine b) mid cid\<rparr>"
  have "component_call b ?b" "component_call ?b (?b\<lparr>wal := acknowledge (wal ?b) mid\<rparr>)"
    by (rule c_ack c_acknowledge)+
  then show ?thesis
    using assms(3) ACK by (auto simp: on_frame_def)
next
  case NACK
  then show ?thesis
    using assms(3) calls_nack [of b now mid cid] by (auto simp: on_frame_def elim!: obind_DoneE)
next
  case HEARTBEAT
  then show ?thesis
    using assms(3) c_send by (auto simp: on_frame_def split: option.split_asm)
next
  case ERROR_RESP
  let ?b = "b\<lparr>router := unsubscribe (router b) cid\<rparr>"
  obtain ae qs where d: "client_disconnected (ack_engine ?b) now cid (queues ?b) = Done (ae, qs)"
    "b' = ?b\<lparr>ack_engine := ae, queues := qs\<rparr>"
    using assms(3) ERROR_RESP by (auto simp: on_frame_def elim!: obind_DoneE)
  have "calls ?b (?b\<lparr>ack_engine := ae, queues := qs\<rparr>)"
    by (rule calls_disconnected [OF _ d(1)]) (use assms(1) in \<open>simp add: broker_inv_def\<close>)
  moreover have "component_call b ?b" by (rule c_unsubscribe)
  ultimately show ?thesis
    unfolding d(2) by (rule converse_rtranclp_into_rtranclp [rotated])
qed (use assms(3) in \<open>simp_all add: on_frame_def\<close>)

lemma on_frame_no_fault: "broker_inv b \<Longrightarrow> on_frame os_send now cid ty mid payload b \<noteq> Fault"
  using nk.no_fault [of "ack_engine b" "queues b" now mid cid] gone.no_fault [of "ack_engine b" "queues b" now cid]
  by (cases ty) (auto simp: on_frame_publish on_frame_def [of _ _ _ SUBSCRIBE] on_frame_def [of _ _ _ ACK]
      on_frame_def [of _ _ _ NACK] on_frame_def [of _ _ _ HEARTBEAT] on_frame_def [of _ _ _ EVENT_DATA]
      on_frame_def [of _ _ _ ERROR_RESP] on_frame_def [of _ _ _ "UNNAMED _"]
      push_main_def decode_subscribe_eq broker_inv_def outcome_simps split: option.split)

text \<open>The dispatcher.\<close>

lemma calls_dispatch_targets:
  assumes "0 \<le> retry_count m" "retry_count m \<le> retry_limit b"
  shows "calls b (dispatch_targets os_send clock k m targets b)"
  using assms
proof (induction os_send clock k m targets b rule: dispatch_targets.induct)
  case (2 os_send clock k m c i targets b)
  let ?b1 = "b\<lparr>ack_engine := track (ack_engine b) (clock k) m c\<rparr>"
  let ?b2 = "send_frame (os_send k) c (encode_frame EVENT_DATA (msg_id m) (topic m) (body m)) ?b1"
  have "component_call b ?b1" "component_call ?b1 ?b2"
    using 2 by (auto intro: c_track c_send)
  moreover have "calls ?b2 (dispatch_targets os_send clock (Suc k) m targets ?b2)"
    using 2 by (simp add: retry_limit_def send_frame_def)
  ultimately show ?case
    by (auto simp: Let_def intro: converse_rtranclp_into_rtranclp)
qed simp

lemma dispatcher_calls:
  assumes "broker_inv b"
  shows "calls b (dispatcher_step os_send clock b)"
proof -
  let ?b = "b\<lparr>queues := (queues b)\<lparr>main_queue := snd (try_pop_for (main_queue (queues b)))\<rparr>\<rparr>"
  have pop: "component_call b ?b" by (rule c_pop_main)
  show ?thesis
  proof (cases "queue (main_queue (queues b))")
    case Nil
    then show ?thesis using pop by (auto simp: dispatcher_step_def try_pop_for_def)
  next
    case (Cons m ms)
    let ?r = "?b\<lparr>router := snd (route (router ?b) m)\<rparr>"
    have "component_call ?b ?r" by (rule c_route)
    with pop have "calls b ?r" by auto
    moreover have "0 \<le> retry_count m" "retry_count m \<le> retry_limit ?r"
      using assms Cons by (auto simp: broker_inv_def)
    ultimately have "calls b ?r \<and> calls ?r (dispatch_targets os_send clock 0 m (fst (route (router b) m)) ?r)"
      using calls_dispatch_targets by blast
    then show ?thesis
      using Cons by (auto simp: dispatcher_step_def try_pop_for_def case_prod_unfold Let_def)
  qed
qed

text \<open>The dead-letter logger.\<close>

definition audit_message :: "u64 \<Rightarrow> Message \<Rightarrow> Message" where
  "audit_message mid m = \<lparr>msg_id = mid, topic = ''$SYS.dlq'', body = bytes_of_string (audit_body m), retry_count = 0\<rparr>"

lemma push_main_eq:
  "push_main m b = (if length (queue (main_queue (queues b))) < capacity (main_queue (queues b))
     then Done (b\<lparr>queues := (queues b)\<lparr>main_queue := enqueue [m] (main_queue (queues b))\<rparr>\<rparr>) else Blocked)"
  by (simp add: push_main_def push_def enqueue_def)

lemma dlq_logger_Cons:
  assumes "queue (dlq (queues b)) = m # ms"
  shows "dlq_logger_step b =
    obind (push_main m (b\<lparr>queues := (queues b)\<lparr>dlq := (dlq (queues b))\<lparr>queue := ms\<rparr>\<rparr>\<rparr>)) (\<lambda>b1.
    push_main (audit_message (next_id b1) m)
      (b1\<lparr>next_id := next_id b1 + 1, wal := append (wal b1) (audit_message (next_id b1) m)\<rparr>))"
  using assms by (simp add: dlq_logger_step_def try_pop_for_def audit_message_def new_message_def Let_def)

lemma dlq_logger_calls:
  assumes "broker_inv b" "dlq_logger_step b = Done b'"
    and "\<forall>m \<in> set (queue (dlq (queues b))). length (audit_body m) < 2 ^ 32"
  shows "calls b b'"
proof (cases "queue (dlq (queues b))")
  case Nil
  then show ?thesis
    using assms(2) by (auto simp: dlq_logger_step_def try_pop_for_def)
next
  case (Cons m ms)
  let ?b = "b\<lparr>queues := (queues b)\<lparr>dlq := (dlq (queues b))\<lparr>queue := ms\<rparr>\<rparr>\<rparr>"
  obtain b1 where b1: "push_main m ?b = Done b1" "push_main (audit_message (next_id b1) m)
      (b1\<lparr>next_id := next_id b1 + 1, wal := append (wal b1) (audit_message (next_id b1) m)\<rparr>) = Done b'"
    using assms(2) by (auto simp: dlq_logger_Cons [OF Cons] elim: obind_DoneE)
  let ?b2 = "b1\<lparr>next_id := next_id b1 + 1\<rparr>" and ?sys = "audit_message (next_id b1) m"
  have "component_call b ?b"
    using c_pop_dlq [of b] by (simp add: try_pop_for_def Cons)
  moreover have "retry_count m = 0"
    using assms(1) Cons by (simp add: broker_inv_def)
  ultimately have "calls b b1"
    using c_push [OF _ b1(1)] by auto
  also have "calls b1 ?b2"
    using c_next_id [of b1] by auto
  also have "calls ?b2 (?b2\<lparr>wal := append (wal ?b2) ?sys\<rparr>)"
    using c_append [of ?sys ?b2] assms(3) Cons by (auto simp: audit_message_def publish_record_def)
  also have "calls \<dots> b'"
    by (rule calls_push [of ?sys]) (use b1(2) in \<open>simp_all add: audit_message_def\<close>)
  finally show ?thesis .
qed

lemma dlq_logger_no_fault: "dlq_logger_step b \<noteq> Fault"
  by (cases "queue (dlq (queues b))")
    (auto simp: dlq_logger_Cons push_main_eq outcome_simps, simp add: dlq_logger_step_def try_pop_for_def)


section \<open>Reachable states\<close>

lemma fair_retries_pending: "fair_retries 0 (pending rs)"
proof -
  have "(mid, m) \<in> set (publications rs) \<Longrightarrow> retry_count m = 0" for mid m
    by (induction rs rule: publications.induct) auto
  then show ?thesis
    by (auto simp: fair_retries_def pending_iff last_published_def dest!: map_of_SomeD)
qed

lemma push_all_fair:
  "push_all push q ms = Done q' \<Longrightarrow> queue_invar q \<Longrightarrow> queue q' = queue q @ ms \<and> capacity q' = capacity q \<and> queue_invar q'"
  using sq.push_all_room [of q ms] sq.push_all_full [of q ms]
  by (cases "length (queue q) + length ms \<le> capacity q") (auto simp: queue_invar_def)

lemma boot_inv:
  assumes "boot cfg True (concat (map record_bytes rs)) True socket_res bind_res listen_res = Done (Inr b)"
    and "\<forall>r \<in> set rs. record_ok r"
  shows "broker_inv b \<and> queue (main_queue (queues b)) = pending rs \<and> wal_inv (wal b) rs \<and> next_id b = 1 \<and>
    capacity (main_queue (queues b)) = unat (QUEUE_CAP cfg) \<and> capacity (dlq (queues b)) = unat (QUEUE_CAP cfg)"
proof -
  obtain w where w: "open_wal (WAL_PATH cfg) True (concat (map record_bytes rs)) = Inr w" "wal_file w = concat (map record_bytes rs)"
    by (auto simp: open_wal_def)
  have rp: "replay (Some (concat (map record_bytes rs))) q = push_all push q (pending rs)" for q
    by (rule replay_pending [OF wal_log.scan_all [OF assms(2)]])
  let ?q = "new_queue (unat (QUEUE_CAP cfg)) :: Message SafeQueue"
  obtain q s where q: "push_all push ?q (pending rs) = Done q" and s: "start (new_server (TCP_PORT cfg)) socket_res bind_res listen_res = (None, s)"
    and b: "b = \<lparr>queues = \<lparr>main_queue = q, dlq = ?q\<rparr>, wal = w, router = new_router,
      ack_engine = new_ack_engine (ACK_TIMEOUT cfg) (MAX_RETRIES cfg), next_id = 1, server_ptr = Some s\<rparr>"
    using assms(1) by (auto simp: boot_def boot_server_def w rp split: option.split_asm prod.split_asm elim!: obind_DoneE)
  have "server_inv s"
    using s by (auto simp: start_def server_inv_def new_server_def um_invar_def Let_def split: if_splits)
  moreover have "queue q = pending rs \<and> capacity q = unat (QUEUE_CAP cfg) \<and> queue_invar q"
    using push_all_fair [OF q] by (auto simp: new_queue_def queue_invar_def)
  moreover have "fair_retries (max 0 (MAX_RETRIES cfg)) (pending rs)"
    using fair_retries_pending [of rs] by (auto simp: fair_retries_def)
  moreover have "wal_inv w rs"
    by (rule wal_inv_open [OF assms(2) w(1)])
  ultimately show ?thesis
    using ack_inv_new [of "ACK_TIMEOUT cfg" "MAX_RETRIES cfg"]
    by (auto simp: b broker_inv_def retry_limit_def queues_invar_def new_queue_def queue_invar_def new_ack_engine_def)
qed

text \<open>A broker that was started on a log of records and made any sequence of critical sections.\<close>

inductive broker_reachable :: "Broker \<Rightarrow> bool" where
  booted: "boot cfg True (concat (map record_bytes rs)) True socket_res bind_res listen_res = Done (Inr b) \<Longrightarrow>
    \<forall>r \<in> set rs. record_ok r \<Longrightarrow> broker_reachable b"
| called: "broker_reachable b \<Longrightarrow> component_call b b' \<Longrightarrow> broker_reachable b'"

lemma broker_reachable_inv: "broker_reachable b \<Longrightarrow> broker_inv b"
  by (induction rule: broker_reachable.induct) (auto dest: boot_inv broker_inv_call)

lemma broker_reachable_calls: "calls b b' \<Longrightarrow> broker_reachable b \<Longrightarrow> broker_reachable b'"
  by (induction rule: rtranclp_induct) (auto intro: called)

interpretation reader: frame_consumer "on_frame os_send now" close_connection broker_reachable for os_send now
proof unfold_locales
  fix s payload cid ty mid s'
  assume s: "broker_reachable s" and "length (payload :: bytes) < 2 ^ 32"
  then show "on_frame os_send now cid ty mid payload s \<noteq> Fault"
    by (intro on_frame_no_fault broker_reachable_inv)
  assume "on_frame os_send now cid ty mid payload s = Done s'"
  then show "broker_reachable s'"
    using s \<open>length payload < 2 ^ 32\<close> by (blast intro: broker_reachable_calls on_frame_calls broker_reachable_inv)
next
  fix s cid
  assume "broker_reachable s"
  then show "broker_reachable (close_connection cid s)"
    using c_close by (rule called)
qed


section \<open>What the dispatcher does\<close>

lemma send_frame_sel [simp]:
  "queues (send_frame os_send c f b) = queues b" "wal (send_frame os_send c f b) = wal b"
  "router (send_frame os_send c f b) = router b" "ack_engine (send_frame os_send c f b) = ack_engine b"
  "next_id (send_frame os_send c f b) = next_id b"
  by (simp_all add: send_frame_def)

lemma dispatch_targets_sel [simp]:
  "queues (dispatch_targets os_send clock k m ts b) = queues b" "wal (dispatch_targets os_send clock k m ts b) = wal b"
  "router (dispatch_targets os_send clock k m ts b) = router b"
  "next_id (dispatch_targets os_send clock k m ts b) = next_id b"
  by (induction os_send clock k m ts b rule: dispatch_targets.induct) (simp_all add: Let_def)

text \<open>Every target is tracked, with the clock reading of one of its turns; nothing else changes
  in the table.\<close>

lemma dispatch_targets_other:
  "\<not> (fst key = msg_id m \<and> snd key \<in> fst ` set ts) \<Longrightarrow>
    map_of (in_flight (ack_engine (dispatch_targets os_send clock k m ts b))) key = map_of (in_flight (ack_engine b)) key"
proof (induction os_send clock k m ts b rule: dispatch_targets.induct)
  case (2 os_send clock k m c i ts b)
  then show ?case by (cases key) (auto simp: track_def Let_def map_of_om_update)
qed simp

lemma dispatch_targets_timeout [simp]:
  "ack_timeout (ack_engine (dispatch_targets os_send clock k m ts b)) = ack_timeout (ack_engine b)"
  by (induction os_send clock k m ts b rule: dispatch_targets.induct) (simp_all add: Let_def track_def)

lemma dispatch_targets_tracked:
  "c \<in> fst ` set ts \<Longrightarrow> \<exists>j < length ts. map_of (in_flight (ack_engine (dispatch_targets os_send clock k m ts b))) (msg_id m, c) =
     Some \<lparr>fl_msg = m, subscriber_id = c, deadline = clock (k + j) + ack_timeout (ack_engine b), fl_retry = retry_count m\<rparr>"
proof (induction os_send clock k m ts b rule: dispatch_targets.induct)
  case (2 os_send clock k m d i ts b)
  let ?b = "send_frame (os_send k) d (encode_frame EVENT_DATA (msg_id m) (topic m) (body m))
    (b\<lparr>ack_engine := track (ack_engine b) (clock k) m d\<rparr>)"
  have to: "ack_timeout (track (ack_engine b) (clock k) m d) = ack_timeout (ack_engine b)"
    by (simp add: track_def Let_def)
  show ?case
  proof (cases "c \<in> fst ` set ts")
    case True
    with 2(1) [OF refl refl] obtain j where "j < length ts"
      "map_of (in_flight (ack_engine (dispatch_targets os_send clock (Suc k) m ts ?b))) (msg_id m, c) =
       Some \<lparr>fl_msg = m, subscriber_id = c, deadline = clock (Suc k + j) + ack_timeout (ack_engine b), fl_retry = retry_count m\<rparr>"
      by (auto simp: to)
    then show ?thesis by (intro exI [of _ "Suc j"]) (simp add: Let_def)
  next
    case False
    with 2(2) have "c = d" by simp
    with False dispatch_targets_other [of "(msg_id m, c)" m ts os_send clock "Suc k" ?b]
    show ?thesis by (intro exI [of _ 0]) (simp add: Let_def, simp add: track_def Let_def map_of_om_update)
  qed
qed simp

text \<open>A socket that accepts what it is offered, in pieces of any size.\<close>

definition healthy :: "(nat \<Rightarrow> int \<Rightarrow> int) \<Rightarrow> bool" where
  "healthy os_send \<longleftrightarrow> (\<forall>k len. 0 < len \<longrightarrow> 0 < os_send k len \<and> os_send k len \<le> len)"

lemma send_to_wire:
  assumes "healthy os_send" "length frame < 2 ^ 31" "server_inv s" "map_of (clients s) c = Some c"
  shows "wire (send_to os_send s d frame) c = wire s c @ (if d = c then frame else [])"
proof -
  have "send_loop os_send 0 frame 0 = length frame"
    using assms(1,2) by (intro send_loop_full) (auto simp: healthy_def)
  then show ?thesis
    using assms(3,4) by (auto simp: send_to_def server_inv_def split: option.split)
qed

lemma dispatch_targets_wire:
  assumes "\<And>j. healthy (os_send j)" "length (encode_frame EVENT_DATA (msg_id m) (topic m) (body m)) < 2 ^ 31"
    and "server_ptr b = Some s" "server_inv s"
  shows "\<exists>s'. server_ptr (dispatch_targets os_send clock k m ts b) = Some s' \<and> clients s' = clients s \<and>
    (\<forall>c. map_of (clients s) c = Some c \<longrightarrow> wire s' c = wire s c @
       concat (replicate (count_list (map fst ts) c) (encode_frame EVENT_DATA (msg_id m) (topic m) (body m))))"
  using assms(3,4)
proof (induction ts arbitrary: k b s)
  case (Cons t ts)
  obtain d i where t: "t = (d, i)" by (cases t)
  define f where "f = encode_frame EVENT_DATA (msg_id m) (topic m) (body m)"
  let ?b = "send_frame (os_send k) d f (b\<lparr>ack_engine := track (ack_engine b) (clock k) m d\<rparr>)"
  have "server_ptr ?b = Some (send_to (os_send k) s d f)" "server_inv (send_to (os_send k) s d f)"
    using Cons.prems by (simp_all add: send_frame_def server_inv_send)
  from Cons.IH [OF this, of "Suc k"] obtain s' where
    "server_ptr (dispatch_targets os_send clock (Suc k) m ts ?b) = Some s'" "clients s' = clients s"
    "\<forall>c. map_of (clients s) c = Some c \<longrightarrow>
       wire s' c = wire (send_to (os_send k) s d f) c @ concat (replicate (count_list (map fst ts) c) f)"
    by (auto simp: f_def)
  moreover have "wire (send_to (os_send k) s d f) c = wire s c @ (if d = c then f else [])"
    if "map_of (clients s) c = Some c" for c
    using assms(1,2) Cons.prems(2) that by (intro send_to_wire) (simp_all add: f_def)
  ultimately show ?case
    by (auto simp: t Let_def simp flip: f_def)
qed simp

lemma dispatcher_Cons:
  assumes "queue (main_queue (queues b)) = m # ms"
  shows "dispatcher_step os_send clock b = dispatch_targets os_send clock 0 m (fst (route (router b) m))
    (b\<lparr>queues := (queues b)\<lparr>main_queue := (main_queue (queues b))\<lparr>queue := ms\<rparr>\<rparr>, router := snd (route (router b) m)\<rparr>)"
  using assms by (auto simp: dispatcher_step_def try_pop_for_def case_prod_unfold Let_def)


section \<open>Restarts\<close>

lemma shutdown_log: "wal_inv (wal b) rs \<Longrightarrow> wal_file (wal (shutdown b)) = concat (map record_bytes rs)"
  using close_wal_log [of "wal b" rs] by (simp add: shutdown_def Let_def)

lemma boot_pending:
  assumes "\<forall>r \<in> set rs. record_ok r" "length (pending rs) \<le> unat (QUEUE_CAP cfg)"
    and "socket_res \<noteq> INVALID_SOCK" "0 \<le> bind_res" "0 \<le> listen_res"
  shows "\<exists>b. boot cfg True (concat (map record_bytes rs)) True socket_res bind_res listen_res = Done (Inr b)"
proof -
  have "replay (Some (concat (map record_bytes rs))) q = push_all push q (pending rs)" for q
    by (rule replay_pending [OF wal_log.scan_all [OF assms(1)]])
  moreover obtain q where "push_all push (new_queue (unat (QUEUE_CAP cfg))) (pending rs) = Done q"
    using sq.push_all_room [of "new_queue (unat (QUEUE_CAP cfg))" "pending rs"] assms(2) by (auto simp: new_queue_def)
  ultimately show ?thesis
    using assms(3-5) by (simp add: boot_def boot_server_def open_wal_def start_def)
qed

lemma restart_pending:
  assumes "wal_inv (wal b) rs"
    and "boot cfg True (wal_file (wal (shutdown b))) True socket_res bind_res listen_res = Done (Inr b')"
  shows "queue (main_queue (queues b')) = pending rs"
proof -
  have "\<forall>r \<in> set rs. record_ok r" using assms(1) by (simp add: wal_inv_def)
  from boot_inv [OF assms(2) [unfolded shutdown_log [OF assms(1)]] this] show ?thesis by simp
qed

lemma on_frame_ack:
  "on_frame os_send now cid ACK mid payload b =
     Done (b\<lparr>ack_engine := ack (ack_engine b) mid cid, wal := acknowledge (wal b) mid\<rparr>)"
  by (simp add: on_frame_def)

lemma ack_lookup:
  "ack_inv ae \<Longrightarrow> map_of (in_flight (ack ae mid cid)) = (map_of (in_flight ae))((mid, cid) := None)"
  by (auto simp: ack_def ack_inv_def map_of_om_delete split: option.split)


section \<open>The end of a connection\<close>

lemma disconnect_eq:
  "disconnect (on_frame os_send now) close_connection cid b =
     obind (client_disconnected (ack_engine b) now cid (queues b)) (\<lambda>(ae, qs).
       Done (b\<lparr>server_ptr := map_option (close_client cid) (server_ptr b), router := unsubscribe (router b) cid,
         ack_engine := ae, queues := qs\<rparr>))"
  by (simp add: disconnect_def on_frame_def close_connection_def)

lemma close_client_lookup: "map_of (clients (close_client cid s)) = (map_of (clients s))(cid := None)"
  by (simp add: close_client_def AList.delete_conv')

lemma disconnected_in_flight:
  assumes "ack_inv ae" "client_disconnected ae now cid qs = Done (ae', qs')"
  shows "map_of (in_flight ae') k = (if snd k = cid then None else map_of (in_flight ae) k)"
proof -
  have om: "om_invar (in_flight ae)" using assms(1) by (simp add: ack_inv_def)
  have f: "in_flight ae' = filter (\<lambda>(k, e). subscriber_id e \<noteq> cid) (in_flight ae)"
    using assms(2) by (auto simp: client_disconnected_eq elim: obind_DoneE)
  have "om_invar (in_flight ae')" unfolding f by (rule om_invar_filter [OF om])
  then have "map_of (in_flight ae') k = Some e \<longleftrightarrow> map_of (in_flight ae) k = Some e \<and> snd k \<noteq> cid" for e
    using om.in_items_iff [of "in_flight ae'" k e] om.in_items_iff [OF om, of k e] assms(1)
    by (auto simp: f ack_inv_def entry_ok_def)
  then show ?thesis
    by (metis not_None_eq)
qed


section \<open>Numbers in the configuration\<close>

lemma is_digit_digit_char: "d < 10 \<Longrightarrow> is_digit (digit_char d)"
  by (simp add: is_digit_def)

lemma nat_digits_not_Nil: "nat_digits n \<noteq> []"
  by (subst nat_digits.simps) simp

lemma nat_digits_is_digit: "c \<in> set (nat_digits n) \<Longrightarrow> is_digit c"
  using digits_in_nat_digits is_digit_digit_char by blast

lemma takeWhile_nat_digits: "takeWhile is_digit (nat_digits n) = nat_digits n"
  by (simp add: takeWhile_eq_all_conv nat_digits_is_digit)

lemma hd_nat_digits:
  "\<not> is_space (hd (nat_digits n))" "hd (nat_digits n) \<noteq> CHR ''-''" "hd (nat_digits n) \<noteq> CHR ''+''"
proof -
  have "is_digit (hd (nat_digits n))"
    by (rule nat_digits_is_digit [of _ n]) (simp add: nat_digits_not_Nil)
  then show "\<not> is_space (hd (nat_digits n))" "hd (nat_digits n) \<noteq> CHR ''-''" "hd (nat_digits n) \<noteq> CHR ''+''"
    by (auto simp: is_digit_def is_space_def)
qed

lemma dropWhile_nat_digits: "dropWhile is_space (nat_digits n) = nat_digits n"
  using hd_nat_digits(1) [of n] by (cases "nat_digits n") auto

lemma stoi_to_string:
  assumes "- (2 ^ 31) \<le> i" "i < 2 ^ 31"
  shows "stoi (to_string i) = Inr i"
proof (cases "i < 0")
  case True
  have "\<not> is_space CHR ''-''" by (simp add: is_space_def)
  with True assms show ?thesis
    by (simp add: stoi_def to_string_def takeWhile_nat_digits nat_digits_not_Nil Let_def)
next
  case False
  with assms show ?thesis
    by (simp add: stoi_def to_string_def dropWhile_nat_digits takeWhile_nat_digits nat_digits_not_Nil hd_nat_digits Let_def)
qed

end
