(* ===== verification/MQ_Threads.thy ===== *)
theory MQ_Threads
  imports MQ_Broker
begin

text \<open>
  The threads of the broker with the mutex of the acknowledgement engine made explicit. A
  method of the engine that fails deliveries holds \<open>mu_\<close> while it pushes to the queues, and
  a push into a full queue waits; the dispatcher, the only consumer of the main queue, needs
  \<open>mu_\<close> to track what it has taken out. The model shows when this ends in a deadlock, and
  that a full queue is the only cause.
\<close>

section \<open>Threads\<close>

text \<open>
  The dispatcher holds a message and the targets still to serve; the section of the engine is
  occupied by a thread with the deliveries it still has to fail; the dead-letter logger has
  a letter, or the audit event that follows it, still to push.
\<close>

datatype logger = L_idle | L_letter Message | L_audit Message

record Threads =
  shared :: Broker
  dispatching :: "(Message \<times> ClientId list) option"
  engine_section :: "(delivery \<times> InFlight) list option"
  logger :: logger

definition with_engine :: "Threads \<Rightarrow> AckEngine \<Rightarrow> Threads" where
  "with_engine s ae = s\<lparr>shared := (shared s)\<lparr>ack_engine := ae\<rparr>\<rparr>"

text \<open>The dispatcher: take the head of the main queue and route it, then track and send to one
  target after the other.\<close>

inductive dispatcher_start :: "Threads \<Rightarrow> Threads \<Rightarrow> bool" where
  d_take: "dispatching s = None \<Longrightarrow> queue (main_queue (queues (shared s))) = m # ms \<Longrightarrow>
    dispatcher_start s (s\<lparr>shared := (shared s)\<lparr>
        queues := (queues (shared s))\<lparr>main_queue := (main_queue (queues (shared s)))\<lparr>queue := ms\<rparr>\<rparr>,
        router := snd (route (router (shared s)) m)\<rparr>,
      dispatching := Some (m, map fst (fst (route (router (shared s)) m)))\<rparr>)"

inductive dispatcher_go_on :: "Threads \<Rightarrow> Threads \<Rightarrow> bool" where
  d_track: "dispatching s = Some (m, c # cs) \<Longrightarrow> engine_section s = None \<Longrightarrow>
    dispatcher_go_on s (s\<lparr>shared := send_frame os_send c (encode_frame EVENT_DATA (msg_id m) (topic m) (body m))
      ((shared s)\<lparr>ack_engine := track (ack_engine (shared s)) now m c\<rparr>), dispatching := Some (m, cs)\<rparr>)"
| d_done: "dispatching s = Some (m, []) \<Longrightarrow> dispatcher_go_on s (s\<lparr>dispatching := None\<rparr>)"

text \<open>The dead-letter logger: take a letter, push it, log the audit event and push that.\<close>

inductive logger_start :: "Threads \<Rightarrow> Threads \<Rightarrow> bool" where
  l_take: "logger s = L_idle \<Longrightarrow> queue (dlq (queues (shared s))) = m # ms \<Longrightarrow>
    logger_start s (s\<lparr>shared := (shared s)\<lparr>
        queues := (queues (shared s))\<lparr>dlq := (dlq (queues (shared s)))\<lparr>queue := ms\<rparr>\<rparr>\<rparr>, logger := L_letter m\<rparr>)"

inductive logger_go_on :: "Threads \<Rightarrow> Threads \<Rightarrow> bool" where
  l_letter: "logger s = L_letter m \<Longrightarrow> push_main m (shared s) = Done b \<Longrightarrow>
    logger_go_on s (s\<lparr>shared := b\<lparr>next_id := next_id b + 1, wal := append (wal b) (audit_message (next_id b) m)\<rparr>,
      logger := L_audit (audit_message (next_id b) m)\<rparr>)"
| l_audit: "logger s = L_audit m \<Longrightarrow> push_main m (shared s) = Done b \<Longrightarrow>
    logger_go_on s (s\<lparr>shared := b, logger := L_idle\<rparr>)"

text \<open>
  The engine: a NACK, the end of a connection or the scanner enters with the deliveries it
  is going to fail, fails one after the other and leaves. An ACK is over in one step.
\<close>

inductive engine_enter :: "Threads \<Rightarrow> Threads \<Rightarrow> bool" where
  e_nack: "engine_section s = None \<Longrightarrow> map_of (in_flight (ack_engine (shared s))) (mid, cid) = Some e \<Longrightarrow>
    engine_enter s (s\<lparr>engine_section := Some [((mid, cid), e)]\<rparr>)"
| e_gone: "engine_section s = None \<Longrightarrow>
    engine_enter s (s\<lparr>engine_section := Some (filter (\<lambda>(k, e). subscriber_id e = cid) (in_flight (ack_engine (shared s))))\<rparr>)"
| e_scan: "engine_section s = None \<Longrightarrow>
    expire now (deadlines (ack_engine (shared s))) (in_flight (ack_engine (shared s))) = (es, dl, left) \<Longrightarrow>
    engine_enter s (with_engine (s\<lparr>engine_section := Some es\<rparr>) ((ack_engine (shared s))\<lparr>deadlines := dl\<rparr>))"
| e_ack: "engine_section s = None \<Longrightarrow> engine_enter s (with_engine s (ack (ack_engine (shared s)) mid cid))"

inductive engine_go_on :: "Threads \<Rightarrow> Threads \<Rightarrow> bool" where
  e_fail: "engine_section s = Some ((k, e) # es) \<Longrightarrow>
    requeue_or_dlq (ack_engine (shared s)) now e (queues (shared s)) = Done (e', qs) \<Longrightarrow>
    engine_go_on s (s\<lparr>shared := (shared s)\<lparr>queues := qs,
      ack_engine := (ack_engine (shared s))\<lparr>in_flight := om_delete k (in_flight (ack_engine (shared s)))\<rparr>\<rparr>,
      engine_section := Some es\<rparr>)"
| e_leave: "engine_section s = Some [] \<Longrightarrow> engine_go_on s (s\<lparr>engine_section := None\<rparr>)"

text \<open>
  What connection threads do outside the engine: publish, subscribe and unsubscribe.
  Connections that are accepted, closed or answered a heartbeat may change the server in any
  way, and records and flushes the log.
\<close>

inductive client_step :: "Threads \<Rightarrow> Threads \<Rightarrow> bool" where
  publish: "topic m \<noteq> [] \<Longrightarrow> retry_count m = 0 \<Longrightarrow>
    push_main m ((shared s)\<lparr>wal := append (wal (shared s)) m, next_id := nid\<rparr>) = Done b \<Longrightarrow>
    client_step s (s\<lparr>shared := b\<rparr>)"
| subscribing: "client_step s (s\<lparr>shared := (shared s)\<lparr>router := subscribe (router (shared s)) t g cid\<rparr>\<rparr>)"
| unsubscribing: "client_step s (s\<lparr>shared := (shared s)\<lparr>router := unsubscribe (router (shared s)) cid\<rparr>\<rparr>)"
| connection: "client_step s (s\<lparr>shared := (shared s)\<lparr>server_ptr := sp\<rparr>\<rparr>)"
| logging: "client_step s (s\<lparr>shared := (shared s)\<lparr>wal := w\<rparr>\<rparr>)"

text \<open>The steps of threads that are in the middle of something, and all steps.\<close>

definition internal_step :: "Threads \<Rightarrow> Threads \<Rightarrow> bool" where
  "internal_step s s' \<longleftrightarrow> dispatcher_go_on s s' \<or> logger_go_on s s' \<or> engine_go_on s s'"

definition thread_step :: "Threads \<Rightarrow> Threads \<Rightarrow> bool" where
  "thread_step s s' \<longleftrightarrow> internal_step s s' \<or> dispatcher_start s s' \<or> logger_start s s' \<or>
     engine_enter s s' \<or> client_step s s'"

lemmas step_cases = dispatcher_start.cases dispatcher_go_on.cases logger_start.cases logger_go_on.cases
  engine_enter.cases engine_go_on.cases client_step.cases


section \<open>The deadlock\<close>

text \<open>The dispatcher waits for the mutex, its holder waits for room in the queue that only the
  dispatcher empties.\<close>

definition stuck :: "Threads \<Rightarrow> bool" where
  "stuck s \<longleftrightarrow> (\<exists>m c cs k e es. dispatching s = Some (m, c # cs) \<and> engine_section s = Some ((k, e) # es) \<and>
     fl_retry e < max_retries (ack_engine (shared s)) \<and>
     capacity (main_queue (queues (shared s))) \<le> length (queue (main_queue (queues (shared s)))))"

text \<open>Everything the delivery of messages works with stays as it is.\<close>

definition frozen :: "Threads \<Rightarrow> Threads \<Rightarrow> bool" where
  "frozen s s' \<longleftrightarrow> dispatching s' = dispatching s \<and> engine_section s' = engine_section s \<and>
     main_queue (queues (shared s')) = main_queue (queues (shared s)) \<and>
     ack_engine (shared s') = ack_engine (shared s)"

lemma stuck_step:
  assumes "stuck s" "thread_step s s'"
  shows "frozen s s'"
proof -
  obtain m c cs k e es where st: "dispatching s = Some (m, c # cs)" "engine_section s = Some ((k, e) # es)"
    "fl_retry e < max_retries (ack_engine (shared s))"
    "\<not> length (queue (main_queue (queues (shared s)))) < capacity (main_queue (queues (shared s)))"
    using assms(1) by (auto simp: stuck_def not_less)
  with assms(2) show ?thesis
    unfolding thread_step_def internal_step_def
    by (elim disjE step_cases) (auto simp: requeue_or_dlq_eq push_main_eq frozen_def with_engine_def split: if_splits)
qed

lemma frozen_stuck: "frozen s s' \<Longrightarrow> stuck s \<Longrightarrow> stuck s'"
  by (auto simp: frozen_def stuck_def)

lemma stuck_forever: "thread_step\<^sup>*\<^sup>* s s' \<Longrightarrow> stuck s \<Longrightarrow> frozen s s' \<and> stuck s'"
proof (induction rule: rtranclp_induct)
  case base
  then show ?case by (simp add: frozen_def)
next
  case (step t u)
  then show ?case
    using stuck_step [of t u] frozen_stuck [of t u] by (auto simp: frozen_def)
qed


section \<open>Work in progress\<close>

definition work_in_progress :: "Threads \<Rightarrow> nat" where
  "work_in_progress s = (case dispatching s of None \<Rightarrow> 0 | Some (m, cs) \<Rightarrow> Suc (length cs)) +
     (case engine_section s of None \<Rightarrow> 0 | Some es \<Rightarrow> Suc (length es)) +
     (case logger s of L_idle \<Rightarrow> 0 | L_letter _ \<Rightarrow> 2 | L_audit _ \<Rightarrow> 1)"

lemma internal_step_less: "internal_step s s' \<Longrightarrow> Suc (work_in_progress s') = work_in_progress s"
  unfolding internal_step_def by (elim disjE step_cases) (auto simp: work_in_progress_def)

lemma internal_steps_count: "(internal_step ^^ n) s s' \<Longrightarrow> n + work_in_progress s' = work_in_progress s"
proof (induction n arbitrary: s')
  case (Suc n)
  then obtain t where "(internal_step ^^ n) s t" "internal_step t s'" by auto
  with Suc.IH [of t] internal_step_less [of t s'] show ?case by simp
qed simp

text \<open>With room in both queues somebody can go on as long as there is work in progress.\<close>

definition has_room :: "Message SafeQueue \<Rightarrow> bool" where
  "has_room q \<longleftrightarrow> length (queue q) < capacity q"

lemma engine_go_on_enabled:
  assumes "has_room (main_queue (queues (shared s)))" "has_room (dlq (queues (shared s)))" "engine_section s \<noteq> None"
  shows "\<exists>s'. engine_go_on s s'"
proof -
  obtain es where es: "engine_section s = Some es" using assms(3) by blast
  show ?thesis
  proof (cases es)
    case Nil
    with es show ?thesis by (auto intro: e_leave)
  next
    case (Cons x es')
    obtain k e where "x = (k, e)" by (cases x)
    moreover have "\<exists>r. requeue_or_dlq (ack_engine (shared s)) 0 e (queues (shared s)) = Done r"
      using assms(1,2) by (simp add: requeue_or_dlq_eq has_room_def)
    then obtain r where "requeue_or_dlq (ack_engine (shared s)) 0 e (queues (shared s)) = Done r" ..
    ultimately show ?thesis
      using e_fail [of s k e es' 0 "fst r" "snd r"] es Cons by auto
  qed
qed

lemma dispatcher_go_on_enabled:
  assumes "engine_section s = None" "dispatching s \<noteq> None"
  shows "\<exists>s'. dispatcher_go_on s s'"
proof -
  obtain m cs where "dispatching s = Some (m, cs)" using assms(2) by auto
  then show ?thesis
    using assms(1) d_track d_done by (cases cs) fastforce+
qed

lemma logger_go_on_enabled:
  assumes "has_room (main_queue (queues (shared s)))" "logger s \<noteq> L_idle"
  shows "\<exists>s'. logger_go_on s s'"
proof -
  have push: "\<exists>b. push_main m (shared s) = Done b" for m
    using assms(1) by (simp add: push_main_eq has_room_def)
  show ?thesis
    using assms(2) push l_letter l_audit by (cases "logger s") (simp, blast+)
qed

lemma internal_step_enabled:
  assumes "has_room (main_queue (queues (shared s)))" "has_room (dlq (queues (shared s)))" "0 < work_in_progress s"
  shows "\<exists>s'. internal_step s s'"
proof -
  have "engine_section s \<noteq> None \<or> dispatching s \<noteq> None \<or> logger s \<noteq> L_idle"
    using assms(3) by (auto simp: work_in_progress_def split: option.splits)
  then show ?thesis
    unfolding internal_step_def
    using engine_go_on_enabled [OF assms(1,2)] dispatcher_go_on_enabled [of s] logger_go_on_enabled [OF assms(1)] by blast
qed


section \<open>Properties\<close>

text \<open>
  As long as the queues have room, every operation completes. The threads that are in the
  middle of a dispatch, of failing deliveries under the engine's mutex or of logging a dead
  letter make a number of steps that is known in advance, in any order; and when none of
  them can go on and neither queue is full, all of them are done.
\<close>

theorem operations_complete_with_room:
  assumes "(internal_step ^^ n) s s'"
  shows "n \<le> work_in_progress s \<and>
    ((\<exists>s''. internal_step s' s'') \<or> \<not> has_room (main_queue (queues (shared s'))) \<or> \<not> has_room (dlq (queues (shared s'))) \<or>
     n = work_in_progress s \<and> dispatching s' = None \<and> engine_section s' = None \<and> logger s' = L_idle)"
proof -
  have "dispatching s' = None \<and> engine_section s' = None \<and> logger s' = L_idle" if "work_in_progress s' = 0"
    using that by (auto simp: work_in_progress_def split: option.splits logger.splits)
  then show ?thesis
    using internal_steps_count [OF assms] internal_step_enabled [of s'] by (cases "work_in_progress s' = 0") auto
qed

text \<open>A broker with capacity 1 whose queue is full, with one delivery of an earlier message in flight.\<close>

definition full_broker :: Broker where
  "full_broker = \<lparr>queues = \<lparr>main_queue = \<lparr>queue = [new_message\<lparr>msg_id := 2, topic := ''a''\<rparr>], capacity = 1\<rparr>, dlq = new_queue 1\<rparr>,
     wal = \<lparr>wal_file = [], active_buf = [], flush_buf = [], wal_running = True, flushing = False\<rparr>,
     router = subscribe new_router ''a'' [] 4, ack_engine = track (new_ack_engine 5000 3) 0 (new_message\<lparr>msg_id := 1, topic := ''a''\<rparr>) 4,
     next_id = 3, server_ptr = None\<rparr>"

definition full_threads :: Threads where
  "full_threads = \<lparr>shared = full_broker, dispatching = None, engine_section = None, logger = L_idle\<rparr>"

theorem operations_complete_with_room_witness:
  "(1 :: nat) \<le> work_in_progress (full_threads\<lparr>dispatching := Some (new_message, [])\<rparr>)"
proof -
  have "(internal_step ^^ 1) (full_threads\<lparr>dispatching := Some (new_message, [])\<rparr>) full_threads"
    using d_done [of "full_threads\<lparr>dispatching := Some (new_message, [])\<rparr>" new_message]
    by (simp add: eq_OO internal_step_def full_threads_def)
  from operations_complete_with_room [OF this] show ?thesis by blast
qed



end
