(* ===== verification/MQ_Shutdown.thy ===== *)
theory MQ_Shutdown
  imports MQ_Threads
begin

text \<open>
  The life of the broker process: the loops of its threads with their conditions, the signal,
  and the shutdown at the end of \<open>main.cpp\<close>, which stops and joins one thread after the other
  before the components are destroyed. Connection threads are detached and joined by nobody.
\<close>

section \<open>Definitions\<close>

text \<open>Where \<open>main\<close> is: in the loop that waits for the signal, in the four joins, or past them.\<close>

datatype main_pc = M_waiting | M_join_scanner | M_join_accept | M_join_dispatcher | M_join_logger | M_returned

text \<open>
  Where the loop of a thread is: at its condition; past it, asleep or waiting for an item or a
  connection; in its body, holding the mutex (only the scanner); or over.
\<close>

datatype loop_pc = At_condition | Polling | Inside | Ended

text \<open>
  The flags are \<open>g_running\<close>, the \<open>running_\<close> of the engine (in its record) and the \<open>running_\<close> of the
  server, kept here because a connection step may replace the record of the server as a whole.
\<close>

record Process =
  work :: Threads
  g_running :: bool
  server_running :: bool
  main_at :: main_pc
  scanner_at :: loop_pc
  dispatcher_at :: loop_pc
  logger_at :: loop_pc
  accept_at :: loop_pc
  readers :: nat

definition start_process :: "Broker \<Rightarrow> Process" where
  "start_process b = \<lparr>work = \<lparr>shared = b, dispatching = None, engine_section = None, logger = L_idle\<rparr>,
     g_running = True, server_running = True, main_at = M_waiting,
     scanner_at = At_condition, dispatcher_at = At_condition, logger_at = At_condition, accept_at = At_condition,
     readers = 0\<rparr>"

text \<open>
  \<open>main\<close> after the start: the loop until the signal, \<open>AckEngine::stop\<close> up to its join, the join and
  \<open>TcpServer::stop\<close> up to its join, then the remaining joins; the log is closed by its destructor.
\<close>

inductive main_thread :: "Process \<Rightarrow> Process \<Rightarrow> bool" where
  m_stop_engine: "main_at p = M_waiting \<Longrightarrow> \<not> g_running p \<Longrightarrow>
    main_thread p (p\<lparr>work := with_engine (work p) (stop_ack_engine (ack_engine (shared (work p)))), main_at := M_join_scanner\<rparr>)"
| m_stop_server: "main_at p = M_join_scanner \<Longrightarrow> scanner_at p = Ended \<Longrightarrow>
    main_thread p (p\<lparr>work := (work p)\<lparr>shared := (shared (work p))\<lparr>server_ptr := map_option stop (server_ptr (shared (work p)))\<rparr>\<rparr>,
      server_running := False, main_at := M_join_accept\<rparr>)"
| m_joined_accept: "main_at p = M_join_accept \<Longrightarrow> accept_at p = Ended \<Longrightarrow> main_thread p (p\<lparr>main_at := M_join_dispatcher\<rparr>)"
| m_joined_dispatcher: "main_at p = M_join_dispatcher \<Longrightarrow> dispatcher_at p = Ended \<Longrightarrow> main_thread p (p\<lparr>main_at := M_join_logger\<rparr>)"
| m_return: "main_at p = M_join_logger \<Longrightarrow> logger_at p = Ended \<Longrightarrow>
    main_thread p (p\<lparr>work := (work p)\<lparr>shared := (shared (work p))\<lparr>wal := close_wal (wal (shared (work p)))\<rparr>\<rparr>, main_at := M_returned\<rparr>)"

inductive scanner_thread :: "Process \<Rightarrow> Process \<Rightarrow> bool" where
  sc_check: "scanner_at p = At_condition \<Longrightarrow> ack_running (ack_engine (shared (work p))) \<Longrightarrow> scanner_thread p (p\<lparr>scanner_at := Polling\<rparr>)"
| sc_end: "scanner_at p = At_condition \<Longrightarrow> \<not> ack_running (ack_engine (shared (work p))) \<Longrightarrow> scanner_thread p (p\<lparr>scanner_at := Ended\<rparr>)"
| sc_enter: "scanner_at p = Polling \<Longrightarrow> engine_section (work p) = None \<Longrightarrow>
    expire now (deadlines (ack_engine (shared (work p)))) (in_flight (ack_engine (shared (work p)))) = (es, dl, left) \<Longrightarrow>
    scanner_thread p (p\<lparr>work := with_engine ((work p)\<lparr>engine_section := Some es\<rparr>) ((ack_engine (shared (work p)))\<lparr>deadlines := dl\<rparr>),
      scanner_at := Inside\<rparr>)"
| sc_fail: "scanner_at p = Inside \<Longrightarrow> engine_section (work p) = Some (x # es) \<Longrightarrow> engine_go_on (work p) w \<Longrightarrow>
    scanner_thread p (p\<lparr>work := w\<rparr>)"
| sc_leave: "scanner_at p = Inside \<Longrightarrow> engine_section (work p) = Some [] \<Longrightarrow>
    scanner_thread p (p\<lparr>work := (work p)\<lparr>engine_section := None\<rparr>, scanner_at := At_condition\<rparr>)"

inductive dispatcher_thread :: "Process \<Rightarrow> Process \<Rightarrow> bool" where
  dp_check: "dispatcher_at p = At_condition \<Longrightarrow> dispatching (work p) = None \<Longrightarrow> g_running p \<Longrightarrow>
    dispatcher_thread p (p\<lparr>dispatcher_at := Polling\<rparr>)"
| dp_end: "dispatcher_at p = At_condition \<Longrightarrow> dispatching (work p) = None \<Longrightarrow> \<not> g_running p \<Longrightarrow>
    dispatcher_thread p (p\<lparr>dispatcher_at := Ended\<rparr>)"
| dp_timeout: "dispatcher_at p = Polling \<Longrightarrow> queue (main_queue (queues (shared (work p)))) = [] \<Longrightarrow>
    dispatcher_thread p (p\<lparr>dispatcher_at := At_condition\<rparr>)"
| dp_take: "dispatcher_at p = Polling \<Longrightarrow> dispatcher_start (work p) w \<Longrightarrow>
    dispatcher_thread p (p\<lparr>work := w, dispatcher_at := At_condition\<rparr>)"
| dp_go_on: "dispatcher_at p = At_condition \<Longrightarrow> dispatcher_go_on (work p) w \<Longrightarrow> dispatcher_thread p (p\<lparr>work := w\<rparr>)"

inductive logger_thread :: "Process \<Rightarrow> Process \<Rightarrow> bool" where
  lg_check: "logger_at p = At_condition \<Longrightarrow> logger (work p) = L_idle \<Longrightarrow> g_running p \<Longrightarrow> logger_thread p (p\<lparr>logger_at := Polling\<rparr>)"
| lg_end: "logger_at p = At_condition \<Longrightarrow> logger (work p) = L_idle \<Longrightarrow> \<not> g_running p \<Longrightarrow> logger_thread p (p\<lparr>logger_at := Ended\<rparr>)"
| lg_timeout: "logger_at p = Polling \<Longrightarrow> queue (dlq (queues (shared (work p)))) = [] \<Longrightarrow>
    logger_thread p (p\<lparr>logger_at := At_condition\<rparr>)"
| lg_take: "logger_at p = Polling \<Longrightarrow> logger_start (work p) w \<Longrightarrow> logger_thread p (p\<lparr>work := w, logger_at := At_condition\<rparr>)"
| lg_go_on: "logger_at p = At_condition \<Longrightarrow> logger_go_on (work p) w \<Longrightarrow> logger_thread p (p\<lparr>work := w\<rparr>)"

text \<open>
  The accept loop. Whether closing the listening socket makes an \<open>accept\<close> return that is waiting
  in another thread is up to the operating system: \<open>wakes\<close>.
\<close>

inductive accept_thread :: "bool \<Rightarrow> Process \<Rightarrow> Process \<Rightarrow> bool" for wakes where
  ac_check: "accept_at p = At_condition \<Longrightarrow> server_running p \<Longrightarrow> accept_thread wakes p (p\<lparr>accept_at := Polling\<rparr>)"
| ac_end: "accept_at p = At_condition \<Longrightarrow> \<not> server_running p \<Longrightarrow> accept_thread wakes p (p\<lparr>accept_at := Ended\<rparr>)"
| ac_closed: "accept_at p = Polling \<Longrightarrow> \<not> server_running p \<Longrightarrow> wakes \<Longrightarrow> accept_thread wakes p (p\<lparr>accept_at := Ended\<rparr>)"

text \<open>A connection thread that holds the mutex of the engine fails its deliveries.\<close>

inductive reader_section :: "Process \<Rightarrow> Process \<Rightarrow> bool" where
  rd_go_on: "scanner_at p \<noteq> Inside \<Longrightarrow> engine_go_on (work p) w \<Longrightarrow> reader_section p (p\<lparr>work := w\<rparr>)"

text \<open>
  What comes from outside: the signal, a connection, an error of \<open>accept\<close>, which ends its loop,
  and the frames of the clients. Connection threads enter the engine for an ACK, a NACK and a
  lost client, none of which touches the heap of deadlines; the scan is the scanner's alone.
  An \<open>accept\<close> that is waiting may still return a connection after the socket was closed.
\<close>

inductive outside_event :: "Process \<Rightarrow> Process \<Rightarrow> bool" where
  ev_signal: "outside_event p (p\<lparr>g_running := False\<rparr>)"
| ev_connection: "accept_at p = Polling \<Longrightarrow> outside_event p (p\<lparr>readers := readers p + 1, accept_at := At_condition\<rparr>)"
| ev_accept_error: "accept_at p = Polling \<Longrightarrow> outside_event p (p\<lparr>accept_at := Ended\<rparr>)"
| ev_request: "0 < readers p \<Longrightarrow> client_step (work p) w \<Longrightarrow> outside_event p (p\<lparr>work := w\<rparr>)"
| ev_engine: "0 < readers p \<Longrightarrow> engine_enter (work p) w \<Longrightarrow>
    deadlines (ack_engine (shared w)) = deadlines (ack_engine (shared (work p))) \<Longrightarrow> outside_event p (p\<lparr>work := w\<rparr>)"
| ev_connection_ends: "0 < readers p \<Longrightarrow> outside_event p (p\<lparr>readers := readers p - 1\<rparr>)"

definition own_step :: "bool \<Rightarrow> Process \<Rightarrow> Process \<Rightarrow> bool" where
  "own_step wakes p p' \<longleftrightarrow> main_thread p p' \<or> scanner_thread p p' \<or> dispatcher_thread p p' \<or> logger_thread p p' \<or>
     accept_thread wakes p p' \<or> reader_section p p'"

definition process_step :: "bool \<Rightarrow> Process \<Rightarrow> Process \<Rightarrow> bool" where
  "process_step wakes p p' \<longleftrightarrow> own_step wakes p p' \<or> outside_event p p'"

lemmas process_cases = main_thread.cases scanner_thread.cases dispatcher_thread.cases logger_thread.cases
  accept_thread.cases reader_section.cases outside_event.cases

inductive process_reachable :: "bool \<Rightarrow> Broker \<Rightarrow> Process \<Rightarrow> bool" for wakes b where
  initially: "process_reachable wakes b (start_process b)"
| step: "process_reachable wakes b p \<Longrightarrow> process_step wakes p p' \<Longrightarrow> process_reachable wakes b p'"


section \<open>What a step leaves alone\<close>

lemma engine_go_on_frame:
  "engine_go_on s s' \<Longrightarrow> dispatching s' = dispatching s \<and> logger s' = logger s \<and>
     ack_running (ack_engine (shared s')) = ack_running (ack_engine (shared s))"
  by (auto elim!: engine_go_on.cases)

lemma engine_enter_frame:
  "engine_enter s s' \<Longrightarrow> engine_section s = None \<and> dispatching s' = dispatching s \<and> logger s' = logger s \<and>
     ack_running (ack_engine (shared s')) = ack_running (ack_engine (shared s))"
  by (auto elim!: engine_enter.cases simp: with_engine_def ack_def split: option.splits)

lemma dispatcher_frame:
  "dispatcher_start s s' \<or> dispatcher_go_on s s' \<Longrightarrow> engine_section s' = engine_section s \<and> logger s' = logger s \<and>
     ack_running (ack_engine (shared s')) = ack_running (ack_engine (shared s))"
  by (auto elim!: dispatcher_start.cases dispatcher_go_on.cases simp: send_frame_def track_def Let_def)

lemma logger_frame:
  "logger_start s s' \<or> logger_go_on s s' \<Longrightarrow> engine_section s' = engine_section s \<and> dispatching s' = dispatching s \<and>
     ack_engine (shared s') = ack_engine (shared s)"
  by (auto elim!: logger_start.cases logger_go_on.cases simp: push_main_eq split: if_splits)

lemma client_frame:
  "client_step s s' \<Longrightarrow> engine_section s' = engine_section s \<and> dispatching s' = dispatching s \<and> logger s' = logger s \<and>
     ack_engine (shared s') = ack_engine (shared s)"
  by (auto elim!: client_step.cases simp: push_main_eq split: if_splits)

lemmas work_frames = engine_go_on_frame engine_enter_frame dispatcher_frame logger_frame client_frame


section \<open>The invariant of the process\<close>

definition threads_inv :: "Process \<Rightarrow> bool" where
  "threads_inv p \<longleftrightarrow> (scanner_at p = Inside \<longrightarrow> engine_section (work p) \<noteq> None) \<and>
     (dispatcher_at p = At_condition \<or> dispatcher_at p \<noteq> Inside \<and> dispatching (work p) = None) \<and>
     (logger_at p = At_condition \<or> logger_at p \<noteq> Inside \<and> logger (work p) = L_idle) \<and> accept_at p \<noteq> Inside"

definition main_inv :: "Process \<Rightarrow> bool" where
  "main_inv p \<longleftrightarrow>
     (main_at p \<noteq> M_waiting \<longrightarrow> \<not> g_running p \<and> \<not> ack_running (ack_engine (shared (work p)))) \<and>
     (main_at p \<notin> {M_waiting, M_join_scanner} \<longrightarrow> scanner_at p = Ended \<and> \<not> server_running p) \<and>
     (main_at p \<in> {M_join_dispatcher, M_join_logger, M_returned} \<longrightarrow> accept_at p = Ended) \<and>
     (main_at p \<in> {M_join_logger, M_returned} \<longrightarrow> dispatcher_at p = Ended) \<and>
     (main_at p = M_returned \<longrightarrow> logger_at p = Ended)"

lemma threads_inv_step:
  assumes "threads_inv p" "process_step wakes p p'"
  shows "threads_inv p'"
  using assms(2) unfolding process_step_def own_step_def
proof (elim disjE)
  assume "main_thread p p'"
  then show ?thesis using assms(1) by cases (auto simp: threads_inv_def with_engine_def)
next
  assume "scanner_thread p p'"
  then show ?thesis
    using assms(1) by cases (auto simp: threads_inv_def with_engine_def dest: engine_go_on_frame elim: engine_go_on.cases)
next
  assume "dispatcher_thread p p'"
  then show ?thesis using assms(1) by cases (auto simp: threads_inv_def dest!: dispatcher_frame [OF disjI1] dispatcher_frame [OF disjI2])
next
  assume "logger_thread p p'"
  then show ?thesis using assms(1) by cases (auto simp: threads_inv_def dest!: logger_frame [OF disjI1] logger_frame [OF disjI2])
next
  assume "accept_thread wakes p p'"
  then show ?thesis using assms(1) by cases (auto simp: threads_inv_def)
next
  assume "reader_section p p'"
  then show ?thesis using assms(1) by cases (auto simp: threads_inv_def dest: engine_go_on_frame)
next
  assume "outside_event p p'"
  then show ?thesis using assms(1) by cases (auto simp: threads_inv_def dest!: engine_enter_frame client_frame)
qed

lemma main_inv_step:
  assumes "main_inv p" "process_step wakes p p'"
  shows "main_inv p'"
  using assms(2) unfolding process_step_def own_step_def
proof (elim disjE)
  assume "main_thread p p'"
  then show ?thesis using assms(1) by cases (simp_all add: main_inv_def with_engine_def stop_ack_engine_def)
next
  assume "scanner_thread p p'"
  then show ?thesis
    using assms(1) by cases (simp_all add: main_inv_def with_engine_def engine_go_on_frame)
next
  assume "dispatcher_thread p p'"
  then show ?thesis using assms(1) by cases (auto simp: main_inv_def dest!: dispatcher_frame [OF disjI1] dispatcher_frame [OF disjI2])
next
  assume "logger_thread p p'"
  then show ?thesis using assms(1) by cases (auto simp: main_inv_def dest!: logger_frame [OF disjI1] logger_frame [OF disjI2])
next
  assume "accept_thread wakes p p'"
  then show ?thesis using assms(1) by cases (auto simp: main_inv_def)
next
  assume "reader_section p p'"
  then show ?thesis using assms(1) by cases (auto simp: main_inv_def dest: engine_go_on_frame)
next
  assume "outside_event p p'"
  then show ?thesis using assms(1) by cases (auto simp: main_inv_def dest!: engine_enter_frame client_frame)
qed

lemma reachable_inv: "process_reachable wakes b p \<Longrightarrow> threads_inv p \<and> main_inv p"
proof (induction rule: process_reachable.induct)
  case initially
  then show ?case by (simp add: start_process_def threads_inv_def main_inv_def)
next
  case (step p p')
  then show ?case using threads_inv_step main_inv_step by blast
qed

lemma reachable_steps: "(process_step wakes)\<^sup>*\<^sup>* p p' \<Longrightarrow> process_reachable wakes b p \<Longrightarrow> process_reachable wakes b p'"
  by (induction rule: rtranclp_induct) (auto intro: process_reachable.step)

lemma own_steps: "(own_step wakes)\<^sup>*\<^sup>* p p' \<Longrightarrow> (process_step wakes)\<^sup>*\<^sup>* p p'"
  by (rule rtranclp_mono [THEN predicate2D]) (auto simp: process_step_def)


section \<open>The steps that are left\<close>

text \<open>
  Once \<open>main\<close> is past its loop a thread that is past its condition gets one more item at
  most: first the number of such threads goes down, then the work in progress, the joins and
  the loops that are not over.
\<close>

definition polling :: "loop_pc \<Rightarrow> nat" where
  "polling l = (if l = Polling then 1 else 0)"

definition not_ended :: "loop_pc \<Rightarrow> nat" where
  "not_ended l = (if l = Ended then 0 else 1)"

fun joins_left :: "main_pc \<Rightarrow> nat" where
  "joins_left M_waiting = 5"
| "joins_left M_join_scanner = 4"
| "joins_left M_join_accept = 3"
| "joins_left M_join_dispatcher = 2"
| "joins_left M_join_logger = 1"
| "joins_left M_returned = 0"

definition items_left :: "Process \<Rightarrow> nat" where
  "items_left p = polling (scanner_at p) + polling (dispatcher_at p) + polling (logger_at p)"

definition steps_left :: "Process \<Rightarrow> nat" where
  "steps_left p = work_in_progress (work p) + joins_left (main_at p) + not_ended (scanner_at p) + not_ended (dispatcher_at p) +
     not_ended (logger_at p) + (case accept_at p of At_condition \<Rightarrow> 2 | Polling \<Rightarrow> 1 | _ \<Rightarrow> 0)"

definition shutting_down :: "Process \<Rightarrow> bool" where
  "shutting_down p \<longleftrightarrow> main_at p \<noteq> M_waiting \<and> threads_inv p \<and> main_inv p"

lemma shutting_down_step: "shutting_down p \<Longrightarrow> own_step wakes p p' \<Longrightarrow> shutting_down p'"
proof -
  assume p: "shutting_down p" and st: "own_step wakes p p'"
  then have "process_step wakes p p'" by (simp add: process_step_def)
  moreover have "main_at p' \<noteq> M_waiting"
    using st p unfolding own_step_def shutting_down_def by (elim disjE process_cases) simp_all
  ultimately show ?thesis
    using p threads_inv_step main_inv_step unfolding shutting_down_def by blast
qed

lemma work_less:
  "dispatcher_go_on s s' \<or> logger_go_on s s' \<or> engine_go_on s s' \<Longrightarrow> Suc (work_in_progress s') = work_in_progress s"
  using internal_step_less unfolding internal_step_def .

lemmas left_defs = items_left_def steps_left_def polling_def not_ended_def

lemma shutdown_step_less:
  assumes "shutting_down p" "own_step wakes p p'"
  shows "(p', p) \<in> items_left <*mlex*> measure steps_left"
proof -
  have off: "\<not> g_running p" "\<not> ack_running (ack_engine (shared (work p)))" "main_at p \<noteq> M_waiting"
    "accept_at p \<noteq> Inside" using assms(1) by (auto simp: shutting_down_def main_inv_def threads_inv_def)
  have "items_left p' < items_left p \<or> items_left p' = items_left p \<and> steps_left p' < steps_left p"
    using assms(2) unfolding own_step_def
  proof (elim disjE)
    assume "main_thread p p'"
    then show ?thesis using off by cases (auto simp: left_defs work_in_progress_def with_engine_def)
  next
    assume "scanner_thread p p'"
    then show ?thesis
      using off by cases (auto simp: left_defs with_engine_def work_in_progress_def [of "_\<lparr>engine_section := None\<rparr>"]
        work_in_progress_def [of "work p"] dest!: work_less [OF disjI2, OF disjI2])
  next
    assume "dispatcher_thread p p'"
    then show ?thesis using off by cases (auto simp: left_defs dest!: work_less [OF disjI1])
  next
    assume "logger_thread p p'"
    then show ?thesis using off by cases (auto simp: left_defs dest!: work_less [OF disjI2, OF disjI1])
  next
    assume "accept_thread wakes p p'"
    then show ?thesis using off by cases (auto simp: left_defs)
  next
    assume "reader_section p p'"
    then show ?thesis using off by cases (auto simp: left_defs dest!: work_less [OF disjI2, OF disjI2])
  qed
  then show ?thesis by (auto simp: mlex_prod_def)
qed

lemma shutdown_no_infinite_run:
  assumes "shutting_down (f 0)"
  shows "\<exists>i. \<not> own_step wakes (f i) (f (Suc i))"
proof (rule ccontr)
  assume "\<not> ?thesis"
  then have st: "own_step wakes (f i) (f (Suc i))" for i by blast
  have "shutting_down (f i)" for i
    by (induction i) (use assms st shutting_down_step in blast)+
  then have "(f (Suc i), f i) \<in> items_left <*mlex*> measure steps_left" for i
    using shutdown_step_less st by blast
  moreover have "wf (items_left <*mlex*> measure steps_left)" by (simp add: wf_mlex)
  ultimately show False unfolding wf_iff_no_infinite_down_chain by blast
qed


section \<open>Somebody can go on\<close>

definition queues_have_room :: "Process \<Rightarrow> bool" where
  "queues_have_room p \<longleftrightarrow> has_room (main_queue (queues (shared (work p)))) \<and> has_room (dlq (queues (shared (work p))))"

definition halted :: "bool \<Rightarrow> Process \<Rightarrow> bool" where
  "halted wakes p \<longleftrightarrow> (\<forall>p'. \<not> own_step wakes p p')"

text \<open>With room in the queues, a process in which no thread can go on has nobody in the engine, and
  its loops are over when their conditions are false.\<close>

lemma halted_section:
  assumes "halted wakes p" "queues_have_room p"
  shows "engine_section (work p) = None"
proof (rule ccontr)
  assume some: "engine_section (work p) \<noteq> None"
  with assms(2) obtain w where w: "engine_go_on (work p) w"
    using engine_go_on_enabled [of "work p"] by (auto simp: queues_have_room_def)
  show False
  proof (cases "scanner_at p = Inside")
    case False
    with w assms(1) show False using rd_go_on by (auto simp: halted_def own_step_def)
  next
    case True
    obtain es where "engine_section (work p) = Some es" using some by blast
    with True w assms(1) show False
      using sc_fail [of p _ _ w] sc_leave [of p] by (cases es) (auto simp: halted_def own_step_def)
  qed
qed

lemma halted_scanner:
  assumes "halted wakes p" "queues_have_room p" "threads_inv p" "\<not> ack_running (ack_engine (shared (work p)))"
  shows "scanner_at p = Ended"
proof -
  have none: "engine_section (work p) = None" using halted_section assms by blast
  obtain es dl left where "expire 0 (deadlines (ack_engine (shared (work p)))) (in_flight (ack_engine (shared (work p)))) = (es, dl, left)"
    by (metis prod_cases3)
  then show ?thesis
    using assms none sc_enter [of p 0 es dl left] sc_end [of p]
    by (cases "scanner_at p") (auto simp: halted_def own_step_def threads_inv_def)
qed

lemma halted_dispatcher:
  assumes "halted wakes p" "queues_have_room p" "threads_inv p" "\<not> g_running p"
  shows "dispatcher_at p = Ended"
proof -
  have "dispatching (work p) = None" if "dispatcher_at p = At_condition"
    using that assms(1) dispatcher_go_on_enabled [OF halted_section [OF assms(1,2)]] dp_go_on [of p]
    unfolding halted_def own_step_def by blast
  moreover have "dispatcher_at p \<noteq> Polling"
  proof
    assume at: "dispatcher_at p = Polling"
    then have "dispatching (work p) = None" using assms(3) by (simp add: threads_inv_def)
    then show False
      using at assms(1) dp_timeout [of p] dp_take [of p] d_take [of "work p"]
      by (cases "queue (main_queue (queues (shared (work p))))") (auto simp: halted_def own_step_def)
  qed
  ultimately show ?thesis
    using assms dp_end [of p] by (cases "dispatcher_at p") (auto simp: halted_def own_step_def threads_inv_def)
qed

lemma halted_logger:
  assumes "halted wakes p" "queues_have_room p" "threads_inv p" "\<not> g_running p"
  shows "logger_at p = Ended"
proof -
  have "logger (work p) = L_idle" if "logger_at p = At_condition"
    using that assms(1,2) logger_go_on_enabled [of "work p"] lg_go_on [of p]
    by (auto simp: halted_def own_step_def queues_have_room_def)
  moreover have "logger_at p \<noteq> Polling"
  proof
    assume at: "logger_at p = Polling"
    then have "logger (work p) = L_idle" using assms(3) by (simp add: threads_inv_def)
    then show False
      using at assms(1) lg_timeout [of p] lg_take [of p] l_take [of "work p"]
      by (cases "queue (dlq (queues (shared (work p))))") (auto simp: halted_def own_step_def)
  qed
  ultimately show ?thesis
    using assms lg_end [of p] by (cases "logger_at p") (auto simp: halted_def own_step_def threads_inv_def)
qed

lemma halted_accept:
  assumes "halted True p" "threads_inv p" "\<not> server_running p"
  shows "accept_at p = Ended"
  using assms ac_end [of p True] ac_closed [of p True]
  by (cases "accept_at p") (auto simp: halted_def own_step_def threads_inv_def)

lemma halted_returned:
  assumes "halted True p" "shutting_down p" "queues_have_room p"
  shows "main_at p = M_returned"
proof -
  have inv: "threads_inv p" "main_inv p" "main_at p \<noteq> M_waiting" using assms(2) by (auto simp: shutting_down_def)
  then have off: "\<not> g_running p" "\<not> ack_running (ack_engine (shared (work p)))"
    "main_at p = M_join_accept \<Longrightarrow> \<not> server_running p" by (auto simp: main_inv_def)
  have ended: "scanner_at p = Ended" "dispatcher_at p = Ended" "logger_at p = Ended"
    using halted_scanner halted_dispatcher halted_logger assms inv off by blast+
  have no: "\<not> main_thread p p'" for p' using assms(1) by (auto simp: halted_def own_step_def)
  show ?thesis
    using no m_stop_server [of p] m_joined_accept [of p] m_joined_dispatcher [of p] m_return [of p] ended
      halted_accept [OF assms(1) inv(1)] off(3) inv(3) by (cases "main_at p") blast+
qed


section \<open>Properties\<close>

text \<open>
  C12: a shutdown completes. Once \<open>main\<close> has left its loop and told the engine to stop, and the clients
  are quiet, the threads of the broker cannot run forever in any interleaving: each takes one
  more item at most and then ends. If closing the listening socket wakes the accept loop, a
  state in which no thread can go on is one in which \<open>main\<close> has returned, unless a queue is full.
\<close>

theorem shutdown_completes:
  assumes "process_reachable wakes b p" and "main_at p \<noteq> M_waiting"
  shows "\<not> (\<exists>f. f 0 = p \<and> (\<forall>i. own_step wakes (f i) (f (Suc i)))) \<and>
    (\<forall>p'. wakes \<and> (own_step wakes)\<^sup>*\<^sup>* p p' \<and> (\<forall>q. \<not> own_step wakes p' q) \<longrightarrow>
       main_at p' = M_returned \<or> \<not> has_room (main_queue (queues (shared (work p')))) \<or>
       \<not> has_room (dlq (queues (shared (work p')))))"
proof -
  have sd: "shutting_down p" using assms reachable_inv [OF assms(1)] by (simp add: shutting_down_def)
  then have "\<not> (\<exists>f. f 0 = p \<and> (\<forall>i. own_step wakes (f i) (f (Suc i))))"
    using shutdown_no_infinite_run by blast
  moreover have "shutting_down p'" if "(own_step wakes)\<^sup>*\<^sup>* p p'" for p'
    using that sd by (induction rule: rtranclp_induct) (auto intro: shutting_down_step)
  then have "main_at p' = M_returned \<or> \<not> queues_have_room p'" if "wakes" "(own_step wakes)\<^sup>*\<^sup>* p p'" "halted wakes p'" for p'
    using that halted_returned [of p'] by auto
  ultimately show ?thesis unfolding halted_def queues_have_room_def by blast
qed

text \<open>The process of a broker that was told to stop before any thread looked at its condition.\<close>

definition stopped_early :: "Broker \<Rightarrow> Process" where
  "stopped_early b = (start_process b)\<lparr>g_running := False,
     work := with_engine (work (start_process b)) (stop_ack_engine (ack_engine b)), main_at := M_join_scanner\<rparr>"

lemma stopped_early_reachable: "process_reachable wakes b (stopped_early b)"
proof -
  let ?p = "(start_process b)\<lparr>g_running := False\<rparr>"
  have "process_reachable wakes b ?p"
    by (rule process_reachable.step [OF initially]) (auto simp: process_step_def intro: ev_signal)
  moreover have "process_step wakes ?p (stopped_early b)"
    using m_stop_engine [of ?p] by (simp add: process_step_def own_step_def stopped_early_def start_process_def)
  ultimately show ?thesis by (rule process_reachable.step)
qed

theorem shutdown_completes_witness:
  "\<not> (\<exists>f. f 0 = stopped_early full_broker \<and> (\<forall>i. own_step True (f i) (f (Suc i))))"
  using shutdown_completes [OF stopped_early_reachable [of True full_broker]] by (simp add: stopped_early_def)

text \<open>
  The scanner holds the engine and waits for room in the main queue, and the dispatcher, the only
  one to make room, is over: nothing ever changes.
\<close>

definition hung :: "Process \<Rightarrow> bool" where
  "hung p \<longleftrightarrow> main_at p \<in> {M_waiting, M_join_scanner} \<and> scanner_at p = Inside \<and> dispatcher_at p = Ended \<and>
     (\<exists>k e es. engine_section (work p) = Some ((k, e) # es) \<and> fl_retry e < max_retries (ack_engine (shared (work p)))) \<and>
     \<not> has_room (main_queue (queues (shared (work p))))"

definition same_deliveries :: "Process \<Rightarrow> Process \<Rightarrow> bool" where
  "same_deliveries p p' \<longleftrightarrow> main_queue (queues (shared (work p'))) = main_queue (queues (shared (work p))) \<and>
     in_flight (ack_engine (shared (work p'))) = in_flight (ack_engine (shared (work p)))"

lemma hung_step:
  assumes "hung p" "process_step wakes p p'"
  shows "hung p' \<and> same_deliveries p p'"
proof -
  obtain k e es where st: "main_at p \<in> {M_waiting, M_join_scanner}" "scanner_at p = Inside" "dispatcher_at p = Ended"
    "engine_section (work p) = Some ((k, e) # es)" "fl_retry e < max_retries (ack_engine (shared (work p)))"
    "\<not> length (queue (main_queue (queues (shared (work p))))) < capacity (main_queue (queues (shared (work p))))"
    using assms(1) by (auto simp: hung_def has_room_def)
  have no: "\<not> engine_go_on (work p) w" "\<not> engine_enter (work p) w" "\<not> logger_go_on (work p) w" for w
    using st by (auto simp: requeue_or_dlq_eq push_main_eq elim!: engine_go_on.cases engine_enter.cases logger_go_on.cases
        split: if_splits)
  have cl: "main_queue (queues (shared w)) = main_queue (queues (shared (work p)))" if "client_step (work p) w" for w
    using that st(6) by cases (auto simp: push_main_eq split: if_splits)
  have lg: "main_queue (queues (shared w)) = main_queue (queues (shared (work p)))" if "logger_start (work p) w" for w
    using that by cases auto
  show ?thesis
    using assms(2) st no unfolding process_step_def own_step_def
    by (elim disjE process_cases)
      (auto simp: hung_def same_deliveries_def has_room_def with_engine_def stop_ack_engine_def cl lg
        dest!: client_frame logger_frame [OF disjI1])
qed

lemma hung_forever: "(process_step wakes)\<^sup>*\<^sup>* p p' \<Longrightarrow> hung p \<Longrightarrow> hung p' \<and> same_deliveries p p'"
proof (induction rule: rtranclp_induct)
  case base
  then show ?case by (simp add: same_deliveries_def)
next
  case (step q r)
  then show ?case using hung_step [of q wakes r] by (auto simp: same_deliveries_def)
qed

text \<open>
  C13: a signal that comes while the main queue is full and a delivery with retries left has
  timed out can hang the broker for good: the dispatcher, which sees the signal first, stops
  consuming while the scanner, which \<open>main\<close> joins before anything else, waits for room under the
  mutex of the engine. From then on no step of any thread or client lets \<open>main\<close> return, takes a
  message out of the queue or settles a delivery; a second signal changes nothing.
\<close>

theorem shutdown_hangs_on_full_queue:
  assumes "main_at p = M_waiting" and "scanner_at p = Polling" and "engine_section (work p) = None"
    and "dispatcher_at p = At_condition" and "dispatching (work p) = None"
    and "length (queue (main_queue (queues (shared (work p))))) = capacity (main_queue (queues (shared (work p))))"
    and "expire now (deadlines (ack_engine (shared (work p)))) (in_flight (ack_engine (shared (work p)))) = ((k, e) # es, dl, left)"
    and "fl_retry e < max_retries (ack_engine (shared (work p)))"
  shows "\<exists>p'. (process_step wakes)\<^sup>*\<^sup>* p p' \<and> (\<forall>p''. (process_step wakes)\<^sup>*\<^sup>* p' p'' \<longrightarrow> main_at p'' \<noteq> M_returned \<and>
    main_queue (queues (shared (work p''))) = main_queue (queues (shared (work p))) \<and>
    in_flight (ack_engine (shared (work p''))) = in_flight (ack_engine (shared (work p))))"
proof -
  let ?p1 = "p\<lparr>work := with_engine ((work p)\<lparr>engine_section := Some ((k, e) # es)\<rparr>) ((ack_engine (shared (work p)))\<lparr>deadlines := dl\<rparr>),
      scanner_at := Inside\<rparr>"
  let ?p2 = "?p1\<lparr>g_running := False\<rparr>"
  let ?p3 = "?p2\<lparr>dispatcher_at := Ended\<rparr>"
  have "process_step wakes p ?p1"
    using sc_enter [OF assms(2,3,7)] by (simp add: process_step_def own_step_def)
  moreover have "process_step wakes ?p1 ?p2" using ev_signal by (simp add: process_step_def)
  moreover have "process_step wakes ?p2 ?p3"
    using dp_end [of ?p2] assms(4,5) by (simp add: process_step_def own_step_def with_engine_def)
  ultimately have "(process_step wakes)\<^sup>*\<^sup>* p ?p3"
    by (meson rtranclp.rtrancl_into_rtrancl rtranclp.rtrancl_refl)
  moreover have "hung ?p3" using assms by (simp add: hung_def has_room_def with_engine_def)
  moreover have "same_deliveries p ?p3" by (simp add: same_deliveries_def with_engine_def)
  ultimately show ?thesis
    using hung_forever [of wakes ?p3] unfolding hung_def same_deliveries_def by fastforce
qed

theorem shutdown_hangs_on_full_queue_witness:
  "\<exists>p'. (process_step True)\<^sup>*\<^sup>* ((start_process full_broker)\<lparr>scanner_at := Polling\<rparr>) p' \<and>
    (\<forall>p''. (process_step True)\<^sup>*\<^sup>* p' p'' \<longrightarrow> main_at p'' \<noteq> M_returned \<and>
      main_queue (queues (shared (work p''))) = main_queue (queues full_broker) \<and>
      in_flight (ack_engine (shared (work p''))) = in_flight (ack_engine full_broker))"
proof -
  let ?p = "(start_process full_broker)\<lparr>scanner_at := Polling\<rparr>"
  have "\<exists>k e es dl left. expire 5000 (deadlines (ack_engine full_broker)) (in_flight (ack_engine full_broker)) = ((k, e) # es, dl, left) \<and>
      fl_retry e < max_retries (ack_engine full_broker)"
    by (simp add: full_broker_def track_def new_ack_engine_def Let_def pq_push_def)
  then obtain k e es dl left where
    "expire 5000 (deadlines (ack_engine (shared (work ?p)))) (in_flight (ack_engine (shared (work ?p)))) = ((k, e) # es, dl, left)"
    "fl_retry e < max_retries (ack_engine (shared (work ?p)))" by (auto simp: start_process_def)
  then show ?thesis
    using shutdown_hangs_on_full_queue [of ?p 5000 k e es dl left True]
    by (simp add: start_process_def full_broker_def)
qed

text \<open>Connections that arrive, and an orderly shutdown with the threads still at their conditions.\<close>

lemma connections_reachable: "process_reachable wakes b ((start_process b)\<lparr>readers := n\<rparr>)"
proof (induction n)
  case 0
  show ?case using initially [of wakes b] by (simp add: start_process_def)
next
  case (Suc n)
  let ?p = "(start_process b)\<lparr>readers := n\<rparr>"
  have "process_step wakes ?p (?p\<lparr>accept_at := Polling\<rparr>)"
    using ac_check [of ?p wakes] by (simp add: process_step_def own_step_def start_process_def)
  moreover have "process_step wakes (?p\<lparr>accept_at := Polling\<rparr>) ((start_process b)\<lparr>readers := Suc n\<rparr>)"
    using ev_connection [of "?p\<lparr>accept_at := Polling\<rparr>"] by (simp add: process_step_def start_process_def)
  ultimately show ?case using Suc.IH process_reachable.step by blast
qed

definition returned_with :: "Broker \<Rightarrow> nat \<Rightarrow> Process" where
  "returned_with b n = \<lparr>work = \<lparr>shared = shutdown b, dispatching = None, engine_section = None, logger = L_idle\<rparr>,
     g_running = False, server_running = False, main_at = M_returned, scanner_at = Ended, dispatcher_at = Ended,
     logger_at = Ended, accept_at = Ended, readers = n\<rparr>"

lemma orderly_shutdown: "(process_step wakes)\<^sup>*\<^sup>* ((start_process b)\<lparr>readers := n\<rparr>) (returned_with b n)"
proof -
  let ?s = "process_step wakes"
  let ?p0 = "(start_process b)\<lparr>readers := n, g_running := False\<rparr>"
  let ?p1 = "?p0\<lparr>work := with_engine (work ?p0) (stop_ack_engine (ack_engine b)), main_at := M_join_scanner\<rparr>"
  let ?p2 = "?p1\<lparr>scanner_at := Ended\<rparr>"
  let ?p3 = "?p2\<lparr>work := (work ?p2)\<lparr>shared := (shared (work ?p2))\<lparr>server_ptr := map_option stop (server_ptr b)\<rparr>\<rparr>,
      server_running := False, main_at := M_join_accept\<rparr>"
  let ?p4 = "?p3\<lparr>accept_at := Ended\<rparr>"
  let ?p5 = "?p4\<lparr>main_at := M_join_dispatcher\<rparr>"
  let ?p6 = "?p5\<lparr>dispatcher_at := Ended\<rparr>"
  let ?p7 = "?p6\<lparr>main_at := M_join_logger\<rparr>"
  let ?p8 = "?p7\<lparr>logger_at := Ended\<rparr>"
  note defs = process_step_def own_step_def start_process_def with_engine_def stop_ack_engine_def
  have "?s ((start_process b)\<lparr>readers := n\<rparr>) ?p0" using ev_signal by (simp add: process_step_def)
  moreover have "?s ?p0 ?p1" using m_stop_engine [of ?p0] by (simp add: defs)
  moreover have "?s ?p1 ?p2" using sc_end [of ?p1] by (simp add: defs)
  moreover have "?s ?p2 ?p3" using m_stop_server [of ?p2] by (simp add: defs)
  moreover have "?s ?p3 ?p4" using ac_end [of ?p3 wakes] by (simp add: defs)
  moreover have "?s ?p4 ?p5" using m_joined_accept [of ?p4] by (simp add: defs)
  moreover have "?s ?p5 ?p6" using dp_end [of ?p5] by (simp add: defs)
  moreover have "?s ?p6 ?p7" using m_joined_dispatcher [of ?p6] by (simp add: defs)
  moreover have "?s ?p7 ?p8" using lg_end [of ?p7] by (simp add: defs)
  moreover have "?s ?p8 (returned_with b n)"
    using m_return [of ?p8] by (simp add: defs returned_with_def shutdown_def Let_def)
  ultimately show ?thesis by (meson rtranclp.rtrancl_into_rtrancl rtranclp.rtrancl_refl)
qed



text \<open>
  Where closing a socket does not wake a thread that waits in \<open>accept\<close> on it, the broker cannot
  stop on its own. A process whose accept loop is waiting when \<open>main\<close> comes to join it stays in that
  join, whatever its own threads do; it takes one more connection to end it.
\<close>

theorem close_alone_does_not_stop_accept:
  assumes "process_reachable False b p" and "accept_at p = Polling" and "(own_step False)\<^sup>*\<^sup>* p p'"
  shows "main_at p' \<in> {M_waiting, M_join_scanner, M_join_accept} \<and>
    (\<exists>q. process_step False p' q \<and> readers q = readers p' + 1 \<and> accept_at q = At_condition)"
proof -
  have "main_inv p" using reachable_inv [OF assms(1)] by blast
  then have start: "main_at p \<in> {M_waiting, M_join_scanner, M_join_accept}"
    using assms(2) by (cases "main_at p") (auto simp: main_inv_def)
  have "accept_at q = Polling \<and> main_at q \<in> {M_waiting, M_join_scanner, M_join_accept}" if "(own_step False)\<^sup>*\<^sup>* p q" for q
    using that
  proof (induction rule: rtranclp_induct)
    case base
    show ?case using start assms(2) by simp
  next
    case (step q r)
    then show ?case unfolding own_step_def by (elim conjE disjE process_cases) auto
  qed
  from this [OF assms(3)] show ?thesis
    using ev_connection [of p'] by (auto simp: process_step_def)
qed

lemma waiting_in_accept_reachable: "process_reachable wakes b ((start_process b)\<lparr>accept_at := Polling\<rparr>)"
  using ac_check [of "start_process b" wakes] process_reachable.step [OF initially]
  by (simp add: process_step_def own_step_def start_process_def)

theorem close_alone_does_not_stop_accept_witness:
  "\<exists>q. process_step False ((start_process full_broker)\<lparr>accept_at := Polling\<rparr>) q \<and> readers q = 1 \<and> accept_at q = At_condition"
proof -
  let ?p = "(start_process full_broker)\<lparr>accept_at := Polling\<rparr>"
  have "accept_at ?p = Polling" "readers ?p = 0" by (simp_all add: start_process_def)
  then show ?thesis
    using close_alone_does_not_stop_accept [OF waiting_in_accept_reachable, of full_broker ?p] by auto
qed

end
