(* ===== verification/MQ_Running.thy ===== *)
theory MQ_Running
  imports MQ_Broker
begin

text \<open>
  Concrete states of a running broker, all of them reachable, on which the properties of the
  whole program are tried.
\<close>

section \<open>A running broker\<close>

text \<open>
  The states the witnesses use: a broker started on an empty log with the default
  configuration, then with client 4 connected and subscribed to \<open>order.*\<close>, then with a
  publication in its queue.
\<close>

definition default_config :: Config where
  "default_config = \<lparr>TCP_PORT = 9099, QUEUE_CAP = 10000, MAX_RETRIES = 3, ACK_TIMEOUT = 5000, WAL_PATH = ''./data/broker.wal''\<rparr>"

definition started :: Broker where
  "started = \<lparr>queues = \<lparr>main_queue = new_queue 10000, dlq = new_queue 10000\<rparr>,
     wal = \<lparr>wal_file = [], active_buf = [], flush_buf = [], wal_running = True, flushing = False\<rparr>,
     router = new_router, ack_engine = new_ack_engine 5000 3, next_id = 1,
     server_ptr = Some ((new_server 9099)\<lparr>listen_sock := 3, running := True\<rparr>)\<rparr>"

definition subscribed_broker :: Broker where
  "subscribed_broker = started\<lparr>
     server_ptr := Some ((new_server 9099)\<lparr>listen_sock := 3, running := True, clients := [(4, 4)]\<rparr>),
     router := subscribe new_router ''order.*'' [] 4\<rparr>"

definition order_created :: Message where
  "order_created = \<lparr>msg_id = 7, topic = ''order.created'', body = [1, 2], retry_count = 0\<rparr>"

definition loaded_broker :: Broker where
  "loaded_broker = subscribed_broker\<lparr>queues :=
     (queues subscribed_broker)\<lparr>main_queue := enqueue [order_created] (new_queue 10000)\<rparr>\<rparr>"

lemma replay_empty: "replay (Some []) q = Done q"
  by (simp add: replay_def replay_loop.simps)

lemma boot_started: "boot default_config True [] True 3 0 0 = Done (Inr started)"
  by (simp add: boot_def boot_server_def open_wal_def replay_empty start_def INVALID_SOCK_def default_config_def started_def new_server_def)

lemma started_reachable: "broker_reachable started"
  using booted [of default_config "[]" 3 0 0 started] by (simp add: boot_started)

lemma subscribed_broker_reachable: "broker_reachable subscribed_broker"
proof -
  let ?b = "started\<lparr>server_ptr := Some ((new_server 9099)\<lparr>listen_sock := 3, running := True, clients := [(4, 4)]\<rparr>)\<rparr>"
  have "component_call started ?b"
    by (rule c_accept [of _ "(new_server 9099)\<lparr>listen_sock := 3, running := True\<rparr>" 4 4])
      (simp_all add: started_def accept_step_def INVALID_SOCK_def new_server_def)
  moreover have "component_call ?b (?b\<lparr>router := subscribe (router ?b) ''order.*'' [] 4\<rparr>)"
    by (rule c_subscribe)
  then have "component_call ?b subscribed_broker"
    by (simp add: subscribed_broker_def started_def)
  ultimately show ?thesis
    using started_reachable by (blast intro: called)
qed

lemma loaded_broker_reachable: "broker_reachable loaded_broker"
proof -
  have "push_main order_created subscribed_broker = Done loaded_broker"
    by (simp add: push_main_eq loaded_broker_def subscribed_broker_def started_def new_queue_def)
  then have "component_call subscribed_broker loaded_broker"
    by (intro c_push [of order_created]) (simp_all add: order_created_def)
  with subscribed_broker_reachable show ?thesis
    by (rule called)
qed

lemma started_wal_inv: "wal_inv (wal started) []"
  by (simp add: started_def wal_inv_def log_bytes_def)

lemma loaded_broker_targets: "map fst (fst (route (router loaded_broker) order_created)) = [4]"
  by (simp add: loaded_broker_def subscribed_broker_def subscribe_def new_router_def effective_group_def
      route_def order_created_def matches_def route_group_def is_unique_group_def Let_def)

text \<open>After a turn of the dispatcher: one delivery to client 4 in flight, tracked at time 0.\<close>

definition waiting_broker :: Broker where
  "waiting_broker = dispatcher_step (\<lambda>j k len. len) (\<lambda>j. 0) loaded_broker"

lemma waiting_broker_reachable: "broker_reachable waiting_broker"
  unfolding waiting_broker_def
  using broker_reachable_calls dispatcher_calls [OF broker_reachable_inv] loaded_broker_reachable by blast

lemma waiting_broker_state:
  "map_of (in_flight (ack_engine waiting_broker)) (7, 4) =
     Some \<lparr>fl_msg = order_created, subscriber_id = 4, deadline = 5000, fl_retry = 0\<rparr>"
  "max_retries (ack_engine waiting_broker) = 3" "queue (main_queue (queues waiting_broker)) = []"
  "capacity (main_queue (queues waiting_broker)) = 10000"
proof -
  have q: "queue (main_queue (queues loaded_broker)) = order_created # []"
    by (simp add: loaded_broker_def new_queue_def)
  obtain x where ts: "fst (route (router loaded_broker) order_created) = [(4, x)]"
    using loaded_broker_targets by (cases "fst (route (router loaded_broker) order_created)") auto
  show "map_of (in_flight (ack_engine waiting_broker)) (7, 4) =
     Some \<lparr>fl_msg = order_created, subscriber_id = 4, deadline = 5000, fl_retry = 0\<rparr>"
    "max_retries (ack_engine waiting_broker) = 3" "queue (main_queue (queues waiting_broker)) = []"
    "capacity (main_queue (queues waiting_broker)) = 10000"
    by (simp_all add: waiting_broker_def dispatcher_Cons [OF q] ts send_frame_def track_def Let_def)
      (simp_all add: loaded_broker_def subscribed_broker_def started_def new_ack_engine_def order_created_def new_queue_def)
qed

end
