(* ===== verification/MQ_Delivery.thy ===== *)
theory MQ_Delivery
  imports MQ_Running
begin

text \<open>
  Many turns of the dispatcher: the order in which a client gets what it subscribed to, from the
  stream of a publisher to the stream of the subscriber, and what becomes of the messages that
  a restart recovers.
\<close>

section \<open>Definitions\<close>

text \<open>The dispatcher loop for a number of turns; each turn has its own clock readings and socket results.\<close>

fun dispatcher_run :: "(nat \<Rightarrow> nat \<Rightarrow> nat \<Rightarrow> int \<Rightarrow> int) \<Rightarrow> (nat \<Rightarrow> nat \<Rightarrow> time_point) \<Rightarrow> nat \<Rightarrow> Broker \<Rightarrow> Broker" where
  "dispatcher_run os_sends clocks 0 b = b"
| "dispatcher_run os_sends clocks (Suc n) b =
     dispatcher_run (\<lambda>i. os_sends (Suc i)) (\<lambda>i. clocks (Suc i)) n (dispatcher_step (os_sends 0) (clocks 0) b)"

definition event_bytes :: "Message \<Rightarrow> bytes" where
  "event_bytes m = encode_frame EVENT_DATA (msg_id m) (topic m) (body m)"


section \<open>How often a client is a target\<close>

lemma count_targets:
  "count_list (map fst (fst (route r m))) c =
     (\<Sum>(p, gs) \<leftarrow> subscriptions r. if matches p (topic m)
        then (\<Sum>(g, st) \<leftarrow> gs. count_list (map fst (group_targets (msg_id m) g st)) c) else 0)"
proof -
  have "map fst (fst (route r m)) = concat (map (\<lambda>(p, gs). if matches p (topic m)
      then concat (map (\<lambda>(g, st). map fst (group_targets (msg_id m) g st)) gs) else []) (subscriptions r))"
    by (simp add: route_simps fst_route_topics fst_route_groups map_concat case_prod_unfold if_distrib [of "map fst"] comp_def cong: if_cong)
  then show ?thesis
    by (simp add: count_list_concat comp_def case_prod_unfold if_distrib [of "\<lambda>xs. count_list xs c"] cong: if_cong)
qed

lemma um_entries:
  "um_invar m \<Longrightarrow> distinct m" "um_invar m \<Longrightarrow> (k, v) \<in> set m \<Longrightarrow> (k, w) \<in> set m \<Longrightarrow> v = w"
  by (simp_all add: um_invar_def distinct_map) (metis eq_key_imp_eq_value distinct_map)

text \<open>The only subscription of a client is a private one: it is a target once, of what matches it.\<close>

definition only_private :: "TopicRouter \<Rightarrow> ClientId \<Rightarrow> string \<Rightarrow> bool" where
  "only_private r c p \<longleftrightarrow> (\<exists>g. is_unique_group g \<and> (\<forall>p' g'. subscribed r p' g' c \<longleftrightarrow> p' = p \<and> g' = g))"

lemma count_group_targets_absent: "c \<notin> set (members st) \<Longrightarrow> count_list (map fst (group_targets mid g st)) c = 0"
  using group_targets_members by (fastforce simp: count_list_0_iff)

lemma private_group_count:
  assumes "groups_inv gs" "(g, st) \<in> set gs" "is_unique_group g" "c \<in> set (members st)"
    and "\<And>g' st'. (g', st') \<in> set gs \<Longrightarrow> g' \<noteq> g \<Longrightarrow> c \<notin> set (members st')"
  shows "(\<Sum>(g, st) \<leftarrow> gs. count_list (map fst (group_targets mid g st)) c) = 1"
proof -
  let ?n = "\<lambda>(g, st). count_list (map fst (group_targets mid g st)) c"
  have "distinct gs" "\<And>st'. (g, st') \<in> set gs \<Longrightarrow> st' = st"
    using um_entries [of gs] assms(1,2) unfolding groups_inv_def by blast+
  moreover have "?n y = 0" if "y \<in> set gs" "y \<noteq> (g, st)" for y
  proof -
    obtain g' st' where y: "y = (g', st')" by (cases y)
    with that calculation(2) have "g' \<noteq> g" by blast
    then have "c \<notin> set (members st')" using assms(5) that(1) y by blast
    then show ?thesis by (simp add: y count_group_targets_absent)
  qed
  ultimately have "sum_list (map ?n gs) = ?n (g, st)" using assms(2) by (intro sum_list_only)
  also have "\<dots> = 1"
    using assms(1-4) by (auto simp: group_targets_unique comp_def groups_inv_def group_inv_def count_list_distinct)
  finally show ?thesis .
qed

lemma only_private_count:
  assumes "router_inv r" "only_private r c p"
  shows "count_list (map fst (fst (route r m))) c = (if matches p (topic m) then 1 else 0)"
proof -
  obtain g where g: "is_unique_group g" "\<And>p' g'. subscribed r p' g' c \<longleftrightarrow> p' = p \<and> g' = g"
    using assms(2) by (auto simp: only_private_def)
  obtain gs st where st: "(p, gs) \<in> set (subscriptions r)" "(g, st) \<in> set gs" "c \<in> set (members st)"
    using g(2) [of p g] by (auto simp: subscribed_def)
  have absent: "c \<notin> set (members st')" if "(p', gs') \<in> set (subscriptions r)" "(g', st') \<in> set gs'" "(p', g') \<noteq> (p, g)" for p' gs' g' st'
    using that g(2) [of p' g'] by (auto simp: subscribed_def)
  let ?S = "\<lambda>gs. \<Sum>(g, st) \<leftarrow> gs. count_list (map fst (group_targets (msg_id m) g st)) c"
  let ?N = "\<lambda>(p, gs). if matches p (topic m) then ?S gs else 0"
  have here: "?S gs = 1"
    using assms(1) st g(1) absent [OF st(1)] by (intro private_group_count) (auto simp: router_inv_def)
  have others: "?S gs' = 0" if "(p', gs') \<in> set (subscriptions r)" "p' \<noteq> p" for p' gs'
    using absent [OF that(1)] that(2) by (auto simp: sum_list_eq_0_iff count_group_targets_absent)
  have "distinct (subscriptions r)" "\<And>gs'. (p, gs') \<in> set (subscriptions r) \<Longrightarrow> gs' = gs"
    using um_entries [of "subscriptions r"] assms(1) st(1) unfolding router_inv_def by blast+
  moreover have "?N y = 0" if "y \<in> set (subscriptions r)" "y \<noteq> (p, gs)" for y
  proof -
    obtain p' gs' where y: "y = (p', gs')" by (cases y)
    with that calculation(2) have "p' \<noteq> p" by blast
    with that(1) y show ?thesis using others by simp
  qed
  ultimately have "sum_list (map ?N (subscriptions r)) = ?N (p, gs)" using st(1) by (intro sum_list_only)
  then show ?thesis using here by (simp add: count_targets)
qed


section \<open>Turns of the dispatcher\<close>

lemma only_private_route: "only_private (snd (route r m)) c p \<longleftrightarrow> only_private r c p"
  by (simp add: only_private_def subscribed_route)

lemma dispatcher_step_reachable: "broker_reachable b \<Longrightarrow> broker_reachable (dispatcher_step os_send clock b)"
  using broker_reachable_calls dispatcher_calls [OF broker_reachable_inv] by blast

lemma dispatcher_run_private:
  assumes "\<And>i j. healthy (os_sends i j)" and "\<forall>m \<in> set ms. length (event_bytes m) < 2 ^ 31"
    and "broker_reachable b" "queue (main_queue (queues b)) = ms" "server_ptr b = Some s" "map_of (clients s) c = Some c"
    and "only_private (router b) c p"
  shows "\<exists>s'. server_ptr (dispatcher_run os_sends clocks (length ms) b) = Some s' \<and>
    queue (main_queue (queues (dispatcher_run os_sends clocks (length ms) b))) = [] \<and>
    wire s' c = wire s c @ concat (map event_bytes (filter (\<lambda>m. matches p (topic m)) ms))"
  using assms
proof (induction ms arbitrary: os_sends clocks b s)
  case (Cons m ms)
  let ?b = "dispatcher_step (os_sends 0) (clocks 0) b" and ?ts = "fst (route (router b) m)"
  have inv: "server_inv s" "router_inv (router b)"
    using broker_inv_parts [OF broker_reachable_inv [OF Cons.prems(3)]] Cons.prems(5) by blast+
  have step: "queue (main_queue (queues ?b)) = ms" "router ?b = snd (route (router b) m)"
    by (simp_all add: dispatcher_Cons [OF Cons.prems(4)])
  obtain s1 where s1: "server_ptr ?b = Some s1" "clients s1 = clients s"
    "wire s1 c = wire s c @ concat (replicate (count_list (map fst ?ts) c) (event_bytes m))"
    using dispatch_targets_wire [of "os_sends 0" m "b\<lparr>queues := (queues b)\<lparr>main_queue := (main_queue (queues b))\<lparr>queue := ms\<rparr>\<rparr>,
        router := snd (route (router b) m)\<rparr>" s "clocks 0" 0 ?ts] Cons.prems inv(1)
    unfolding dispatcher_Cons [OF Cons.prems(4)] by (auto simp: event_bytes_def)
  have "wire s1 c = wire s c @ (if matches p (topic m) then event_bytes m else [])"
    unfolding s1(3) only_private_count [OF inv(2) Cons.prems(7)] by simp
  moreover have "\<exists>s'. server_ptr (dispatcher_run (\<lambda>i. os_sends (Suc i)) (\<lambda>i. clocks (Suc i)) (length ms) ?b) = Some s' \<and>
    queue (main_queue (queues (dispatcher_run (\<lambda>i. os_sends (Suc i)) (\<lambda>i. clocks (Suc i)) (length ms) ?b))) = [] \<and>
    wire s' c = wire s1 c @ concat (map event_bytes (filter (\<lambda>m. matches p (topic m)) ms))"
    using Cons.prems s1 step by (intro Cons.IH) (simp_all add: only_private_route dispatcher_step_reachable)
  ultimately show ?case by auto
qed simp

text \<open>A broker nobody is subscribed to.\<close>

lemma route_nobody: "subscriptions r = [] \<Longrightarrow> route r m = ([], r)"
  by (simp add: route_def)

lemma dispatcher_run_nobody:
  assumes "subscriptions (router b) = []" "queue (main_queue (queues b)) = ms"
  shows "dispatcher_run os_sends clocks (length ms) b =
    b\<lparr>queues := (queues b)\<lparr>main_queue := (main_queue (queues b))\<lparr>queue := []\<rparr>\<rparr>\<rparr>"
  using assms
proof (induction ms arbitrary: os_sends clocks b)
  case (Cons m ms)
  then have "dispatcher_step (os_sends 0) (clocks 0) b = b\<lparr>queues := (queues b)\<lparr>main_queue := (main_queue (queues b))\<lparr>queue := ms\<rparr>\<rparr>\<rparr>"
    by (simp add: dispatcher_Cons [OF Cons.prems(2)] route_nobody)
  with Cons show ?case by simp
qed simp


lemma boot_fresh:
  assumes "boot cfg True content True socket_res bind_res listen_res = Done (Inr b)"
  shows "router b = new_router \<and> in_flight (ack_engine b) = [] \<and> queue (dlq (queues b)) = []"
  using assms
  by (auto simp: boot_def boot_server_def Let_def new_ack_engine_def new_queue_def open_wal_def elim!: obind_DoneE split: prod.splits option.splits)


section \<open>Publications of one connection\<close>

text \<open>The messages the broker makes of publications without an id.\<close>

fun numbered :: "u64 \<Rightarrow> (string \<times> bytes) list \<Rightarrow> Message list" where
  "numbered n [] = []"
| "numbered n ((t, bdy) # pubs) = \<lparr>msg_id = n, topic = t, body = bdy, retry_count = 0\<rparr> # numbered (n + 1) pubs"

lemma length_numbered [simp]: "length (numbered n pubs) = length pubs"
  by (induction n pubs rule: numbered.induct) simp_all

lemma in_numbered: "m \<in> set (numbered n pubs) \<Longrightarrow> (topic m, body m) \<in> set pubs"
  by (induction n pubs rule: numbered.induct) auto

definition publish_payload :: "string \<times> bytes \<Rightarrow> bytes" where
  "publish_payload = (\<lambda>(t, bdy). be_bytes 2 (length t) @ bytes_of_string t @ bdy)"

lemma deliver_publications:
  assumes "\<forall>(t, bdy) \<in> set pubs. 0 < length t \<and> length t < 2 ^ 16"
    and "length (queue (main_queue (queues b))) + length pubs \<le> capacity (main_queue (queues b))"
  shows "\<exists>b'. deliver (on_frame os_send now) cid (map (\<lambda>pub. (PUBLISH, 0, publish_payload pub)) pubs) b = Done b' \<and>
    queue (main_queue (queues b')) = queue (main_queue (queues b)) @ numbered (next_id b) pubs \<and>
    router b' = router b \<and> server_ptr b' = server_ptr b"
  using assms
proof (induction pubs arbitrary: b)
  case (Cons pub pubs)
  obtain t bdy where pub: "pub = (t, bdy)" by (cases pub)
  let ?m = "\<lparr>msg_id = next_id b, topic = t, body = bdy, retry_count = 0\<rparr>"
  let ?b = "b\<lparr>next_id := next_id b + 1, wal := append (wal b) ?m, queues := (queues b)\<lparr>main_queue := enqueue [?m] (main_queue (queues b))\<rparr>\<rparr>"
  have "on_frame os_send now cid PUBLISH 0 (publish_payload pub) b = Done ?b"
    using Cons.prems on_frame_publish_wire [of t ?m 0 b bdy os_send now cid]
    by (simp add: pub publish_payload_def push_main_eq counter_after_def)
  moreover have "\<exists>b'. deliver (on_frame os_send now) cid (map (\<lambda>pub. (PUBLISH, 0, publish_payload pub)) pubs) ?b = Done b' \<and>
      queue (main_queue (queues b')) = queue (main_queue (queues ?b)) @ numbered (next_id ?b) pubs \<and>
      router b' = router ?b \<and> server_ptr b' = server_ptr ?b"
    using Cons.prems by (intro Cons.IH) (simp_all add: enqueue_def)
  ultimately show ?case by (auto simp: pub enqueue_def)
qed simp

lemma parse_publications:
  assumes "\<forall>(t, bdy) \<in> set pubs. 0 < length t \<and> length t < 2 ^ 16 \<and> 2 + length t + length bdy < 2 ^ 32"
  shows "parse_frames (on_frame os_send now) cid (concat (map (\<lambda>(t, bdy). encode_frame PUBLISH 0 t bdy) pubs)) b =
    obind (deliver (on_frame os_send now) cid (map (\<lambda>pub. (PUBLISH, 0, publish_payload pub)) pubs) b) (\<lambda>b'. Done (Open [] b'))"
proof -
  let ?fs = "map (\<lambda>pub. (PUBLISH, 0, publish_payload pub)) pubs"
  have "\<forall>f \<in> set ?fs. frame_ok f" using assms by (auto simp: publish_payload_def)
  moreover have "concat (map (\<lambda>(t, bdy). encode_frame PUBLISH 0 t bdy) pubs) = concat (map frame_bytes ?fs) @ []"
    using assms by (induction pubs) (auto simp: frame_bytes_encode_frame publish_payload_def simp del: frame_bytes.simps)
  moreover have "parse_frames (on_frame os_send now) cid [] = (\<lambda>b'. Done (Open [] b'))"
    by (rule ext, subst parse_frames_eq) (simp add: next_frame_def HEADER_SIZE_def)
  ultimately show ?thesis by (simp only: parse_frames_deliver)
qed


section \<open>Properties\<close>

text \<open>
  C9: publications reach a subscriber exactly once and in the order in which they were published. A
  connection sends any number of PUBLISH frames without ids; when the broker has read them and
  the dispatcher has made as many turns, a connected client whose only subscription is a
  private one has been sent, behind what it was sent before, the events of exactly the
  matching publications, in the order of the stream, numbered from the broker's counter.
\<close>

theorem publication_order_is_delivery_order:
  assumes "broker_reachable b" and "queue (main_queue (queues b)) = []" and "length pubs \<le> capacity (main_queue (queues b))"
    and "\<forall>(t, bdy) \<in> set pubs. 0 < length t \<and> length t < 2 ^ 16 \<and> 19 + length t + length bdy < 2 ^ 31"
    and "server_ptr b = Some s" and "map_of (clients s) c = Some c" and "only_private (router b) c p"
    and "\<And>i j. healthy (os_sends i j)"
  shows "\<exists>b1 s2. parse_frames (on_frame os_send now) pid (concat (map (\<lambda>(t, bdy). encode_frame PUBLISH 0 t bdy) pubs)) b = Done (Open [] b1) \<and>
    server_ptr (dispatcher_run os_sends clocks (length pubs) b1) = Some s2 \<and>
    wire s2 c = wire s c @ concat (map event_bytes (filter (\<lambda>m. matches p (topic m)) (numbered (next_id b) pubs)))"
proof -
  let ?stream = "concat (map (\<lambda>(t, bdy). encode_frame PUBLISH 0 t bdy) pubs)"
  obtain b1 where b1: "deliver (on_frame os_send now) pid (map (\<lambda>pub. (PUBLISH, 0, publish_payload pub)) pubs) b = Done b1"
    "queue (main_queue (queues b1)) = numbered (next_id b) pubs" "router b1 = router b" "server_ptr b1 = server_ptr b"
    using deliver_publications [of pubs b os_send now pid] assms(2-4) by fastforce
  have read: "parse_frames (on_frame os_send now) pid ?stream b = Done (Open [] b1)"
    using assms(4) by (subst parse_publications) (auto simp: b1(1))
  have "broker_reachable b1"
    using reader.parse_frames_safe [OF assms(1), of os_send now pid ?stream] by (simp add: read safe_outcome_def)
  moreover have "\<forall>m \<in> set (numbered (next_id b) pubs). length (event_bytes m) < 2 ^ 31"
    using assms(4) in_numbered by (fastforce simp: event_bytes_def length_encode_frame HEADER_SIZE_def)
  ultimately show ?thesis
    using dispatcher_run_private [of os_sends "numbered (next_id b) pubs" b1 s c p clocks] b1 read assms(5-8) by auto
qed

lemma subscribed_broker_private: "only_private (router subscribed_broker) 4 ''order.*''"
proof -
  have "subscribed (router subscribed_broker) p g 4 \<longleftrightarrow> p = ''order.*'' \<and> g = effective_group [] 4" for p g
    by (auto simp: subscribed_broker_def subscribed_subscribe)
  then show ?thesis unfolding only_private_def using is_unique_effective by blast
qed

theorem publication_order_is_delivery_order_witness:
  "\<exists>b1 s2. parse_frames (on_frame (\<lambda>k len. len) 0) 5
      (encode_frame PUBLISH 0 ''order.created'' [1] @ encode_frame PUBLISH 0 ''audit'' [] @ encode_frame PUBLISH 0 ''order.paid'' [2])
      subscribed_broker = Done (Open [] b1) \<and>
    server_ptr (dispatcher_run (\<lambda>i j k len. len) (\<lambda>i j. 0) 3 b1) = Some s2 \<and>
    wire s2 4 = encode_frame EVENT_DATA 1 ''order.created'' [1] @ encode_frame EVENT_DATA 3 ''order.paid'' [2]"
proof -
  let ?s = "(new_server 9099)\<lparr>listen_sock := 3, running := True, clients := [(4, 4)]\<rparr>"
  let ?pubs = "[(''order.created'', [1]), (''audit'', []), (''order.paid'', [2])] :: (string \<times> bytes) list"
  have b: "server_ptr subscribed_broker = Some ?s" "map_of (clients ?s) 4 = Some 4" "wire ?s 4 = []"
    "queue (main_queue (queues subscribed_broker)) = []" "capacity (main_queue (queues subscribed_broker)) = 10000"
    "next_id subscribed_broker = 1"
    by (simp_all add: subscribed_broker_def started_def new_queue_def new_server_def)
  have f: "matches ''order.*'' ''order.created''" "\<not> matches ''order.*'' ''audit''" "matches ''order.*'' ''order.paid''"
    by (simp_all add: matches_def)
  have "\<exists>b1 s2. parse_frames (on_frame (\<lambda>k len. len) 0) 5 (concat (map (\<lambda>(t, bdy). encode_frame PUBLISH 0 t bdy) ?pubs)) subscribed_broker = Done (Open [] b1) \<and>
    server_ptr (dispatcher_run (\<lambda>i j k len. len) (\<lambda>i j. 0) (length ?pubs) b1) = Some s2 \<and>
    wire s2 4 = wire ?s 4 @ concat (map event_bytes (filter (\<lambda>m. matches ''order.*'' (topic m)) (numbered (next_id subscribed_broker) ?pubs)))"
    by (rule publication_order_is_delivery_order [OF subscribed_broker_reachable _ _ _ b(1,2) subscribed_broker_private])
      (simp_all add: b healthy_def)
  then show ?thesis
    unfolding b(3,6) by (simp add: f event_bytes_def numeral_3_eq_3 del: dispatcher_run.simps)
qed



end
