(* ===== verification/MQ_CoreTests.thy ===== *)
theory MQ_CoreTests
  imports MQ_SafeQueue MQ_TopicRouter
begin

text \<open>
  The test program of the repository, \<open>tests/test_core.cpp\<close>, on the models of the queue and the
  router: its assertions hold, those of the concurrent part in every schedule of its threads.
\<close>

section \<open>Producers and consumers\<close>

text \<open>
  Where a producer is in its loop: before \<open>push(i)\<close>, before the addition of \<open>i\<close>, or finished; a
  consumer: before its \<open>pop\<close> number \<open>i\<close>, before the addition of what it got, or finished. The
  sums are \<open>std::atomic<int>\<close>.
\<close>

datatype producer = P_push nat | P_add nat | P_done

datatype consumer = C_pop nat | C_add nat u32 | C_done

record MpmcTest =
  mpmc_q :: "u32 SafeQueue"
  producers :: "producer list"
  consumers :: "consumer list"
  sum_produced :: u32
  sum_consumed :: u32

definition next_item :: "nat \<Rightarrow> nat \<Rightarrow> producer" where
  "next_item n i = (if i < n then P_push (Suc i) else P_done)"

definition next_pop :: "nat \<Rightarrow> nat \<Rightarrow> consumer" where
  "next_pop n i = (if Suc i < n then C_pop (Suc i) else C_done)"

text \<open>\<open>k\<close> producers and \<open>k\<close> consumers of \<open>n\<close> items each over a queue of capacity \<open>cap\<close>.\<close>

definition mpmc_start :: "nat \<Rightarrow> nat \<Rightarrow> nat \<Rightarrow> MpmcTest" where
  "mpmc_start cap k n = \<lparr>mpmc_q = new_queue cap, producers = replicate k (next_item n 0),
     consumers = replicate k (if 0 < n then C_pop 0 else C_done), sum_produced = 0, sum_consumed = 0\<rparr>"

inductive mpmc_step :: "nat \<Rightarrow> MpmcTest \<Rightarrow> MpmcTest \<Rightarrow> bool" for n where
  t_push: "j < length (producers s) \<Longrightarrow> producers s ! j = P_push i \<Longrightarrow> push (mpmc_q s) (of_nat i) = Done q \<Longrightarrow>
    mpmc_step n s (s\<lparr>mpmc_q := q, producers := (producers s)[j := P_add i]\<rparr>)"
| t_produced: "j < length (producers s) \<Longrightarrow> producers s ! j = P_add i \<Longrightarrow>
    mpmc_step n s (s\<lparr>producers := (producers s)[j := next_item n i], sum_produced := sum_produced s + of_nat i\<rparr>)"
| t_pop: "j < length (consumers s) \<Longrightarrow> consumers s ! j = C_pop i \<Longrightarrow> pop (mpmc_q s) = Done (v, q) \<Longrightarrow>
    mpmc_step n s (s\<lparr>mpmc_q := q, consumers := (consumers s)[j := C_add i v]\<rparr>)"
| t_consumed: "j < length (consumers s) \<Longrightarrow> consumers s ! j = C_add i v \<Longrightarrow>
    mpmc_step n s (s\<lparr>consumers := (consumers s)[j := next_pop n i], sum_consumed := sum_consumed s + v\<rparr>)"


section \<open>The books of the test\<close>

lemma sum_list_map_update:
  "j < length xs \<Longrightarrow> sum_list (map f (xs[j := x])) + f (xs ! j) = sum_list (map f xs) + (f x :: 'a::comm_monoid_add)"
  by (induction xs arbitrary: j) (auto simp: ac_simps split: nat.split)

lemma sum_list_map_replace:
  "j < length xs \<Longrightarrow> sum_list (map f (xs[j := x])) = sum_list (map f xs) + f x - (f (xs ! j) :: 'a::ab_group_add)"
  using sum_list_map_update [of j xs f x] by (simp add: eq_diff_eq)

fun to_push :: "nat \<Rightarrow> producer \<Rightarrow> u32 list" where
  "to_push n (P_push i) = map of_nat [i..<Suc n]"
| "to_push n (P_add i) = map of_nat [Suc i..<Suc n]"
| "to_push n P_done = []"

fun to_count :: "nat \<Rightarrow> producer \<Rightarrow> u32 list" where
  "to_count n (P_push i) = map of_nat [i..<Suc n]"
| "to_count n (P_add i) = map of_nat [i..<Suc n]"
| "to_count n P_done = []"

fun to_pop :: "nat \<Rightarrow> consumer \<Rightarrow> nat" where
  "to_pop n (C_pop i) = n - i"
| "to_pop n (C_add i v) = n - Suc i"
| "to_pop n C_done = 0"

fun in_hand :: "consumer \<Rightarrow> u32" where
  "in_hand (C_add i v) = v"
| "in_hand _ = 0"

fun producer_ok :: "nat \<Rightarrow> producer \<Rightarrow> bool" where
  "producer_ok n (P_push i) \<longleftrightarrow> i \<le> n"
| "producer_ok n (P_add i) \<longleftrightarrow> i \<le> n"
| "producer_ok n P_done \<longleftrightarrow> True"

fun consumer_ok :: "nat \<Rightarrow> consumer \<Rightarrow> bool" where
  "consumer_ok n (C_pop i) \<longleftrightarrow> i < n"
| "consumer_ok n (C_add i v) \<longleftrightarrow> i < n"
| "consumer_ok n C_done \<longleftrightarrow> True"

fun producer_steps :: "nat \<Rightarrow> producer \<Rightarrow> nat" where
  "producer_steps n (P_push i) = 2 * (n - i) + 2"
| "producer_steps n (P_add i) = 2 * (n - i) + 1"
| "producer_steps n P_done = 0"

fun consumer_steps :: "nat \<Rightarrow> consumer \<Rightarrow> nat" where
  "consumer_steps n (C_pop i) = 2 * (n - Suc i) + 2"
| "consumer_steps n (C_add i v) = 2 * (n - Suc i) + 1"
| "consumer_steps n C_done = 0"

definition test_steps_left :: "nat \<Rightarrow> MpmcTest \<Rightarrow> nat" where
  "test_steps_left n s = sum_list (map (producer_steps n) (producers s)) + sum_list (map (consumer_steps n) (consumers s))"

text \<open>What was or will be counted as produced is what was or will be counted as consumed, and there
  are as many pops to come as items in the queue and still to be pushed.\<close>

definition test_ledger :: "nat \<Rightarrow> MpmcTest \<Rightarrow> bool" where
  "test_ledger n s \<longleftrightarrow> sum_produced s + sum_list (map (\<lambda>p. sum_list (to_count n p)) (producers s)) =
     sum_consumed s + sum_list (map in_hand (consumers s)) + sum_list (queue (mpmc_q s)) +
     sum_list (map (\<lambda>p. sum_list (to_push n p)) (producers s))"

definition test_balance :: "nat \<Rightarrow> MpmcTest \<Rightarrow> bool" where
  "test_balance n s \<longleftrightarrow> length (queue (mpmc_q s)) + sum_list (map (\<lambda>p. length (to_push n p)) (producers s)) =
     sum_list (map (to_pop n) (consumers s))"

definition books :: "nat \<Rightarrow> MpmcTest \<Rightarrow> bool" where
  "books n s \<longleftrightarrow> test_ledger n s \<and> test_balance n s \<and>
     (\<forall>p \<in> set (producers s). producer_ok n p) \<and> (\<forall>c \<in> set (consumers s). consumer_ok n c)"

lemma next_item_books:
  "i \<le> n \<Longrightarrow> to_push n (next_item n i) = to_push n (P_add i)"
  "i \<le> n \<Longrightarrow> to_count n (P_add i) = of_nat i # to_count n (next_item n i)"
  "producer_ok n (next_item n i)" "producer_steps n (next_item n i) = 2 * (n - i)"
  by (auto simp: next_item_def upt_conv_Cons simp del: upt_Suc)

lemma next_pop_books:
  "to_pop n (next_pop n i) = n - Suc i" "in_hand (next_pop n i) = 0" "consumer_ok n (next_pop n i)"
  "consumer_steps n (next_pop n i) = 2 * (n - Suc i)"
  by (auto simp: next_pop_def)

lemma push_books: "i \<le> n \<Longrightarrow> to_push n (P_push i) = of_nat i # to_push n (P_add i)" "to_count n (P_push i) = to_count n (P_add i)"
  by (simp_all add: upt_conv_Cons del: upt_Suc)

lemma in_set_update: "x \<in> set (xs[j := y]) \<Longrightarrow> x = y \<or> x \<in> set xs"
  using set_update_subset_insert [of xs j y] by blast

lemma books_step:
  assumes "mpmc_step n s s'" "books n s"
  shows "books n s'"
  using assms(1)
proof cases
  case (t_push j i q)
  then have i: "i \<le> n" using assms(2) nth_mem [of j "producers s"] by (force simp: books_def)
  have q: "queue q = queue (mpmc_q s) @ [of_nat i]" using sq.psh_DoneD [OF t_push(4)] by simp
  have "test_ledger n s'"
    using assms(2) i unfolding books_def test_ledger_def t_push(1)
    by (simp add: q sum_list_map_replace [OF t_push(2)] t_push(3) push_books del: to_push.simps to_count.simps)
  moreover have "test_balance n s'"
    using assms(2) i sum_list_map_update [OF t_push(2), of "\<lambda>p. length (to_push n p)" "P_add i"]
    unfolding books_def test_balance_def t_push(1) by (simp add: q t_push(3) push_books del: to_push.simps)
  moreover have "\<forall>p \<in> set (producers s'). producer_ok n p" "\<forall>c \<in> set (consumers s'). consumer_ok n c"
    using assms(2) i by (auto simp: t_push(1) books_def dest!: in_set_update)
  ultimately show ?thesis by (simp add: books_def)
next
  case (t_produced j i)
  then have i: "i \<le> n" using assms(2) nth_mem [of j "producers s"] by (force simp: books_def)
  have "test_ledger n s'"
    using assms(2) i unfolding books_def test_ledger_def t_produced(1)
    by (simp add: sum_list_map_replace [OF t_produced(2)] t_produced(3) next_item_books del: to_push.simps to_count.simps)
  moreover have "test_balance n s'"
    using assms(2) i sum_list_map_update [OF t_produced(2), of "\<lambda>p. length (to_push n p)" "next_item n i"]
    unfolding books_def test_balance_def t_produced(1) by (simp add: t_produced(3) next_item_books del: to_push.simps)
  moreover have "\<forall>p \<in> set (producers s'). producer_ok n p" "\<forall>c \<in> set (consumers s'). consumer_ok n c"
    using assms(2) by (auto simp: t_produced(1) books_def next_item_books dest!: in_set_update)
  ultimately show ?thesis by (simp add: books_def)
next
  case (t_pop j i v q)
  then have i: "i < n" using assms(2) nth_mem [of j "consumers s"] by (force simp: books_def)
  have q: "queue (mpmc_q s) = v # queue q" using t_pop(4) by (auto simp: pop_def split: list.split_asm)
  have "test_ledger n s'"
    using assms(2) i unfolding books_def test_ledger_def t_pop(1)
    by (simp add: q sum_list_map_replace [OF t_pop(2)] t_pop(3))
  moreover have "test_balance n s'"
    using assms(2) i sum_list_map_update [OF t_pop(2), of "to_pop n" "C_add i v"]
    unfolding books_def test_balance_def t_pop(1) by (simp add: q t_pop(3)) linarith
  moreover have "\<forall>p \<in> set (producers s'). producer_ok n p" "\<forall>c \<in> set (consumers s'). consumer_ok n c"
    using assms(2) i by (auto simp: t_pop(1) books_def dest!: in_set_update)
  ultimately show ?thesis by (simp add: books_def)
next
  case (t_consumed j i v)
  have "test_ledger n s'"
    using assms(2) unfolding books_def test_ledger_def t_consumed(1)
    by (simp add: sum_list_map_replace [OF t_consumed(2)] t_consumed(3) next_pop_books)
  moreover have "test_balance n s'"
    using assms(2) sum_list_map_update [OF t_consumed(2), of "to_pop n" "next_pop n i"]
    unfolding books_def test_balance_def t_consumed(1) by (simp add: t_consumed(3) next_pop_books)
  moreover have "\<forall>p \<in> set (producers s'). producer_ok n p" "\<forall>c \<in> set (consumers s'). consumer_ok n c"
    using assms(2) by (auto simp: t_consumed(1) books_def next_pop_books dest!: in_set_update)
  ultimately show ?thesis by (simp add: books_def)
qed

lemma test_step_counts:
  assumes "mpmc_step n s s'"
  shows "Suc (test_steps_left n s') = test_steps_left n s"
  using assms
proof cases
  case (t_push j i q)
  then show ?thesis
    using sum_list_map_update [OF t_push(2), of "producer_steps n" "P_add i"] by (simp add: test_steps_left_def)
next
  case (t_produced j i)
  then show ?thesis
    using sum_list_map_update [OF t_produced(2), of "producer_steps n" "next_item n i"] by (simp add: test_steps_left_def next_item_books)
next
  case (t_pop j i v q)
  then show ?thesis
    using sum_list_map_update [OF t_pop(2), of "consumer_steps n" "C_add i v"] by (simp add: test_steps_left_def)
next
  case (t_consumed j i v)
  then show ?thesis
    using sum_list_map_update [OF t_consumed(2), of "consumer_steps n" "next_pop n i"] by (simp add: test_steps_left_def next_pop_books)
qed

lemma push_capacity: "mpmc_step n s s' \<Longrightarrow> capacity (mpmc_q s') = capacity (mpmc_q s)"
  by (erule mpmc_step.cases) (auto simp: push_def pop_def split: if_splits list.splits)


section \<open>No schedule gets stuck\<close>

lemma test_step_enabled:
  assumes "books n s" "0 < capacity (mpmc_q s)" "p \<in> set (producers s) \<and> p \<noteq> P_done \<or> c \<in> set (consumers s) \<and> c \<noteq> C_done"
  shows "\<exists>s'. mpmc_step n s s'"
proof (rule ccontr)
  assume stuck: "\<nexists>s'. mpmc_step n s s'"
  have pr: "p = P_done \<or> (\<exists>i. p = P_push i) \<and> capacity (mpmc_q s) \<le> length (queue (mpmc_q s))" if "p \<in> set (producers s)" for p
  proof (cases p)
    case (P_push i)
    obtain j where "j < length (producers s)" "producers s ! j = p" using \<open>p \<in> set (producers s)\<close> by (auto simp: in_set_conv_nth)
    then have "push (mpmc_q s) (of_nat i) \<noteq> Done q" for q using stuck t_push [of j s i q n] P_push by blast
    then have "\<not> length (queue (mpmc_q s)) < capacity (mpmc_q s)" unfolding push_def by metis
    with P_push show ?thesis by (simp add: not_less)
  next
    case (P_add i)
    with that stuck t_produced [of _ s i n] show ?thesis by (auto simp: in_set_conv_nth)
  qed simp
  have co: "c = C_done \<or> (\<exists>i. c = C_pop i \<and> i < n) \<and> queue (mpmc_q s) = []" if "c \<in> set (consumers s)" for c
  proof (cases c)
    case (C_pop i)
    have "i < n" using assms(1) that C_pop by (force simp: books_def)
    with C_pop that stuck t_pop [of _ s i _ _ n] show ?thesis
      by (cases "queue (mpmc_q s)") (auto simp: in_set_conv_nth pop_def)
  next
    case (C_add i v)
    with that stuck t_consumed [of _ s i v n] show ?thesis by (auto simp: in_set_conv_nth)
  qed simp
  have bal: "length (queue (mpmc_q s)) + sum_list (map (\<lambda>p. length (to_push n p)) (producers s)) = sum_list (map (to_pop n) (consumers s))"
    using assms(1) by (simp add: books_def test_balance_def)
  show False
  proof (cases "queue (mpmc_q s) = []")
    case True
    then have "\<forall>p \<in> set (producers s). p = P_done" using pr assms(2) by fastforce
    then have "sum_list (map (\<lambda>p. length (to_push n p)) (producers s)) = 0" by (auto simp: sum_list_eq_0_iff)
    moreover have "length (queue (mpmc_q s)) = 0" using True by simp
    ultimately have "sum_list (map (to_pop n) (consumers s)) = 0" using bal by linarith
    then have "\<forall>c \<in> set (consumers s). to_pop n c = 0" by (simp add: sum_list_eq_0_iff)
    then have "\<forall>c \<in> set (consumers s). c = C_done" using co by fastforce
    with \<open>\<forall>p \<in> set (producers s). p = P_done\<close> assms(3) show False by blast
  next
    case False
    then have "\<forall>c \<in> set (consumers s). c = C_done" using co by blast
    then have "sum_list (map (to_pop n) (consumers s)) = 0" by (auto simp: sum_list_eq_0_iff)
    with bal False show False by simp
  qed
qed

lemma books_start: "books n (mpmc_start cap k n)"
proof -
  have c: "to_count n (next_item n 0) = to_push n (next_item n 0)" "length (to_push n (next_item n 0)) = n"
    by (auto simp: next_item_def simp del: upt_Suc)
  then show ?thesis
    by (auto simp: books_def test_ledger_def test_balance_def mpmc_start_def new_queue_def sum_list_replicate next_item_books)
qed

lemma steps_start: "test_steps_left n (mpmc_start cap k n) = 4 * k * n"
  by (cases n) (auto simp: test_steps_left_def mpmc_start_def next_item_def sum_list_replicate algebra_simps)

lemma mpmc_run:
  "(mpmc_step n ^^ l) (mpmc_start cap k n) s \<Longrightarrow>
     books n s \<and> capacity (mpmc_q s) = cap \<and> l + test_steps_left n s = 4 * k * n"
proof (induction l arbitrary: s)
  case 0
  moreover have "capacity (mpmc_q (mpmc_start cap k n)) = cap" by (simp add: mpmc_start_def new_queue_def)
  ultimately show ?case using books_start [of n cap k] steps_start [of n cap k] by auto
next
  case (Suc l)
  then obtain t where t: "(mpmc_step n ^^ l) (mpmc_start cap k n) t" "mpmc_step n t s" by auto
  then show ?case using Suc.IH [OF t(1)] books_step [OF t(2)] push_capacity [OF t(2)] test_step_counts [OF t(2)] by simp
qed


section \<open>The tests\<close>

definition test_message :: Message where
  "test_message = new_message\<lparr>msg_id := 101, topic := ''order.created''\<rparr>"

lemma router_test:
  "let (r1, router1) = route test_router test_message; (r2, router2) = route router1 test_message;
       (r3, router3) = route (unsubscribe router2 3) test_message
   in length r1 = 3 \<and> length r2 = 3 \<and> 1 \<in> fst ` set (r1 @ r2) \<and> 2 \<in> fst ` set (r1 @ r2) \<and> 3 \<notin> fst ` set r3"
  by (simp add: test_router_def test_message_def new_message_def subscribe_def new_router_def effective_group_def route_def matches_def
      route_group_def is_unique_group_def unsubscribe_def Let_def)
    (simp flip: numeral_2_eq_2)

lemma finished_books:
  assumes "books n s" "\<forall>p \<in> set (producers s). p = P_done" "\<forall>c \<in> set (consumers s). c = C_done"
  shows "queue_empty (mpmc_q s) \<and> sum_produced s = sum_consumed s \<and> test_steps_left n s = 0"
proof -
  have p: "map f (producers s) = map (\<lambda>_. f P_done) (producers s)" for f :: "producer \<Rightarrow> 'a" using assms(2) by (auto intro!: map_cong)
  have c: "map f (consumers s) = map (\<lambda>_. f C_done) (consumers s)" for f :: "consumer \<Rightarrow> 'a" using assms(3) by (auto intro!: map_cong)
  have "queue (mpmc_q s) = []"
    using assms(1) unfolding books_def test_balance_def p [of "\<lambda>p. length (to_push n p)"] c [of "to_pop n"] by simp
  moreover from this have "sum_produced s = sum_consumed s"
    using assms(1) unfolding books_def test_ledger_def p [of "\<lambda>p. sum_list (to_push n p)"] c [of in_hand]
      p [of "\<lambda>p. sum_list (to_count n p)"] by simp
  moreover have "test_steps_left n s = 0"
    unfolding test_steps_left_def p [of "producer_steps n"] c [of "consumer_steps n"] by simp
  ultimately show ?thesis by (simp add: queue_empty_def)
qed

text \<open>
  C39: the tests of the repository pass. A queue of capacity 5 is empty at first and has size 5 after
  five pushes. With any number of producers and consumers of any number of items each, over a
  queue of any positive capacity, every schedule has the same number of steps, none gets stuck
  before its end, and at the end all threads are finished, the queue is empty and the two sums
  are equal. In the router scenario each route has three targets, two routes reach both members
  of the competing group, and after \<open>unsubscribe\<close> client 3 is no target.
\<close>

theorem core_tests_pass:
  assumes "0 < cap" and "(mpmc_step n ^^ l) (mpmc_start cap k n) s"
  shows "queue_empty (new_queue 5 :: int SafeQueue) \<and> queue_capacity (new_queue 5 :: int SafeQueue) = 5 \<and>
    (\<exists>q. push_all push (new_queue 5) [0, 1, 2, 3, 4 :: int] = Done q \<and> queue_size q = 5) \<and>
    l \<le> 4 * k * n \<and>
    ((\<exists>s'. mpmc_step n s s') \<or>
     l = 4 * k * n \<and> (\<forall>p \<in> set (producers s). p = P_done) \<and> (\<forall>c \<in> set (consumers s). c = C_done) \<and>
     queue_empty (mpmc_q s) \<and> sum_produced s = sum_consumed s) \<and>
    (let (r1, router1) = route test_router test_message; (r2, router2) = route router1 test_message;
         (r3, router3) = route (unsubscribe router2 3) test_message
     in length r1 = 3 \<and> length r2 = 3 \<and> 1 \<in> fst ` set (r1 @ r2) \<and> 2 \<in> fst ` set (r1 @ r2) \<and> 3 \<notin> fst ` set r3)"
proof -
  have run: "books n s" "0 < capacity (mpmc_q s)" "l + test_steps_left n s = 4 * k * n"
    using mpmc_run [OF assms(2)] assms(1) by simp_all
  have finished: "l = 4 * k * n \<and> (\<forall>p \<in> set (producers s). p = P_done) \<and> (\<forall>c \<in> set (consumers s). c = C_done) \<and>
     queue_empty (mpmc_q s) \<and> sum_produced s = sum_consumed s" if "\<nexists>s'. mpmc_step n s s'"
  proof -
    have "\<forall>p \<in> set (producers s). p = P_done" "\<forall>c \<in> set (consumers s). c = C_done"
      using that test_step_enabled [OF run(1,2)] by blast+
    with finished_books [OF run(1)] run(3) show ?thesis by simp
  qed
  moreover have "push_all push (new_queue 5) [0, 1, 2, 3, 4 :: int] = Done \<lparr>queue = [0, 1, 2, 3, 4], capacity = 5\<rparr>"
    by (simp add: push_def new_queue_def)
  moreover have "let (r1, router1) = route test_router test_message; (r2, router2) = route router1 test_message;
         (r3, router3) = route (unsubscribe router2 3) test_message
     in length r1 = 3 \<and> length r2 = 3 \<and> 1 \<in> fst ` set (r1 @ r2) \<and> 2 \<in> fst ` set (r1 @ r2) \<and> 3 \<notin> fst ` set r3"
    by (rule router_test)
  ultimately show ?thesis
    using run(3) by (auto simp: queue_empty_def queue_capacity_def queue_size_def new_queue_def)
qed

text \<open>The numbers of the repository (four producers and four consumers of 100 items, capacity 1000),
  and a whole run: one producer and one consumer of one item over a queue of capacity 1.\<close>

theorem core_tests_pass_witness:
  "(\<exists>s'. mpmc_step 100 (mpmc_start 1000 4 100) s') \<and>
   (\<exists>s. (mpmc_step 1 ^^ 4) (mpmc_start 1 1 1) s \<and> queue_empty (mpmc_q s) \<and> sum_produced s = 1 \<and> sum_consumed s = 1)"
proof
  have "(mpmc_step 100 ^^ 0) (mpmc_start 1000 4 100) (mpmc_start 1000 4 100)" by simp
  from core_tests_pass [OF _ this] show "\<exists>s'. mpmc_step 100 (mpmc_start 1000 4 100) s'" by simp
  let ?t = "\<lambda>xs p c sp sc. \<lparr>mpmc_q = \<lparr>queue = xs, capacity = 1\<rparr>, producers = [p], consumers = [c], sum_produced = sp, sum_consumed = sc\<rparr>"
  let ?s = "?t [] P_done C_done 1 1"
  have "mpmc_step 1 (?t [] (P_push 1) (C_pop 0) 0 0) (?t [1] (P_add 1) (C_pop 0) 0 0)"
    "mpmc_step 1 (?t [1] (P_add 1) (C_pop 0) 0 0) (?t [1] P_done (C_pop 0) 1 0)"
    "mpmc_step 1 (?t [1] P_done (C_pop 0) 1 0) (?t [] P_done (C_add 0 1) 1 0)"
    "mpmc_step 1 (?t [] P_done (C_add 0 1) 1 0) ?s"
    using t_push [of 0 "?t [] (P_push 1) (C_pop 0) 0 0" 1 _ 1] t_produced [of 0 "?t [1] (P_add 1) (C_pop 0) 0 0" 1 1]
      t_pop [of 0 "?t [1] P_done (C_pop 0) 1 0" 0 1 _ 1] t_consumed [of 0 "?t [] P_done (C_add 0 1) 1 0" 0 1 1]
    by (simp_all add: push_def pop_def next_item_def next_pop_def)
  moreover have "mpmc_start 1 1 1 = ?t [] (P_push 1) (C_pop 0) 0 0"
    by (simp add: mpmc_start_def new_queue_def next_item_def)
  ultimately have run: "(mpmc_step 1 ^^ 4) (mpmc_start 1 1 1) ?s"
    by (auto simp: numeral_eq_Suc relcompp_apply)
  have "\<nexists>s'. mpmc_step 1 ?s s'" by (auto elim: mpmc_step.cases)
  with core_tests_pass [OF _ run] have "queue_empty (mpmc_q ?s)" by auto
  with run show "\<exists>s. (mpmc_step 1 ^^ 4) (mpmc_start 1 1 1) s \<and> queue_empty (mpmc_q s) \<and> sum_produced s = 1 \<and> sum_consumed s = 1"
    by (intro exI [of _ ?s]) simp
qed

end
