(* ===== verification/MQ_JsText.thy ===== *)
theory MQ_JsText
  imports MQ_Prelude
begin

text \<open>
  Text of the Node.js gateway: strings as sequences of UTF-16 code units, their conversion
  to and from UTF-8 by \<open>Buffer.from(s, 'utf8')\<close> and \<open>buf.toString('utf8')\<close> (lone surrogates
  and malformed bytes become U+FFFD, as both are specified), and \<open>BigInt(s)\<close>.
\<close>

section \<open>Strings and code points\<close>

type_synonym js_string = "u16 list"

text \<open>A string literal of the source.\<close>

definition js :: "string \<Rightarrow> js_string" where
  "js s = map (\<lambda>c. of_nat (of_char c)) s"

definition is_high :: "u16 \<Rightarrow> bool" where
  "is_high u \<longleftrightarrow> 0xD800 \<le> unat u \<and> unat u < 0xDC00"

definition is_low :: "u16 \<Rightarrow> bool" where
  "is_low u \<longleftrightarrow> 0xDC00 \<le> unat u \<and> unat u < 0xE000"

fun code_points :: "js_string \<Rightarrow> nat list" where
  "code_points [] = []"
| "code_points [u] = [if is_high u \<or> is_low u then 0xFFFD else unat u]"
| "code_points (u # v # us) =
     (if is_high u \<and> is_low v then (0x10000 + (unat u - 0xD800) * 0x400 + (unat v - 0xDC00)) # code_points us
      else (if is_high u \<or> is_low u then 0xFFFD else unat u) # code_points (v # us))"

text \<open>\<open>String.prototype.isWellFormed\<close>: no surrogate without its partner.\<close>

fun well_formed :: "js_string \<Rightarrow> bool" where
  "well_formed [] \<longleftrightarrow> True"
| "well_formed [u] \<longleftrightarrow> \<not> is_high u \<and> \<not> is_low u"
| "well_formed (u # v # us) \<longleftrightarrow>
     (if is_high u \<and> is_low v then well_formed us else \<not> is_high u \<and> \<not> is_low u \<and> well_formed (v # us))"

fun units_of_point :: "nat \<Rightarrow> js_string" where
  "units_of_point n =
     (if n < 0x10000 then [of_nat n]
      else [of_nat (0xD800 + (n - 0x10000) div 0x400), of_nat (0xDC00 + (n - 0x10000) mod 0x400)])"

definition string_of_points :: "nat list \<Rightarrow> js_string" where
  "string_of_points ns = concat (map units_of_point ns)"

text \<open>A code point that is not a surrogate.\<close>

definition scalar :: "nat \<Rightarrow> bool" where
  "scalar n \<longleftrightarrow> n < 0x110000 \<and> \<not> (0xD800 \<le> n \<and> n < 0xE000)"


section \<open>UTF-8\<close>

fun encode_point :: "nat \<Rightarrow> nat list" where
  "encode_point n =
     (if n < 0x80 then [n]
      else if n < 0x800 then [0xC0 + n div 64, 0x80 + n mod 64]
      else if n < 0x10000 then [0xE0 + n div 4096, 0x80 + n div 64 mod 64, 0x80 + n mod 64]
      else [0xF0 + n div 262144, 0x80 + n div 4096 mod 64, 0x80 + n div 64 mod 64, 0x80 + n mod 64])"

definition utf8_encode :: "js_string \<Rightarrow> bytes" where
  "utf8_encode s = map of_nat (concat (map encode_point (code_points s)))"

text \<open>
  The decoder's state between two bytes: how many continuation bytes are needed, the bits so
  far, and the range of the next byte.
\<close>

type_synonym utf8_state = "nat \<times> nat \<times> nat \<times> nat"

abbreviation utf8_idle :: utf8_state where
  "utf8_idle \<equiv> (0, 0, 0x80, 0xBF)"

definition utf8_lead :: "nat \<Rightarrow> nat list \<times> utf8_state" where
  "utf8_lead b =
     (if b < 0x80 then ([b], utf8_idle)
      else if 0xC2 \<le> b \<and> b < 0xE0 then ([], (1, b - 0xC0, 0x80, 0xBF))
      else if 0xE0 \<le> b \<and> b < 0xF0 then
        ([], (2, b - 0xE0, (if b = 0xE0 then 0xA0 else 0x80), (if b = 0xED then 0x9F else 0xBF)))
      else if 0xF0 \<le> b \<and> b < 0xF5 then
        ([], (3, b - 0xF0, (if b = 0xF0 then 0x90 else 0x80), (if b = 0xF4 then 0x8F else 0xBF)))
      else ([0xFFFD], utf8_idle))"

fun utf8_points :: "utf8_state \<Rightarrow> nat list \<Rightarrow> nat list" where
  "utf8_points (need, cp, lo, hi) [] = (if need = 0 then [] else [0xFFFD])"
| "utf8_points (need, cp, lo, hi) (b # bs) =
     (if need = 0 then (case utf8_lead b of (out, st) \<Rightarrow> out @ utf8_points st bs)
      else if lo \<le> b \<and> b \<le> hi then
        (if need = 1 then (64 * cp + (b - 0x80)) # utf8_points utf8_idle bs
         else utf8_points (need - 1, 64 * cp + (b - 0x80), 0x80, 0xBF) bs)
      else 0xFFFD # (case utf8_lead b of (out, st) \<Rightarrow> out @ utf8_points st bs))"

definition utf8_decode :: "bytes \<Rightarrow> js_string" where
  "utf8_decode bs = string_of_points (utf8_points utf8_idle (map unat bs))"


section \<open>Round trip\<close>

lemma unat_u16_less: "unat (u :: u16) < 0x10000"
  using unsigned_less [of u, where ?'a = nat] by simp

lemma code_points_scalar: "n \<in> set (code_points s) \<Longrightarrow> scalar n"
proof (induction s rule: code_points.induct)
  case (2 u)
  then show ?case using unat_u16_less [of u] by (auto simp: scalar_def is_high_def is_low_def split: if_splits)
next
  case (3 u v us)
  then show ?case using unat_u16_less [of u] by (auto simp: scalar_def is_high_def is_low_def split: if_splits)
qed simp

text \<open>The three and four groups of six bits of a code point.\<close>

lemma six_bit_groups:
  fixes n :: nat
  shows "64 * (64 * (n div 4096) + n div 64 mod 64) + n mod 64 = n"
    and "64 * (64 * (64 * (n div 262144) + n div 4096 mod 64) + n div 64 mod 64) + n mod 64 = n"
proof -
  have *: "64 * (m div 64) + m mod 64 = m" for m :: nat by simp
  have d: "n div 4096 = n div 64 div 64" "n div 262144 = n div 64 div 64 div 64"
    by (simp_all add: div_mult2_eq [symmetric])
  show "64 * (64 * (n div 4096) + n div 64 mod 64) + n mod 64 = n"
    "64 * (64 * (64 * (n div 262144) + n div 4096 mod 64) + n div 64 mod 64) + n mod 64 = n"
    unfolding d * by simp_all
qed

lemma utf8_points_encode_point:
  assumes "scalar n"
  shows "utf8_points utf8_idle (encode_point n @ bs) = n # utf8_points utf8_idle bs"
proof -
  have lt: "n div 64 mod 64 < 64" "n mod 64 < 64" "n div 4096 mod 64 < 64" by simp_all
  consider "n < 0x80" | "0x80 \<le> n" "n < 0x800" | "0x800 \<le> n" "n < 0x10000" | "0x10000 \<le> n" "n < 0x110000"
    using assms unfolding scalar_def by linarith
  then show ?thesis
  proof cases
    case 1
    then show ?thesis by (simp add: utf8_lead_def)
  next
    case 2
    then have "2 \<le> n div 64" "n div 64 < 32" by simp_all
    with 2 lt show ?thesis by (simp add: utf8_lead_def)
  next
    case 3
    define a where "a = n div 4096"
    define b where "b = n div 64 mod 64"
    define c where "c = n mod 64"
    have n: "64 * (64 * a + b) + c = n" "b < 64" "c < 64"
      using six_bit_groups(1) [of n] by (simp_all add: a_def b_def c_def)
    have enc: "encode_point n = [0xE0 + a, 0x80 + b, 0x80 + c]"
      using 3 by (simp add: a_def b_def c_def)
    have "a < 16" "a = 0 \<longrightarrow> 32 \<le> b" "a = 13 \<longrightarrow> b < 32"
      using 3 n assms by (auto simp: scalar_def)
    then show ?thesis
      using n unfolding enc by (auto simp: utf8_lead_def)
  next
    case 4
    define a where "a = n div 262144"
    define b where "b = n div 4096 mod 64"
    define c where "c = n div 64 mod 64"
    define d where "d = n mod 64"
    have n: "64 * (64 * (64 * a + b) + c) + d = n" "b < 64" "c < 64" "d < 64"
      using six_bit_groups(2) [of n] by (simp_all add: a_def b_def c_def d_def)
    have enc: "encode_point n = [0xF0 + a, 0x80 + b, 0x80 + c, 0x80 + d]"
      using 4 by (simp add: a_def b_def c_def d_def)
    have "a < 5" "a = 0 \<longrightarrow> 16 \<le> b" "a = 4 \<longrightarrow> b < 16"
      using 4 n by auto
    then show ?thesis
      using n unfolding enc by (auto simp: utf8_lead_def)
  qed
qed

lemma utf8_points_encode_points:
  "\<forall>n \<in> set ns. scalar n \<Longrightarrow>
     utf8_points utf8_idle (concat (map encode_point ns) @ bs) = ns @ utf8_points utf8_idle bs"
  by (induction ns) (simp_all add: utf8_points_encode_point del: encode_point.simps)

lemma encode_point_byte: "scalar n \<Longrightarrow> b \<in> set (encode_point n) \<Longrightarrow> b < 256"
  by (auto simp: scalar_def split: if_splits)

lemma unat_utf8_encode: "map unat (utf8_encode s) = concat (map encode_point (code_points s))"
proof -
  have "\<forall>b \<in> set (concat (map encode_point (code_points s))). unat (of_nat b :: u8) = b"
    using encode_point_byte code_points_scalar by (fastforce simp: unat_of_nat simp del: encode_point.simps)
  then show ?thesis by (simp only: utf8_encode_def map_map o_def map_idI)
qed

text \<open>Decoding gives the string back, with lone surrogates replaced.\<close>

lemma utf8_decode_append:
  "utf8_decode (utf8_encode s @ bs) = string_of_points (code_points s) @ utf8_decode bs"
  using utf8_points_encode_points [of "code_points s" "map unat bs"] code_points_scalar
  by (auto simp: utf8_decode_def unat_utf8_encode string_of_points_def)

lemma of_nat_unat_u16: "of_nat (unat (u :: u16)) = u"
  by simp

lemma string_of_points_code_points: "well_formed s \<Longrightarrow> string_of_points (code_points s) = s"
proof (induction s rule: code_points.induct)
  case (2 u)
  then show ?case using unat_u16_less [of u] by (simp add: string_of_points_def)
next
  case (3 u v us)
  show ?case
  proof (cases "is_high u \<and> is_low v")
    case True
    then have "unat u = 0xD800 + (unat u - 0xD800)" "unat v = 0xDC00 + (unat v - 0xDC00)" "unat v - 0xDC00 < 0x400"
      by (auto simp: is_high_def is_low_def)
    then obtain x y where xy: "unat u = 0xD800 + x" "unat v = 0xDC00 + y" "y < 0x400" by blast
    then have "u = of_nat (0xD800 + x)" "v = of_nat (0xDC00 + y)"
      by (simp_all flip: word_unat_eq_iff xy(1,2))
    with 3 True xy show ?thesis
      by (simp add: string_of_points_def)
  next
    case False
    with 3 show ?thesis using unat_u16_less [of u] by (simp add: string_of_points_def split: if_splits)
  qed
qed (simp add: string_of_points_def)

lemma utf8_round_trip [codec_simps]: "well_formed s \<Longrightarrow> utf8_decode (utf8_encode s) = s"
  using utf8_decode_append [of s "[]"] string_of_points_code_points [of s]
  by (simp add: utf8_decode_def string_of_points_def)

lemma utf8_encode_inj: "well_formed s \<Longrightarrow> well_formed t \<Longrightarrow> utf8_encode s = utf8_encode t \<longleftrightarrow> s = t"
  by (metis utf8_round_trip)

text \<open>The encoding of a prefix that does not end in a high surrogate is a prefix of the encoding.\<close>

lemma code_points_snoc_append: "\<not> is_high u \<Longrightarrow> code_points (s @ u # t) = code_points (s @ [u]) @ code_points t"
proof (induction s rule: code_points.induct)
  case 1
  then show ?case by (cases t) auto
next
  case (2 w)
  then show ?case by (cases t) auto
next
  case (3 w v us)
  then show ?case by auto
qed

lemma utf8_encode_snoc_append: "\<not> is_high u \<Longrightarrow> utf8_encode (s @ u # t) = utf8_encode (s @ [u]) @ utf8_encode t"
  unfolding utf8_encode_def by (subst code_points_snoc_append) simp_all

text \<open>In well-formed text prefixes of the bytes come from prefixes of the string.\<close>

lemma utf8_prefix_reflect:
  assumes "utf8_encode t = utf8_encode s @ bs" "well_formed s" "well_formed t"
  shows "t = s @ utf8_decode bs"
  using utf8_decode_append [of s bs] utf8_round_trip [of t] assms by (simp add: string_of_points_code_points)

text \<open>A byte below 128 stands for itself.\<close>

lemma encode_point_big: "0x80 \<le> n \<Longrightarrow> b \<in> set (encode_point n) \<Longrightarrow> 0x80 \<le> b"
  by (auto split: if_splits)

lemma encode_point_ascii: "b < 0x80 \<Longrightarrow> b \<in> set (encode_point n) \<longleftrightarrow> b = n"
  using encode_point_big [of n b] by (cases "n < 0x80") (simp, fastforce simp del: encode_point.simps)

lemma code_points_ascii: "n < 0x80 \<Longrightarrow> n \<in> set (code_points s) \<longleftrightarrow> of_nat n \<in> set s"
proof -
  assume n: "n < 0x80"
  have eq: "(of_nat n = u) \<longleftrightarrow> n = unat u" for u :: u16
    using n by (auto simp: word_unat_eq_iff unat_of_nat)
  have s: "\<not> is_high u \<and> \<not> is_low u" if "n = unat u" for u
    using n that by (auto simp: is_high_def is_low_def)
  show ?thesis
  proof (induction s rule: code_points.induct)
    case (2 u)
    then show ?case using n s [of u] by (auto simp: eq)
  next
    case (3 u v us)
    then show ?case using n s [of u] s [of v] by (auto simp: eq)
  qed simp
qed

lemma utf8_encode_ascii_mem: "b < 0x80 \<Longrightarrow> of_nat b \<in> set (utf8_encode s) \<longleftrightarrow> of_nat b \<in> set s"
proof -
  assume b: "b < 0x80"
  have "of_nat b \<in> set (utf8_encode s) \<longleftrightarrow> b \<in> set (map unat (utf8_encode s))"
    using b by (auto simp: word_unat_eq_iff unat_of_nat image_iff intro!: bexI)
  also have "\<dots> \<longleftrightarrow> b \<in> set (code_points s)"
    unfolding unat_utf8_encode using encode_point_ascii [OF b] by (simp del: encode_point.simps)
  finally show ?thesis using code_points_ascii [OF b] by simp
qed

section \<open>Literals and numbers\<close>

fun ascii :: "string \<Rightarrow> bool" where
  "ascii s \<longleftrightarrow> (\<forall>c \<in> set s. of_char c < (0x80 :: nat))"

lemma js_simps [simp]: "js [] = []" "js (s @ t) = js s @ js t" "length (js s) = length s"
  by (simp_all add: js_def)

lemma unat_js_char [simp]: "unat (of_nat (of_char c) :: u16) = of_char c"
  using less_trans [OF nat_of_char_less_256 [of c], of "2 ^ 16"] by (simp add: unat_of_nat)

lemma js_char_no_surrogate [simp]: "\<not> is_high (of_nat (of_char c))" "\<not> is_low (of_nat (of_char c))"
  using less_trans [OF nat_of_char_less_256 [of c], of "0xD800"] by (simp_all add: is_high_def is_low_def)

lemma code_points_js: "code_points (js s) = map of_char s"
  unfolding js_def by (induction s rule: induct_list012) simp_all

lemma utf8_encode_js: "ascii s \<Longrightarrow> utf8_encode (js s) = bytes_of_string s"
  unfolding utf8_encode_def code_points_js by (induction s) (auto simp: byte_of_char_def)

lemma well_formed_js: "well_formed (js s)"
  unfolding js_def by (induction s rule: induct_list012) simp_all

text \<open>\<open>BigInt(s)\<close> of a string: white space around it is ignored, an empty string is zero, decimal
  digits may have a sign, hexadecimal, octal and binary literals may not; anything else is a
  \<open>SyntaxError\<close>.\<close>

definition js_space :: "u16 \<Rightarrow> bool" where
  "js_space u \<longleftrightarrow> unat u \<in> {9, 10, 11, 12, 13, 32, 0xA0, 0x1680, 0x2028, 0x2029, 0x202F, 0x205F, 0x3000, 0xFEFF} \<or>
     0x2000 \<le> unat u \<and> unat u \<le> 0x200A"

definition js_trim :: "js_string \<Rightarrow> js_string" where
  "js_trim s = rev (dropWhile js_space (rev (dropWhile js_space s)))"

definition js_digit :: "nat \<Rightarrow> u16 \<Rightarrow> nat option" where
  "js_digit radix u =
     (let n = unat u;
          d = (if 48 \<le> n \<and> n \<le> 57 then n - 48
               else if 97 \<le> n \<and> n \<le> 122 then n - 87
               else if 65 \<le> n \<and> n \<le> 90 then n - 55 else radix)
      in if d < radix then Some d else None)"

fun js_digits :: "nat \<Rightarrow> nat \<Rightarrow> js_string \<Rightarrow> nat option" where
  "js_digits radix acc [] = Some acc"
| "js_digits radix acc (u # us) =
     (case js_digit radix u of None \<Rightarrow> None | Some d \<Rightarrow> js_digits radix (radix * acc + d) us)"

definition js_number :: "nat \<Rightarrow> js_string \<Rightarrow> int option" where
  "js_number radix s = (if s = [] then None else map_option int (js_digits radix 0 s))"

definition js_bigint :: "js_string \<Rightarrow> int option" where
  "js_bigint s =
     (let t = js_trim s in
      if t = [] then Some 0
      else if take 2 t = js ''0x'' \<or> take 2 t = js ''0X'' then js_number 16 (drop 2 t)
      else if take 2 t = js ''0o'' \<or> take 2 t = js ''0O'' then js_number 8 (drop 2 t)
      else if take 2 t = js ''0b'' \<or> take 2 t = js ''0B'' then js_number 2 (drop 2 t)
      else if take 1 t = js ''-'' then map_option uminus (js_number 10 (drop 1 t))
      else if take 1 t = js ''+'' then js_number 10 (drop 1 t)
      else js_number 10 t)"

end
