(* ===== verification/MQ_GatewayProtocol.thy ===== *)
theory MQ_GatewayProtocol
  imports MQ_Protocol MQ_TopicRouter MQ_JsText
begin

text \<open>
  \<open>gateway/src/protocol.js\<close>: the second implementation of the wire protocol, which has to agree
  with \<open>Protocol.hpp\<close>. A \<open>Buffer\<close> write out of the range of its field throws, so encoders
  return an error or a frame; \<open>JSON.stringify\<close> is an argument.
\<close>

section \<open>Definitions\<close>

datatype js_error = RangeError | TypeError | SyntaxError

fun rbind :: "js_error + 'a \<Rightarrow> ('a \<Rightarrow> js_error + 'b) \<Rightarrow> js_error + 'b" where
  "rbind (Inl e) f = Inl e"
| "rbind (Inr x) f = f x"

definition MAGIC :: nat where
  "MAGIC = 0xDEADBEEF"

definition JS_HEADER_SIZE :: nat where
  "JS_HEADER_SIZE = 17"

text \<open>The members of \<open>MsgType\<close>.\<close>

definition Js_PUBLISH :: u8 where "Js_PUBLISH = 0x01"
definition Js_SUBSCRIBE :: u8 where "Js_SUBSCRIBE = 0x02"
definition Js_ACK :: u8 where "Js_ACK = 0x03"
definition Js_NACK :: u8 where "Js_NACK = 0x04"
definition Js_HEARTBEAT :: u8 where "Js_HEARTBEAT = 0x05"
definition Js_EVENT_DATA :: u8 where "Js_EVENT_DATA = 0x06"
definition Js_ERROR_RESP :: u8 where "Js_ERROR_RESP = 0x07"

record JsHeader =
  js_valid :: bool
  js_type :: u8
  js_payloadLen :: nat
  js_msgId :: nat

definition decodeHeader :: "bytes \<Rightarrow> js_error + JsHeader" where
  "decodeHeader buf =
     (if length buf < 17 then Inl RangeError
      else Inr \<lparr>js_valid = (be_val (take 4 buf) = MAGIC), js_type = buf ! 4,
                js_payloadLen = be_val (take 4 (drop 5 buf)), js_msgId = be_val (take 8 (drop 9 buf))\<rparr>)"

definition decodeEventPayload :: "bytes \<Rightarrow> js_string \<times> bytes" where
  "decodeEventPayload payload =
     (if length payload < 2 then ([], [])
      else let topicLen = be_val (take 2 payload)
           in (utf8_decode (take topicLen (drop 2 payload)), drop (2 + topicLen) payload))"

definition writeUInt16BE :: "nat \<Rightarrow> js_error + bytes" where
  "writeUInt16BE n = (if n < 2 ^ 16 then Inr (be_bytes 2 n) else Inl RangeError)"

definition writeHeader :: "u8 \<Rightarrow> nat \<Rightarrow> int \<Rightarrow> js_error + bytes" where
  "writeHeader ty payloadLen msgId =
     (if \<not> payloadLen < 2 ^ 32 then Inl RangeError
      else if msgId < 0 \<or> \<not> msgId < 2 ^ 64 then Inl RangeError
      else Inr (be_bytes 4 MAGIC @ [ty] @ be_bytes 4 payloadLen @ be_bytes 8 (nat msgId)))"

text \<open>The body of a data frame is a buffer or a value to be serialised.\<close>

datatype 'v js_body = Buf bytes | Val 'v

definition encodeDataFrame :: "('v \<Rightarrow> js_string) \<Rightarrow> u8 \<Rightarrow> js_string \<Rightarrow> 'v js_body \<Rightarrow> int \<Rightarrow> js_error + bytes" where
  "encodeDataFrame stringify ty tpc bdy msgId =
     (let topicBuf = utf8_encode tpc;
          bodyBuf = (case bdy of Buf b \<Rightarrow> b | Val v \<Rightarrow> utf8_encode (stringify v));
          payloadLen = 2 + length topicBuf + length bodyBuf
      in rbind (writeHeader ty payloadLen msgId) (\<lambda>header.
         rbind (writeUInt16BE (length topicBuf)) (\<lambda>topicLen.
         Inr (header @ topicLen @ topicBuf @ bodyBuf))))"

definition encodeSubscribe :: "js_string \<Rightarrow> js_string \<Rightarrow> int \<Rightarrow> js_error + bytes" where
  "encodeSubscribe tpc grp msgId =
     (let topicBuf = utf8_encode tpc;
          groupBuf = utf8_encode grp;
          payloadLen = 2 + length topicBuf + 2 + length groupBuf
      in rbind (writeHeader Js_SUBSCRIBE payloadLen msgId) (\<lambda>header.
         rbind (writeUInt16BE (length topicBuf)) (\<lambda>topicLen.
         rbind (writeUInt16BE (length groupBuf)) (\<lambda>groupLen.
         Inr (header @ topicLen @ topicBuf @ groupLen @ groupBuf)))))"

definition encodeAck :: "u8 \<Rightarrow> int \<Rightarrow> js_error + bytes" where
  "encodeAck ty msgId = writeHeader ty 0 msgId"

definition encodeHeartbeat :: "js_error + bytes" where
  "encodeHeartbeat = writeHeader Js_HEARTBEAT 0 0"

definition ends_with :: "'a list \<Rightarrow> 'a list \<Rightarrow> bool" where
  "ends_with s suf \<longleftrightarrow> length suf \<le> length s \<and> drop (length s - length suf) s = suf"

definition starts_with :: "'a list \<Rightarrow> 'a list \<Rightarrow> bool" where
  "starts_with s pre \<longleftrightarrow> take (length pre) s = pre"

definition topicMatches :: "js_string \<Rightarrow> js_string \<Rightarrow> bool" where
  "topicMatches pattern tpc =
     (if pattern = tpc then True
      else if pattern = js ''*'' then True
      else if ends_with pattern (js ''.*'') then
        (let prefix = butlast pattern in starts_with tpc prefix)
      else False)"


section \<open>Agreement with the broker\<close>

text \<open>A topic or group of the gateway, as the broker receives it.\<close>

definition broker_string :: "js_string \<Rightarrow> string" where
  "broker_string s = string_of_bytes (utf8_encode s)"

lemma bytes_broker_string [simp]: "bytes_of_string (broker_string s) = utf8_encode s"
  by (simp add: broker_string_def)

lemma length_broker_string [simp]: "length (broker_string s) = length (utf8_encode s)"
  by (simp add: broker_string_def)

lemma broker_string_js: "ascii s \<Longrightarrow> broker_string (js s) = s"
  by (simp only: broker_string_def utf8_encode_js string_of_bytes_of_string)

lemma writeHeader_eq:
  "writeHeader ty len mid = (if len < 2 ^ 32 \<and> 0 \<le> mid \<and> mid < 2 ^ 64 then Inr (wire_header ty len (nat mid)) else Inl RangeError)"
  by (simp add: writeHeader_def wire_header_def MAGIC_def)

lemma unat_of_int64: "0 \<le> i \<Longrightarrow> i < 2 ^ 64 \<Longrightarrow> unat (of_int i :: u64) = nat i"
  by (simp add: unat_eq_nat_uint uint_word_of_int)

lemma encodeDataFrame_eq:
  "encodeDataFrame stringify (type_byte ty) tpc bdy mid =
     (let b = (case bdy of Buf b \<Rightarrow> b | Val v \<Rightarrow> utf8_encode (stringify v)) in
      if length (utf8_encode tpc) < 2 ^ 16 \<and> 2 + length (utf8_encode tpc) + length b < 2 ^ 32 \<and> 0 \<le> mid \<and> mid < 2 ^ 64
      then Inr (encode_frame ty (of_int mid) (broker_string tpc) b) else Inl RangeError)"
  by (auto simp: encodeDataFrame_def Let_def writeHeader_eq writeUInt16BE_def encode_frame_layout unat_of_int64)

lemma encodeSubscribe_eq:
  "encodeSubscribe tpc grp mid =
     (if length (utf8_encode tpc) < 2 ^ 16 \<and> length (utf8_encode grp) < 2 ^ 16 \<and> 0 \<le> mid \<and> mid < 2 ^ 64
      then Inr (encode_subscribe_frame (broker_string tpc) (broker_string grp) (of_int mid)) else Inl RangeError)"
  by (auto simp: encodeSubscribe_def Let_def writeHeader_eq writeUInt16BE_def encode_subscribe_frame_layout unat_of_int64
      Js_SUBSCRIBE_def simp del: add_2_eq_Suc add_2_eq_Suc')

lemma encodeAck_eq:
  "encodeAck (type_byte ty) mid = (if 0 \<le> mid \<and> mid < 2 ^ 64 then Inr (encode_ack_frame ty (of_int mid)) else Inl RangeError)"
  by (simp add: encodeAck_def writeHeader_eq encode_ack_frame_layout unat_of_int64)

lemma encodeHeartbeat_eq: "encodeHeartbeat = Inr (encode_ack_frame HEARTBEAT 0)"
  by (simp add: encodeHeartbeat_def writeHeader_eq encode_ack_frame_layout Js_HEARTBEAT_def)

lemma be_val_less: "be_val bs < 256 ^ length bs"
  by (metis be_bytes_be_val be_val_be_bytes mod_less_divisor zero_less_numeral zero_less_power)

text \<open>The two header decoders read the same fields.\<close>

lemma from_be32_read: "length bs = 4 \<Longrightarrow> unat (from_be32 (load_le bs)) = be_val bs"
proof -
  assume l: "length bs = 4"
  then have "unat (of_nat (be_val bs) :: u32) = be_val bs"
    using be_val_less [of bs] by (simp add: unat_of_nat)
  with l show ?thesis
    using be32.load_stored [of "of_nat (be_val bs)"] be_bytes_be_val [of bs] by (simp add: from_be32_def)
qed

lemma from_be64_read: "length bs = 8 \<Longrightarrow> unat (from_be64 (load_le bs)) = be_val bs"
proof -
  assume l: "length bs = 8"
  then have "unat (of_nat (be_val bs) :: u64) = be_val bs"
    using be_val_less [of bs] by (simp add: unat_of_nat)
  with l show ?thesis
    using be64.load_stored [of "of_nat (be_val bs)"] be_bytes_be_val [of bs] by (simp add: from_be64_def)
qed

lemma decodeHeader_agrees:
  assumes "JS_HEADER_SIZE \<le> length buf"
  shows "\<exists>h. decode_header buf = Done h \<and> decodeHeader buf = Inr \<lparr>js_valid = h_valid h, js_type = type_byte (h_type h),
    js_payloadLen = unat (h_payload_len h), js_msgId = unat (h_msg_id h)\<rparr>"
proof -
  have "from_be32 (load_le (take 4 buf)) = FRAME_MAGIC \<longleftrightarrow> be_val (take 4 buf) = MAGIC"
    using assms from_be32_read [of "take 4 buf"]
    by (simp add: word_unat_eq_iff FRAME_MAGIC_def MAGIC_def JS_HEADER_SIZE_def)
  with assms show ?thesis
    by (simp add: decode_header_def decodeHeader_def JS_HEADER_SIZE_def Let_def from_be32_read from_be64_read)
qed

lemma decodeEventPayload_wire:
  "length (utf8_encode tpc) < 2 ^ 16 \<Longrightarrow> well_formed tpc \<Longrightarrow>
   decodeEventPayload (be_bytes 2 (length (utf8_encode tpc)) @ utf8_encode tpc @ bdy) = (tpc, bdy)"
  by (simp add: decodeEventPayload_def Let_def be_val_len16 utf8_round_trip)


section \<open>Topic patterns\<close>

abbreviation star :: u16 where "star \<equiv> 0x2A"
abbreviation dot :: u16 where "dot \<equiv> 0x2E"

lemma js_pattern_literals: "js ''*'' = [star]" "js ''.*'' = [dot, star]"
  by (simp_all add: js_def)

lemma no_surrogates [simp]: "\<not> is_high star" "\<not> is_low star" "\<not> is_high dot" "\<not> is_low dot"
  by (simp_all add: is_high_def is_low_def)

lemma ends_with_append [simp]: "ends_with (q @ [dot, star]) [dot, star]"
  by (simp add: ends_with_def)

lemma ends_withE: "ends_with p suf \<Longrightarrow> \<exists>q. p = q @ suf"
  by (metis append_take_drop_id ends_with_def)

lemma starts_with_iff: "starts_with t pre \<longleftrightarrow> (\<exists>rest. t = pre @ rest)"
  by (auto simp: starts_with_def) (metis append_take_drop_id)

lemma topicMatches_iff:
  "topicMatches p t \<longleftrightarrow> p = t \<or> p = [star] \<or> (\<exists>q rest. p = q @ [dot, star] \<and> t = q @ dot # rest)"
proof -
  have "butlast (q @ [dot, star]) = q @ [dot]" for q by (simp add: butlast_append)
  then show ?thesis
    by (auto simp: topicMatches_def js_pattern_literals starts_with_iff Let_def dest!: ends_withE)
qed

lemma star_in_broker_string: "CHR ''*'' \<in> set (broker_string s) \<longleftrightarrow> star \<in> set s"
proof -
  have "CHR ''*'' \<in> set (broker_string s) \<longleftrightarrow> byte_of_char CHR ''*'' \<in> set (utf8_encode s)"
    unfolding broker_string_def by (metis (no_types) bytes_of_string_of_bytes image_eqI image_iff list.set_map char_of_byte_of_char)
  then show ?thesis
    using utf8_encode_ascii_mem [of "0x2A" s] by (simp add: byte_of_char_def)
qed

lemma plain_unit:
  assumes "\<not> is_high u" "\<not> is_low u"
  shows "code_points (s @ [u]) = code_points s @ [unat u]" "well_formed (s @ u # t) \<longleftrightarrow> well_formed s \<and> well_formed t"
proof -
  show "code_points (s @ [u]) = code_points s @ [unat u]"
    using assms by (induction s rule: code_points.induct) auto
  have "well_formed (u # t) = well_formed t"
    using assms by (cases t) auto
  then show "well_formed (s @ u # t) \<longleftrightarrow> well_formed s \<and> well_formed t"
    using assms by (induction s rule: well_formed.induct) auto
qed

lemma broker_string_plain:
  assumes "\<not> is_high u" "\<not> is_low u" "unat u < 0x80"
  shows "broker_string (s @ u # t) = broker_string s @ char_of (unat u) # broker_string t"
proof -
  define n where "n = unat u"
  have "encode_point n = [n]" "unat (of_nat n :: u8) = n"
    using assms(3) by (simp_all add: n_def [symmetric] unat_of_nat)
  then have "string_of_bytes (utf8_encode (s @ [u])) = string_of_bytes (utf8_encode s) @ [char_of n]"
    by (simp add: utf8_encode_def plain_unit(1) [OF assms(1,2)] char_of_byte_def flip: n_def del: encode_point.simps)
  then show ?thesis
    unfolding broker_string_def n_def by (subst utf8_encode_snoc_append [OF assms(1)]) simp
qed

lemma broker_string_units:
  "broker_string (s @ star # t) = broker_string s @ CHR ''*'' # broker_string t"
  "broker_string (s @ dot # t) = broker_string s @ CHR ''.'' # broker_string t"
  using broker_string_plain [of star s t] broker_string_plain [of dot s t]
    char_of_char [of "CHR ''*''", where ?'a = nat] char_of_char [of "CHR ''.''", where ?'a = nat] by simp_all

lemma broker_string_inj: "well_formed s \<Longrightarrow> well_formed t \<Longrightarrow> broker_string s = broker_string t \<longleftrightarrow> s = t"
  by (metis bytes_broker_string utf8_encode_inj)

lemma broker_string_prefix:
  assumes "broker_string t = broker_string s @ rest" "well_formed s" "well_formed t"
  shows "\<exists>r. t = s @ r"
proof -
  have "utf8_encode t = utf8_encode s @ bytes_of_string rest"
    using arg_cong [OF assms(1), of bytes_of_string] by simp
  from utf8_prefix_reflect [OF this assms(2,3)] show ?thesis by blast
qed

text \<open>Whatever the gateway lets through, the broker matches.\<close>

lemma topicMatches_matches:
  assumes "topicMatches p t"
  shows "matches (broker_string p) (broker_string t)"
proof -
  have wild: "matches (q @ ''*'') (q @ rest)" for q rest
  proof (cases "CHR ''*'' \<in> set q")
    case True
    then obtain a b where "q = a @ CHR ''*'' # b" "CHR ''*'' \<notin> set a" by (metis split_list_first)
    then show ?thesis unfolding matches_iff by fastforce
  qed (auto simp: matches_iff)
  consider "p = t" | "p = [star]" | q rest where "p = q @ [dot, star]" "t = q @ dot # rest"
    using assms by (auto simp: topicMatches_iff)
  then show ?thesis
  proof cases
    case 2
    then show ?thesis using wild [of "[]"] broker_string_units(1) [of "[]" "[]"] by (simp add: broker_string_def utf8_encode_def)
  next
    case (3 q rest)
    have "broker_string p = broker_string (q @ [dot]) @ ''*''"
      using broker_string_units(1) [of "q @ [dot]" "[]"] by (simp add: 3 broker_string_def utf8_encode_def)
    moreover have "broker_string t = broker_string (q @ [dot]) @ broker_string rest"
      using 3 by (simp add: broker_string_units) (simp add: broker_string_def utf8_encode_def)
    ultimately show ?thesis using wild by simp
  qed (simp add: matches_iff)
qed

definition conventional :: "js_string \<Rightarrow> bool" where
  "conventional p \<longleftrightarrow> star \<notin> set p \<or> p = [star] \<or> ends_with p [dot, star] \<and> star \<notin> set (butlast p)"

lemma conventional_matches:
  assumes "conventional p" "well_formed p" "well_formed t" "matches (broker_string p) (broker_string t)"
  shows "topicMatches p t"
proof (cases "p = t \<or> p = [star]")
  case False
  with assms obtain pre suf rest where m: "broker_string p = pre @ CHR ''*'' # suf" "CHR ''*'' \<notin> set pre"
    "broker_string t = pre @ rest"
    by (auto simp: matches_iff broker_string_inj)
  then have "CHR ''*'' \<in> set (broker_string p)" by simp
  with assms(1) False obtain q where q: "p = q @ [dot, star]" "star \<notin> set q"
    by (auto simp: conventional_def star_in_broker_string butlast_append dest!: ends_withE)
  have "broker_string p = broker_string (q @ [dot]) @ ''*''"
    using broker_string_units(1) [of "q @ [dot]" "[]"] by (simp add: q broker_string_def utf8_encode_def)
  moreover have "CHR ''*'' \<notin> set (broker_string (q @ [dot]))"
    using q by (simp add: star_in_broker_string)
  ultimately have "pre = broker_string (q @ [dot])"
    using m by (auto simp: append_eq_append_conv2 append_eq_Cons_conv Cons_eq_append_conv) (metis in_set_conv_decomp)
  moreover have "well_formed (q @ [dot])"
    using assms(2) plain_unit(2) [of dot q "[star]"] plain_unit(2) [of dot q "[]"] by (simp add: q)
  ultimately obtain r where "t = (q @ [dot]) @ r"
    using broker_string_prefix [of t "q @ [dot]" rest] m assms(3) by auto
  then show ?thesis by (simp add: topicMatches_iff q)
qed (auto simp: topicMatches_iff)

lemma unconventional_differs:
  assumes "\<not> conventional p" "well_formed p"
  shows "\<exists>t. t \<noteq> [] \<and> well_formed t \<and> matches (broker_string p) (broker_string t) \<and> \<not> topicMatches p t"
proof -
  obtain a b where p: "p = a @ star # b" "star \<notin> set a"
    using assms(1) by (metis conventional_def split_list_first)
  define x :: u16 where "x = 0x78"
  have x: "\<not> is_high x" "\<not> is_low x" "x \<noteq> star" "x \<noteq> dot" "unat x < 0x80"
    by (simp_all add: x_def is_high_def is_low_def)
  have "well_formed (a @ [x])"
    using assms(2) plain_unit(2) [of star a b] plain_unit(2) [OF x(1,2), of a "[]"] by (simp add: p)
  moreover have "matches (broker_string p) (broker_string (a @ [x]))"
    using star_in_broker_string [of a] p(2)
    by (auto simp: matches_iff p(1) broker_string_units broker_string_plain [OF x(1,2,5)])
  moreover have "\<not> topicMatches p (a @ [x])"
  proof
    assume "topicMatches p (a @ [x])"
    then consider "p = a @ [x]" | "p = [star]" | q rest where "p = q @ [dot, star]" "a @ [x] = q @ dot # rest"
      by (auto simp: topicMatches_iff)
    then show False
    proof cases
      case 3
      then have "star \<notin> set q"
        using p(2) x by (auto simp: append_eq_append_conv2 Cons_eq_append_conv)
      with 3 assms(1) show False by (simp add: conventional_def butlast_append)
    qed (use p x assms(1) in \<open>auto simp: conventional_def\<close>)
  qed
  ultimately show ?thesis by blast
qed


section \<open>Properties\<close>

text \<open>
  C27: the encoders of the gateway produce the frames of the broker's encoders, byte for byte,
  with the strings in UTF-8; for a topic or group of 64 KiB or more, a payload of 4 GiB or
  more, or an id outside 64 bits they throw a \<open>RangeError\<close> instead of truncating a length as
  the broker's encoders do.
\<close>

theorem gateway_encoders_agree:
  "encodeDataFrame stringify (type_byte ty) tpc bdy mid =
     (let b = (case bdy of Buf b \<Rightarrow> b | Val v \<Rightarrow> utf8_encode (stringify v)) in
      if length (utf8_encode tpc) < 2 ^ 16 \<and> 2 + length (utf8_encode tpc) + length b < 2 ^ 32 \<and> 0 \<le> mid \<and> mid < 2 ^ 64
      then Inr (encode_frame ty (of_int mid) (broker_string tpc) b) else Inl RangeError) \<and>
   encodeSubscribe tpc grp mid =
     (if length (utf8_encode tpc) < 2 ^ 16 \<and> length (utf8_encode grp) < 2 ^ 16 \<and> 0 \<le> mid \<and> mid < 2 ^ 64
      then Inr (encode_subscribe_frame (broker_string tpc) (broker_string grp) (of_int mid)) else Inl RangeError) \<and>
   encodeAck (type_byte ty) mid =
     (if 0 \<le> mid \<and> mid < 2 ^ 64 then Inr (encode_ack_frame ty (of_int mid)) else Inl RangeError) \<and>
   encodeHeartbeat = Inr (encode_ack_frame HEARTBEAT 0)"
  by (intro conjI encodeDataFrame_eq encodeSubscribe_eq encodeAck_eq encodeHeartbeat_eq)

text \<open>
  The gateway decodes what the broker encodes. The header decoders agree on every buffer
  that holds a header, and the payload of an event frame is decoded to the topic it was
  published under and the body, for every topic without lone surrogates.
\<close>

theorem gateway_decodes_broker_events:
  assumes "JS_HEADER_SIZE \<le> length buf" and "well_formed tpc" and "length (utf8_encode tpc) < 2 ^ 16"
  shows "(\<exists>h. decode_header buf = Done h \<and> decodeHeader buf = Inr \<lparr>js_valid = h_valid h, js_type = type_byte (h_type h),
      js_payloadLen = unat (h_payload_len h), js_msgId = unat (h_msg_id h)\<rparr>) \<and>
    decodeEventPayload (drop JS_HEADER_SIZE (encode_frame EVENT_DATA mid (broker_string tpc) bdy)) = (tpc, bdy)"
proof -
  have "drop JS_HEADER_SIZE (encode_frame EVENT_DATA mid (broker_string tpc) bdy) =
      be_bytes 2 (length (utf8_encode tpc)) @ utf8_encode tpc @ bdy"
    using drop_encode_frame [of "broker_string tpc" EVENT_DATA mid bdy] assms(3)
    by (simp add: JS_HEADER_SIZE_def HEADER_SIZE_def)
  then show ?thesis
    using decodeHeader_agrees [OF assms(1)] decodeEventPayload_wire [OF assms(3,2)] by simp
qed

theorem gateway_decodes_broker_events_witness:
  "decodeEventPayload (drop JS_HEADER_SIZE (encode_frame EVENT_DATA 7 (broker_string (js ''order.created'')) [1, 2])) =
     (js ''order.created'', [1, 2])"
proof -
  have "utf8_encode (js ''order.created'') = bytes_of_string ''order.created''"
    by (rule utf8_encode_js) simp
  then have "length (utf8_encode (js ''order.created'')) < 2 ^ 16" by simp
  then show ?thesis
    using gateway_decodes_broker_events [of "replicate 17 0" "js ''order.created''" 7 "[1, 2]"] well_formed_js
    by (simp add: JS_HEADER_SIZE_def)
qed

text \<open>
  C28: every topic the gateway passes on to a subscriber of a pattern is one the broker sends
  for that pattern, and the two agree exactly for the conventional patterns: those without
  a star, the bare star, and those whose only star follows a final dot. For every other
  pattern there are topics that the broker delivers to the gateway and the gateway then
  drops for its subscriber.
\<close>

theorem topic_patterns_agree:
  assumes "well_formed p"
  shows "(\<forall>t. topicMatches p t \<longrightarrow> matches (broker_string p) (broker_string t)) \<and>
    (conventional p \<longleftrightarrow>
       (\<forall>t. well_formed t \<and> t \<noteq> [] \<longrightarrow> (topicMatches p t \<longleftrightarrow> matches (broker_string p) (broker_string t))))"
  using topicMatches_matches conventional_matches [OF _ assms] unconventional_differs [OF _ assms] by blast

theorem topic_patterns_agree_witness:
  "\<exists>t. matches (broker_string (js ''order*'')) (broker_string t) \<and> \<not> topicMatches (js ''order*'') t"
proof -
  have "\<not> conventional (js ''order*'')"
    by (simp add: conventional_def js_def ends_with_def)
  then show ?thesis
    using topic_patterns_agree [OF well_formed_js [of "''order*''"]] by blast
qed

end
