(* ===== verification/MQ_GatewayClient.thy ===== *)
theory MQ_GatewayClient
  imports MQ_GatewayProtocol MQ_TcpServer
begin

text \<open>
  \<open>gateway/src/tcpClient.js\<close>: the connection of the gateway to the broker. Incoming bytes are
  accumulated and cut into frames; outgoing frames are written through a corked socket, or
  queued while there is no connection. The callbacks of one turn of the event loop, with the
  \<open>process.nextTick\<close> callbacks they schedule, are one step.
\<close>

section \<open>Definitions\<close>

definition RECONNECT_MIN_MS :: nat where "RECONNECT_MIN_MS = 100"
definition RECONNECT_MAX_MS :: nat where "RECONNECT_MAX_MS = 30000"

text \<open>
  What the client uses of \<open>net.Socket\<close>: while it is corked, writes are kept; the \<open>uncork\<close> that
  matches the first \<open>cork\<close> passes them on; after \<open>destroy\<close> nothing is written or received.
\<close>

record Socket =
  corked :: nat
  kept_writes :: bytes
  passed_on :: bytes
  destroyed :: bool

definition new_socket :: Socket where
  "new_socket = \<lparr>corked = 0, kept_writes = [], passed_on = [], destroyed = False\<rparr>"

definition cork :: "Socket \<Rightarrow> Socket" where
  "cork s = s\<lparr>corked := corked s + 1\<rparr>"

definition sock_write :: "bytes \<Rightarrow> Socket \<Rightarrow> Socket" where
  "sock_write bs s =
     (if destroyed s then s
      else if 0 < corked s then s\<lparr>kept_writes := kept_writes s @ bs\<rparr>
      else s\<lparr>passed_on := passed_on s @ bs\<rparr>)"

definition uncork :: "Socket \<Rightarrow> Socket" where
  "uncork s =
     (if corked s = 0 then s
      else if corked s = 1 then s\<lparr>corked := 0, passed_on := passed_on s @ kept_writes s, kept_writes := []\<rparr>
      else s\<lparr>corked := corked s - 1\<rparr>)"

text \<open>The valid part of the read buffer is \<open>readBuf\<close>; \<open>ticks\<close> counts the scheduled \<open>nextTick\<close>
  callbacks. Timers are present or not.\<close>

record TcpClient =
  socket :: "Socket option"
  readBuf :: bytes
  outQueue :: "bytes list"
  connected :: bool
  delay :: nat
  hbTimer :: bool
  stopping :: bool
  corkTimer :: bool
  ticks :: nat

definition new_client :: TcpClient where
  "new_client = \<lparr>socket = None, readBuf = [], outQueue = [], connected = False, delay = RECONNECT_MIN_MS,
     hbTimer = False, stopping = False, corkTimer = False, ticks = 0\<rparr>"

definition connect :: "TcpClient \<Rightarrow> TcpClient" where
  "connect c = (if stopping c then c else c\<lparr>socket := Some new_socket\<rparr>)"

text \<open>\<open>send\<close>; \<open>process.nextTick\<close> returns \<open>undefined\<close>, so the timer stays unset.\<close>

definition send_buffer :: "bytes \<Rightarrow> TcpClient \<Rightarrow> TcpClient" where
  "send_buffer frame c =
     (case (connected c, socket c) of
        (True, Some s) \<Rightarrow>
          (let c1 = c\<lparr>socket := Some (sock_write frame (cork s))\<rparr>
           in if \<not> corkTimer c1 then c1\<lparr>corkTimer := False, ticks := ticks c1 + 1\<rparr> else c1)
      | _ \<Rightarrow>
          (if length (outQueue c) < 10000 then c\<lparr>outQueue := outQueue c @ [frame]\<rparr> else c))"

text \<open>The callbacks of \<open>nextTick\<close>, which run before the next event.\<close>

definition tick :: "TcpClient \<Rightarrow> TcpClient" where
  "tick c = c\<lparr>socket := map_option uncork (socket c), corkTimer := False, ticks := ticks c - 1\<rparr>"

definition run_ticks :: "TcpClient \<Rightarrow> TcpClient" where
  "run_ticks c = (tick ^^ ticks c) c"

text \<open>The \<open>connect\<close> event: the listeners send \<open>resubscriptions\<close>, then the queue is flushed.\<close>

definition on_connect :: "bytes list \<Rightarrow> TcpClient \<Rightarrow> TcpClient" where
  "on_connect resubscriptions c =
     (let c1 = c\<lparr>connected := True, delay := RECONNECT_MIN_MS\<rparr>;
          c2 = fold send_buffer resubscriptions c1;
          c3 = fold send_buffer (outQueue c2) c2
      in c3\<lparr>outQueue := [], hbTimer := True\<rparr>)"

definition heartbeat :: "TcpClient \<Rightarrow> js_error + TcpClient" where
  "heartbeat c =
     (if hbTimer c \<and> connected c then rbind encodeHeartbeat (\<lambda>frame. Inr (send_buffer frame c)) else Inr c)"

text \<open>\<open>#parseFrames\<close>: the loop returns the frames it emits, where it stopped, and whether it found
  a bad magic number.\<close>

type_synonym js_frame = "u8 \<times> nat \<times> bytes"

function frame_loop :: "bytes \<Rightarrow> nat \<Rightarrow> js_frame list \<times> nat \<times> bool" where
  "frame_loop buf offset =
     (if JS_HEADER_SIZE \<le> length buf - offset then
        (case decodeHeader (drop offset buf) of
           Inl e \<Rightarrow> ([], offset, True)
         | Inr header \<Rightarrow>
             (if \<not> js_valid header then ([], offset, True)
              else let totalSize = JS_HEADER_SIZE + js_payloadLen header in
              if length buf - offset < totalSize then ([], offset, False)
              else let payload = take (js_payloadLen header) (drop (offset + JS_HEADER_SIZE) buf);
                       (fs, end, bad) = frame_loop buf (offset + totalSize)
                   in ((js_type header, js_msgId header, payload) # fs, end, bad)))
      else ([], offset, False))"
  by pat_completeness auto
termination
  by (relation "measure (\<lambda>(buf, offset). length buf - offset)") (auto simp: JS_HEADER_SIZE_def)

declare frame_loop.simps [simp del]

definition parseFrames :: "TcpClient \<Rightarrow> js_frame list \<times> TcpClient" where
  "parseFrames c =
     (case frame_loop (readBuf c) 0 of (fs, offset, bad) \<Rightarrow>
        if bad then (fs, c\<lparr>socket := map_option (\<lambda>s. s\<lparr>destroyed := True\<rparr>) (socket c)\<rparr>)
        else (fs, c\<lparr>readBuf := drop offset (readBuf c)\<rparr>))"

definition on_data :: "bytes \<Rightarrow> TcpClient \<Rightarrow> js_frame list \<times> TcpClient" where
  "on_data chunk c = parseFrames (c\<lparr>readBuf := readBuf c @ chunk\<rparr>)"

definition onDisconnect :: "TcpClient \<Rightarrow> TcpClient" where
  "onDisconnect c =
     (let c1 = c\<lparr>connected := False, hbTimer := False\<rparr>
      in if stopping c1 then c1 else c1\<lparr>delay := min (delay c1 * 2) RECONNECT_MAX_MS\<rparr>)"

definition stop_client :: "TcpClient \<Rightarrow> TcpClient" where
  "stop_client c = c\<lparr>stopping := True, hbTimer := False, socket := map_option (\<lambda>s. s\<lparr>destroyed := True\<rparr>) (socket c)\<rparr>"


section \<open>Incoming frames\<close>

text \<open>One turn of the loop.\<close>

definition js_next_frame :: "bytes \<Rightarrow> js_frame frame_step" where
  "js_next_frame buf =
     (if length buf < JS_HEADER_SIZE then NeedMore else
      case decodeHeader buf of
        Inl e \<Rightarrow> Corrupt
      | Inr header \<Rightarrow>
          (if \<not> js_valid header then Corrupt
           else if length buf < JS_HEADER_SIZE + js_payloadLen header then NeedMore
           else Frame (js_type header, js_msgId header, take (js_payloadLen header) (drop JS_HEADER_SIZE buf))
                  (drop (JS_HEADER_SIZE + js_payloadLen header) buf)))"

definition js_drain :: "bytes \<Rightarrow> js_frame list \<Rightarrow> js_frame list drained outcome" where
  "js_drain buf out = (case frame_loop buf 0 of (fs, offset, bad) \<Rightarrow>
     Done (if bad then Dropped (out @ fs) else Open (drop offset buf) (out @ fs)))"

lemma frame_loop_shift:
  "frame_loop buf (k + n) = (case frame_loop (drop k buf) n of (fs, offset, bad) \<Rightarrow> (fs, k + offset, bad))"
proof (induction "drop k buf" n rule: frame_loop.induct)
  case (1 n)
  show ?case
    by (subst (1 2) frame_loop.simps)
      (use 1 in \<open>auto simp: add.assoc add.commute add.left_commute Let_def split: sum.split prod.splits\<close>)
qed

lemma frame_loop_next:
  "frame_loop buf 0 = (case js_next_frame buf of
     NeedMore \<Rightarrow> ([], 0, False)
   | Corrupt \<Rightarrow> ([], 0, True)
   | Frame f rest \<Rightarrow> (case frame_loop rest 0 of (fs, offset, bad) \<Rightarrow> (f # fs, length buf - length rest + offset, bad)))"
proof (cases "length buf < JS_HEADER_SIZE")
  case True
  then show ?thesis by (subst frame_loop.simps) (simp add: js_next_frame_def)
next
  case False
  then obtain header where h: "decodeHeader buf = Inr header"
    using decodeHeader_agrees [of buf] by auto
  let ?n = "JS_HEADER_SIZE + js_payloadLen header"
  have "frame_loop buf ?n = (case frame_loop (drop ?n buf) 0 of (fs, offset, bad) \<Rightarrow> (fs, ?n + offset, bad))"
    using frame_loop_shift [of buf ?n 0] by simp
  with False h show ?thesis
    by (subst frame_loop.simps) (auto simp: js_next_frame_def Let_def split: prod.splits)
qed

lemma decodeHeader_append: "JS_HEADER_SIZE \<le> length buf \<Longrightarrow> decodeHeader (buf @ ext) = decodeHeader buf"
  by (simp add: decodeHeader_def JS_HEADER_SIZE_def nth_append)

interpretation gw: stream_framer js_next_frame "\<lambda>f out. Done (out @ [f])" js_drain
proof unfold_locales
  fix buf f rest ext assume "js_next_frame buf = Frame f rest"
  then show "js_next_frame (buf @ ext) = Frame f (rest @ ext)" "length rest < length buf"
    by (auto simp: js_next_frame_def decodeHeader_append not_less JS_HEADER_SIZE_def split: if_splits sum.splits)
next
  fix buf :: bytes and ext assume "js_next_frame buf = Corrupt"
  then show "js_next_frame (buf @ ext) = Corrupt"
    by (auto simp: js_next_frame_def decodeHeader_append not_less split: if_splits sum.splits)
next
  fix buf out
  have "length rest \<le> length buf \<and> drop (length buf - length rest) buf = rest" if "js_next_frame buf = Frame f rest" for f rest
    using that by (auto simp: js_next_frame_def Let_def split: if_splits sum.splits)
  then have "drop (length buf - length rest + n) buf = drop n rest" if "js_next_frame buf = Frame f rest" for f rest n
    using that by (metis add.commute drop_drop)
  then show "js_drain buf out = (case js_next_frame buf of
      NeedMore \<Rightarrow> Done (Open buf out)
    | Corrupt \<Rightarrow> Done (Dropped out)
    | Frame f rest \<Rightarrow> obind (Done (out @ [f])) (js_drain rest))"
    unfolding js_drain_def by (subst frame_loop_next) (auto split: frame_step.split prod.split)
qed

text \<open>The client as a reader: what the drained stream says about a \<open>data\<close> event.\<close>

definition live :: "TcpClient \<Rightarrow> bool" where
  "live c \<longleftrightarrow> (\<exists>s. socket c = Some s \<and> \<not> destroyed s)"

lemma on_data_drain:
  assumes "live c" "on_data chunk c = (fs, c')"
  shows "js_drain (readBuf c @ chunk) out = Done (if live c' then Open (readBuf c') (out @ fs) else Dropped (out @ fs))"
  using assms by (auto simp: on_data_def parseFrames_def js_drain_def live_def split: prod.splits if_splits)

fun receive :: "bytes list \<Rightarrow> TcpClient \<Rightarrow> js_frame list \<times> TcpClient" where
  "receive [] c = ([], c)"
| "receive (chunk # chunks) c =
     (if live c then (case on_data chunk c of (fs, c') \<Rightarrow>
        case receive chunks c' of (gs, c'') \<Rightarrow> (fs @ gs, c'')) else ([], c))"

lemma receive_dead: "\<not> live c \<Longrightarrow> receive chunks c = ([], c)"
  by (cases chunks) auto

text \<open>However the stream is cut into chunks, the client reads it as if it came at once.\<close>

lemma receive_drain:
  assumes "live c" "receive (chunk # chunks) c = (fs, c')"
  shows "js_drain (readBuf c @ concat (chunk # chunks)) out =
    Done (if live c' then Open (readBuf c') (out @ fs) else Dropped (out @ fs))"
  using assms
proof (induction chunks arbitrary: chunk c fs out)
  case Nil
  then show ?case using on_data_drain by (auto split: prod.splits)
next
  case (Cons d chunks)
  obtain gs c1 where c1: "on_data chunk c = (gs, c1)" by fastforce
  have d: "js_drain (readBuf c @ concat (chunk # d # chunks)) out =
      (if live c1 then js_drain (readBuf c1 @ concat (d # chunks)) (out @ gs) else Done (Dropped (out @ gs)))"
    using gw.drain_append [of "readBuf c @ chunk" "concat (d # chunks)" out] on_data_drain [OF Cons.prems(1) c1] by simp
  show ?case
  proof (cases "live c1")
    case True
    moreover obtain hs where "receive (d # chunks) c1 = (hs, c')" "fs = gs @ hs"
      using Cons.prems c1 by (auto split: prod.splits simp del: receive.simps(2) simp: receive.simps(2) [of chunk])
    ultimately show ?thesis using Cons.IH [of c1 d hs "out @ gs"] d by simp
  next
    case False
    then show ?thesis using Cons.prems c1 d by (auto simp: receive_dead split: prod.splits)
  qed
qed

subsection \<open>Streams of the broker\<close>

text \<open>A frame of the broker as the client emits it.\<close>

fun emitted :: "MessageType \<times> u64 \<times> bytes \<Rightarrow> js_frame" where
  "emitted (ty, mid, payload) = (type_byte ty, unat mid, payload)"

lemma js_next_frame_frame_bytes [codec_simps]:
  assumes "frame_ok f"
  shows "js_next_frame (frame_bytes f @ rest) = Frame (emitted f) rest"
proof -
  obtain ty mid payload where f: "f = (ty, mid, payload)" by (cases f)
  have mid: "unat mid < 2 ^ 64"
    using unsigned_less [of mid, where ?'a = nat] by simp
  obtain h :: ParsedHeader where h: "decode_header (frame_bytes f @ rest) = Done h"
    "decodeHeader (frame_bytes f @ rest) = Inr \<lparr>js_valid = h_valid h, js_type = type_byte (h_type h),
      js_payloadLen = unat (h_payload_len h), js_msgId = unat (h_msg_id h)\<rparr>"
    using decodeHeader_agrees [of "frame_bytes f @ rest"] by (auto simp: f JS_HEADER_SIZE_def)
  moreover have "h = \<lparr>h_magic = FRAME_MAGIC, h_type = type_of_byte (type_byte ty), h_payload_len = of_nat (length payload),
      h_msg_id = of_nat (unat mid), h_valid = True\<rparr>"
    using h(1) assms mid decode_header_wire [of "length payload" "unat mid" "type_byte ty" "payload @ rest"] by (simp add: f)
  ultimately show ?thesis
    using assms by (simp add: js_next_frame_def f JS_HEADER_SIZE_def unat_of_nat)
qed

lemma js_drain_frames:
  "\<forall>f \<in> set fs. frame_ok f \<Longrightarrow> js_drain (concat (map frame_bytes fs) @ rest) out = js_drain rest (out @ map emitted fs)"
proof (induction fs arbitrary: out)
  case (Cons f fs)
  then show ?case
    using gw.drain_eq [of "frame_bytes f @ concat (map frame_bytes fs) @ rest" out]
    by (simp add: js_next_frame_frame_bytes del: frame_bytes.simps emitted.simps)
qed simp


section \<open>A corrupt read buffer\<close>

definition poisoned :: "bytes \<Rightarrow> js_frame list \<Rightarrow> bool" where
  "poisoned buf fs \<longleftrightarrow> js_drain buf [] = Done (Dropped fs)"

lemma poisoned_append: "poisoned buf fs \<Longrightarrow> poisoned (buf @ ext) fs"
  by (simp add: poisoned_def gw.drain_append)

lemma poisoned_on_data:
  assumes "poisoned (readBuf c @ chunk) fs" "on_data chunk c = (gs, c')"
  shows "gs = fs \<and> readBuf c' = readBuf c @ chunk \<and> \<not> live c'"
  using assms by (auto simp: poisoned_def on_data_def parseFrames_def js_drain_def live_def split: prod.splits if_splits)

text \<open>The events of the client, with the frames they emit.\<close>

inductive client_event :: "TcpClient \<Rightarrow> js_frame list \<Rightarrow> TcpClient \<Rightarrow> bool" where
  ev_data: "live c \<Longrightarrow> on_data chunk c = (fs, c') \<Longrightarrow> client_event c fs (run_ticks c')"
| ev_close: "client_event c [] (onDisconnect c)"
| ev_retry: "client_event c [] (connect c)"
| ev_connect: "live c \<Longrightarrow> client_event c [] (run_ticks (on_connect resubscriptions c))"
| ev_send: "client_event c [] (run_ticks (send_buffer frame c))"
| ev_beat: "heartbeat c = Inr c' \<Longrightarrow> client_event c [] (run_ticks c')"
| ev_stop: "client_event c [] (stop_client c)"

lemma readBuf_send_buffer [simp]: "readBuf (send_buffer frame c) = readBuf c"
  by (simp add: send_buffer_def Let_def split: prod.split bool.split option.split)

lemma readBuf_run_ticks [simp]: "readBuf (run_ticks c) = readBuf c"
proof -
  have "readBuf ((tick ^^ n) c) = readBuf c" for n by (induction n) (simp_all add: tick_def)
  then show ?thesis by (simp add: run_ticks_def)
qed

lemma readBuf_on_connect [simp]: "readBuf (on_connect rs c) = readBuf c"
proof -
  have "readBuf (fold send_buffer fs c) = readBuf c" for fs c by (induction fs arbitrary: c) simp_all
  then show ?thesis by (simp add: on_connect_def Let_def)
qed

lemma client_event_poisoned:
  assumes "client_event c fs c'" "poisoned (readBuf c) gs"
  shows "poisoned (readBuf c') gs"
  using assms
proof cases
  case (ev_data chunk c1)
  then show ?thesis using poisoned_on_data [of c chunk gs fs c1] poisoned_append [OF assms(2)] by simp
next
  case (ev_beat c1)
  then show ?thesis using assms(2)
    by (auto simp: heartbeat_def encodeHeartbeat_eq split: if_splits)
qed (use assms(2) in \<open>auto simp: onDisconnect_def connect_def stop_client_def Let_def\<close>)

definition client_leads_to :: "TcpClient \<Rightarrow> TcpClient \<Rightarrow> bool" where
  "client_leads_to = (\<lambda>c c'. \<exists>fs. client_event c fs c')\<^sup>*\<^sup>*"

lemma poisoned_forever: "client_leads_to c c' \<Longrightarrow> poisoned (readBuf c) fs \<Longrightarrow> poisoned (readBuf c') fs"
  unfolding client_leads_to_def by (induction rule: rtranclp_induct) (auto intro: client_event_poisoned)

text \<open>A header cut in its magic number, followed by the beginning of a new stream.\<close>

lemma cut_magic_poisons:
  assumes "0 < k" "k < 4" "JS_HEADER_SIZE \<le> length chunk"
  shows "poisoned (take k (be_bytes 4 MAGIC) @ be_bytes 4 MAGIC @ chunk) []"
proof -
  let ?m = "be_bytes 4 MAGIC"
  have "be_bytes (Suc (Suc (Suc (Suc 0)))) MAGIC = [0xDE, 0xAD, 0xBE, 0xEF]"
    unfolding be_bytes.simps MAGIC_def by simp
  moreover have "Suc (Suc (Suc (Suc 0))) = 4" by simp
  ultimately have m: "?m = [0xDE, 0xAD, 0xBE, 0xEF]" by (simp only:)
  have "k = 1 \<or> k = 2 \<or> k = 3" using assms(1,2) by auto
  then have "be_val (take 4 (take k ?m @ ?m @ chunk)) \<noteq> MAGIC"
    unfolding m by (elim disjE) (simp_all add: be_val_def MAGIC_def)
  then have "js_next_frame (take k ?m @ ?m @ chunk) = Corrupt"
    using assms(3) by (simp add: js_next_frame_def decodeHeader_def JS_HEADER_SIZE_def)
  then show ?thesis
    using gw.drain_eq [of "take k ?m @ ?m @ chunk" "[]"] by (simp add: poisoned_def)
qed


section \<open>Outgoing frames\<close>

lemma send_disconnected:
  "\<not> connected c \<Longrightarrow> fold send_buffer fs c = c\<lparr>outQueue := outQueue c @ take (10000 - length (outQueue c)) fs\<rparr>"
proof (induction fs arbitrary: c)
  case (Cons f fs)
  have s: "send_buffer f c = (if length (outQueue c) < 10000 then c\<lparr>outQueue := outQueue c @ [f]\<rparr> else c)"
    using Cons.prems by (simp add: send_buffer_def)
  show ?case
  proof (cases "length (outQueue c) < 10000")
    case True
    then have "10000 - length (outQueue c) = Suc (10000 - Suc (length (outQueue c)))" by simp
    with True Cons.IH [of "c\<lparr>outQueue := outQueue c @ [f]\<rparr>"] Cons.prems s show ?thesis by simp
  qed (use Cons s in simp)
qed simp

lemma send_connected:
  assumes "connected c" "socket c = Some s" "\<not> corkTimer c" "\<not> destroyed s"
  shows "fold send_buffer fs c = c\<lparr>socket := Some (s\<lparr>corked := corked s + length fs, kept_writes := kept_writes s @ concat fs\<rparr>),
    ticks := ticks c + length fs\<rparr>"
  using assms
proof (induction fs arbitrary: c s)
  case (Cons f fs)
  have c: "c\<lparr>corkTimer := False\<rparr> = c" using Cons.prems(3) by simp
  define s1 where "s1 = s\<lparr>corked := corked s + 1, kept_writes := kept_writes s @ f\<rparr>"
  have "send_buffer f c = c\<lparr>socket := Some s1, ticks := ticks c + 1\<rparr>"
    using Cons.prems c by (simp add: send_buffer_def sock_write_def cork_def s1_def)
  then show ?case
    using Cons.IH [of "c\<lparr>socket := Some s1, ticks := ticks c + 1\<rparr>" s1] Cons.prems by (simp add: s1_def)
qed simp

lemma uncork_all: "corked s = n \<Longrightarrow> 0 < n \<Longrightarrow>
  (uncork ^^ n) s = s\<lparr>corked := 0, passed_on := passed_on s @ kept_writes s, kept_writes := []\<rparr>"
proof (induction n arbitrary: s)
  case (Suc n)
  show ?case
  proof (cases "n = 0")
    case False
    with Suc have "uncork s = s\<lparr>corked := n\<rparr>" by (simp add: uncork_def)
    with Suc False Suc.IH [of "s\<lparr>corked := n\<rparr>"] show ?thesis by (simp add: funpow_Suc_right del: funpow.simps(2))
  qed (use Suc in \<open>simp add: uncork_def\<close>)
qed simp

lemma tick_all: "\<not> corkTimer c \<Longrightarrow> (tick ^^ n) c = c\<lparr>socket := map_option (uncork ^^ n) (socket c), ticks := ticks c - n\<rparr>"
proof (induction n)
  case (Suc n)
  have "(tick ^^ Suc n) c = tick (c\<lparr>socket := map_option (uncork ^^ n) (socket c), ticks := ticks c - n\<rparr>)"
    using Suc.IH [OF Suc.prems] by simp
  also have "\<dots> = c\<lparr>socket := map_option (uncork ^^ Suc n) (socket c), ticks := ticks c - Suc n\<rparr>"
    unfolding tick_def by (rule TcpClient.equality) (use Suc.prems in \<open>simp_all add: option.map_comp\<close>)
  finally show ?case .
qed (simp add: option.map_id0)

text \<open>Between two events nothing is held back.\<close>

definition idle_socket :: "Socket \<Rightarrow> bool" where
  "idle_socket s \<longleftrightarrow> corked s = 0 \<and> kept_writes s = [] \<and> \<not> destroyed s"

lemma send_turn:
  assumes "connected c" "socket c = Some s" "\<not> corkTimer c" "ticks c = 0" "idle_socket s"
  shows "run_ticks (fold send_buffer fs c) = c\<lparr>socket := Some (s\<lparr>passed_on := passed_on s @ concat fs\<rparr>)\<rparr>"
proof (cases "fs = []")
  case False
  then have "0 < length fs" by simp
  with assms show ?thesis
    by (simp add: send_connected idle_socket_def run_ticks_def tick_all uncork_all)
qed (use assms in \<open>simp add: run_ticks_def\<close>)

lemma on_connect_turn:
  assumes "socket c = Some s" "\<not> corkTimer c" "ticks c = 0" "idle_socket s"
  shows "run_ticks (on_connect rs c) = c\<lparr>connected := True, delay := RECONNECT_MIN_MS, outQueue := [], hbTimer := True,
    socket := Some (s\<lparr>passed_on := passed_on s @ concat rs @ concat (outQueue c)\<rparr>)\<rparr>"
proof -
  let ?c1 = "c\<lparr>connected := True, delay := RECONNECT_MIN_MS\<rparr>"
  have q: "outQueue (fold send_buffer rs ?c1) = outQueue c"
    using assms by (subst send_connected [of _ s]) (simp_all add: idle_socket_def)
  have ticks: "run_ticks (d\<lparr>outQueue := [], hbTimer := True\<rparr>) = (run_ticks d)\<lparr>outQueue := [], hbTimer := True\<rparr>" for d
  proof -
    have "(tick ^^ n) (d\<lparr>outQueue := [], hbTimer := True\<rparr>) = ((tick ^^ n) d)\<lparr>outQueue := [], hbTimer := True\<rparr>" for n
      by (induction n) (simp_all add: tick_def)
    then show ?thesis by (simp add: run_ticks_def)
  qed
  have "on_connect rs c = (fold send_buffer (rs @ outQueue c) ?c1)\<lparr>outQueue := [], hbTimer := True\<rparr>"
    by (simp add: on_connect_def Let_def q)
  then show ?thesis
    using send_turn [of ?c1 s "rs @ outQueue c"] assms by (simp only: ticks) simp
qed

lemma delay_backoff:
  assumes "\<not> stopping c" "delay c = RECONNECT_MIN_MS"
  shows "delay (((connect \<circ> onDisconnect) ^^ n) c) = min (RECONNECT_MIN_MS * 2 ^ n) RECONNECT_MAX_MS \<and>
    \<not> stopping (((connect \<circ> onDisconnect) ^^ n) c)"
proof (induction n)
  case (Suc n)
  then show ?case
    by (simp add: connect_def onDisconnect_def Let_def RECONNECT_MIN_MS_def RECONNECT_MAX_MS_def min_def)
qed (use assms in \<open>simp add: RECONNECT_MIN_MS_def RECONNECT_MAX_MS_def\<close>)


section \<open>Properties\<close>

text \<open>
  The client emits the broker's frames. On a connection that begins with an empty read
  buffer, frames that arrive in any fragmentation are emitted once each and in order; an
  incomplete rest waits in the buffer, and a corrupt one destroys the connection.
\<close>

theorem gateway_stream_reassembly:
  assumes "live c" and "readBuf c = []" and "\<forall>f \<in> set fs. frame_ok f"
    and "concat (chunk # chunks) = concat (map frame_bytes fs) @ rest"
  shows "(js_next_frame rest = NeedMore \<longrightarrow>
      fst (receive (chunk # chunks) c) = map emitted fs \<and>
      live (snd (receive (chunk # chunks) c)) \<and> readBuf (snd (receive (chunk # chunks) c)) = rest) \<and>
    (js_next_frame rest = Corrupt \<longrightarrow>
      fst (receive (chunk # chunks) c) = map emitted fs \<and> \<not> live (snd (receive (chunk # chunks) c)))"
proof -
  obtain gs c' where r: "receive (chunk # chunks) c = (gs, c')" by fastforce
  have "js_drain rest (map emitted fs) = Done (if live c' then Open (readBuf c') gs else Dropped gs)"
    using receive_drain [OF assms(1) r, of "[]"] js_drain_frames [OF assms(3), of rest "[]"] assms(2,4)
    by (simp del: receive.simps)
  then show ?thesis
    unfolding r using gw.drain_eq [of rest "map emitted fs"] by (auto split: if_splits)
qed

definition connected_client :: TcpClient where
  "connected_client = new_client\<lparr>socket := Some new_socket, connected := True, hbTimer := True\<rparr>"

theorem gateway_stream_reassembly_witness:
  "fst (receive [take 5 (encode_ack_frame HEARTBEAT 0), drop 5 (encode_ack_frame HEARTBEAT 0) @ [1]] connected_client) = [(5, 0, [])]"
proof -
  have "js_next_frame [1] = NeedMore" by (simp add: js_next_frame_def JS_HEADER_SIZE_def)
  then show ?thesis
    using gateway_stream_reassembly [of connected_client "[(HEARTBEAT, 0, [])]" "take 5 (encode_ack_frame HEARTBEAT 0)"
        "[drop 5 (encode_ack_frame HEARTBEAT 0) @ [1]]" "[1]"]
    by (simp add: connected_client_def new_client_def new_socket_def live_def frame_bytes_encode_ack_frame
        del: receive.simps frame_bytes.simps)
qed

text \<open>
  C30: the read buffer outlives the connection. If a connection is lost inside the magic number
  of a frame, the next one is destroyed as soon as 17 more bytes arrive, although the broker
  sends a valid stream; and so is every later one, after any sequence of events: the client
  never emits a frame again.
\<close>

theorem cut_header_poisons_client:
  assumes "0 < k" and "k < 4" and "readBuf c = take k (be_bytes 4 MAGIC)"
    and "JS_HEADER_SIZE \<le> length chunk" and "client_leads_to (snd (on_data (be_bytes 4 MAGIC @ chunk) c)) c'"
  shows "fst (on_data (be_bytes 4 MAGIC @ chunk) c) = [] \<and> \<not> live (snd (on_data (be_bytes 4 MAGIC @ chunk) c)) \<and>
    fst (on_data bs c') = [] \<and> \<not> live (snd (on_data bs c'))"
proof -
  obtain fs c1 where d: "on_data (be_bytes 4 MAGIC @ chunk) c = (fs, c1)" by fastforce
  have p: "poisoned (readBuf c @ be_bytes 4 MAGIC @ chunk) []"
    using cut_magic_poisons [OF assms(1,2,4)] assms(3) by simp
  from poisoned_on_data [OF p d] have c1: "fs = []" "readBuf c1 = readBuf c @ be_bytes 4 MAGIC @ chunk" "\<not> live c1"
    by simp_all
  with p have "poisoned (readBuf c1) []" by simp
  then have "poisoned (readBuf c') []"
    using poisoned_forever [of c1 c' "[]"] assms(5) d by simp
  then have "poisoned (readBuf c' @ bs) []" by (rule poisoned_append)
  then show ?thesis
    using poisoned_on_data [of c' bs "[]"] c1 d by (cases "on_data bs c'") auto
qed

theorem cut_header_poisons_client_witness:
  "\<exists>c. readBuf c = [0xDE] \<and> live c \<and> \<not> live (snd (on_data (encode_ack_frame HEARTBEAT 0 @ encode_ack_frame HEARTBEAT 0) c))"
proof -
  let ?c = "connected_client\<lparr>readBuf := take 1 (be_bytes 4 MAGIC)\<rparr>"
  let ?chunk = "drop 4 (encode_ack_frame HEARTBEAT 0) @ encode_ack_frame HEARTBEAT 0"
  have e: "encode_ack_frame HEARTBEAT 0 = be_bytes 4 MAGIC @ drop 4 (encode_ack_frame HEARTBEAT 0)"
    by (simp add: encode_ack_frame_layout wire_header_def MAGIC_def)
  have "JS_HEADER_SIZE \<le> length ?chunk"
    by (simp add: JS_HEADER_SIZE_def encode_ack_frame_layout)
  moreover have "client_leads_to x x" for x by (simp add: client_leads_to_def)
  ultimately have "\<not> live (snd (on_data (be_bytes 4 MAGIC @ ?chunk) ?c))"
    using cut_header_poisons_client [of 1 ?c ?chunk "snd (on_data (be_bytes 4 MAGIC @ ?chunk) ?c)" "[]"] by simp
  moreover have "be_bytes 4 MAGIC @ ?chunk = encode_ack_frame HEARTBEAT 0 @ encode_ack_frame HEARTBEAT 0"
    using e by (metis append.assoc)
  moreover have "be_bytes (Suc (Suc (Suc (Suc 0)))) MAGIC = [0xDE, 0xAD, 0xBE, 0xEF]"
    unfolding be_bytes.simps MAGIC_def by simp
  moreover have "Suc (Suc (Suc (Suc 0))) = 4" by simp
  ultimately show ?thesis
    by (intro exI [of _ ?c]) (simp add: connected_client_def live_def new_client_def new_socket_def)
qed

text \<open>
  What the gateway sends. Of the frames sent while there is no connection the first
  10,000 are kept and the others dropped; a new connection carries the listeners'
  resubscriptions first, then the kept frames, then what is sent later, all in order, each
  passed on by the end of the turn in which it was written. The delay before attempt n is
  doubled up to 30 seconds and reset by a connection.
\<close>

theorem gateway_outbound_order:
  assumes "\<not> connected c" and "\<not> stopping c" and "outQueue c = []" and "\<not> corkTimer c" and "ticks c = 0"
    and "delay c = RECONNECT_MIN_MS"
    and "c1 = run_ticks (on_connect rs (connect (fold send_buffer fs (((connect \<circ> onDisconnect) ^^ n) c))))"
  shows "delay (((connect \<circ> onDisconnect) ^^ n) c) = min (100 * 2 ^ n) 30000 \<and>
    outQueue c1 = [] \<and> delay c1 = 100 \<and>
    (\<exists>s. socket (run_ticks (fold send_buffer gs c1)) = Some s \<and> kept_writes s = [] \<and>
      passed_on s = concat rs @ concat (take 10000 fs) @ concat gs)"
proof -
  define d where "d = ((connect \<circ> onDisconnect) ^^ n) c"
  have d: "delay d = min (100 * 2 ^ n) 30000" "\<not> stopping d"
    using delay_backoff [OF assms(2,6), of n] by (simp_all add: d_def RECONNECT_MIN_MS_def RECONNECT_MAX_MS_def)
  have "\<not> connected d \<and> outQueue d = [] \<and> \<not> corkTimer d \<and> ticks d = 0"
    unfolding d_def by (induction n) (use assms in \<open>simp_all add: connect_def onDisconnect_def Let_def\<close>)
  then have d2: "\<not> connected d" "outQueue d = []" "\<not> corkTimer d" "ticks d = 0" by simp_all
  define e where "e = connect (fold send_buffer fs d)"
  have e: "socket e = Some new_socket" "outQueue e = take 10000 fs" "\<not> corkTimer e" "ticks e = 0"
    using d d2 by (simp_all add: e_def connect_def send_disconnected)
  have i: "idle_socket new_socket" by (simp add: idle_socket_def new_socket_def)
  define s1 where "s1 = new_socket\<lparr>passed_on := concat rs @ concat (take 10000 fs)\<rparr>"
  have c1: "c1 = e\<lparr>connected := True, delay := RECONNECT_MIN_MS, outQueue := [], hbTimer := True, socket := Some s1\<rparr>"
    using on_connect_turn [OF e(1,3,4) i, of rs] assms(7) e(2) by (simp add: e_def d_def s1_def new_socket_def)
  have "run_ticks (fold send_buffer gs c1) = c1\<lparr>socket := Some (s1\<lparr>passed_on := passed_on s1 @ concat gs\<rparr>)\<rparr>"
    using e by (intro send_turn) (simp_all add: c1 s1_def idle_socket_def new_socket_def)
  with d show ?thesis
    by (simp add: c1 s1_def RECONNECT_MIN_MS_def new_socket_def flip: d_def)
qed

theorem gateway_outbound_order_witness:
  "outQueue (run_ticks (on_connect [] (connect (fold send_buffer [[1]] (((connect \<circ> onDisconnect) ^^ 2) new_client))))) = []"
  using gateway_outbound_order [of new_client _ "[]" "[[1]]" 2 "[]"] by (simp add: new_client_def)

end
