(* ===== verification/MQ_GatewayServer.thy ===== *)
theory MQ_GatewayServer
  imports MQ_GatewayClient MQ_Containers
begin

text \<open>
  \<open>gateway/src/wsServer.js\<close>: the bridge between WebSocket clients, which speak JSON, and the
  connection to the broker. \<open>JSON.parse\<close>, \<open>JSON.stringify\<close> and \<open>String(v)\<close> of a value that is
  not a string are arguments; so is the ready state of the sockets.
\<close>

section \<open>Definitions\<close>

text \<open>The values \<open>JSON.parse\<close> returns; \<open>JInt\<close> is a number with an integral value, \<open>JReal\<close> any
  other number, with its text.\<close>

datatype json =
    JNull | JBool bool | JInt int | JReal js_string | JStr js_string
  | JArr "json list" | JObj "(js_string \<times> json) list"

type_synonym ws = nat

datatype ws_message =
    WsEvent js_string js_string json
  | WsError js_string
  | WsSubscribed js_string js_string
  | WsStatus js_string

text \<open>
  A \<open>Map\<close> and a \<open>Set\<close> keep the order of insertion: association lists and lists without
  repetition. The set of recent ids is only tested for membership; the ring is an array with
  holes.
\<close>

record WsServer =
  clientTopics :: "(ws \<times> js_string list) list"
  topicClients :: "(js_string \<times> ws list) list"
  recentMsgIds :: "js_string set"
  recentMsgIdRing :: "nat \<Rightarrow> js_string option"
  ringIndex :: nat
  ringCount :: nat
  msgCount :: nat

record Gateway =
  tcp :: TcpClient
  server :: WsServer
  ws_out :: "(ws \<times> ws_message) list"

definition new_ws_server :: WsServer where
  "new_ws_server = \<lparr>clientTopics = [], topicClients = [], recentMsgIds = {}, recentMsgIdRing = (\<lambda>_. None),
     ringIndex = 0, ringCount = 0, msgCount = 0\<rparr>"

definition set_add :: "'a \<Rightarrow> 'a list \<Rightarrow> 'a list" where
  "set_add x xs = (if x \<in> set xs then xs else xs @ [x])"

definition ws_send :: "ws \<Rightarrow> ws_message \<Rightarrow> Gateway \<Rightarrow> Gateway" where
  "ws_send ws msg g = g\<lparr>ws_out := ws_out g @ [(ws, msg)]\<rparr>"

definition tcp_send :: "bytes \<Rightarrow> Gateway \<Rightarrow> Gateway" where
  "tcp_send frame g = g\<lparr>tcp := send_buffer frame (tcp g)\<rparr>"

definition on_connection :: "ws \<Rightarrow> Gateway \<Rightarrow> Gateway" where
  "on_connection ws g = g\<lparr>server := (server g)\<lparr>clientTopics := AList.update ws [] (clientTopics (server g))\<rparr>\<rparr>"

definition subscribe_ws :: "ws \<Rightarrow> js_string \<Rightarrow> js_string \<Rightarrow> Gateway \<Rightarrow> js_error + Gateway" where
  "subscribe_ws ws tpc grp g =
     (case map_of (clientTopics (server g)) ws of
        None \<Rightarrow> Inr g
      | Some clientSet \<Rightarrow>
          (let s = server g;
               tcs = (if map_of (topicClients s) tpc = None then AList.update tpc [] (topicClients s) else topicClients s);
               cs = (case map_of tcs tpc of None \<Rightarrow> [] | Some ws_set \<Rightarrow> ws_set);
               s' = s\<lparr>clientTopics := AList.update ws (set_add tpc clientSet) (clientTopics s),
                      topicClients := AList.update tpc (set_add ws cs) tcs\<rparr>
           in rbind (encodeSubscribe tpc grp 0) (\<lambda>frame.
              Inr (ws_send ws (WsSubscribed tpc grp) (tcp_send frame (g\<lparr>server := s'\<rparr>))))))"

definition RING_SIZE :: nat where
  "RING_SIZE = 50000"

text \<open>The idempotency check of \<open>#dispatchEvent\<close>: \<open>None\<close> drops the event.\<close>

definition bypasses :: "js_string \<Rightarrow> bool" where
  "bypasses tpc \<longleftrightarrow> starts_with tpc (js ''$SYS.'') \<or> starts_with tpc (js ''$DLQ.'') \<or> starts_with tpc (js ''chaos.'')"

definition remember :: "js_string \<Rightarrow> WsServer \<Rightarrow> WsServer option" where
  "remember idStr s =
     (if idStr \<in> recentMsgIds s then None
      else
        let s1 = (if ringCount s = RING_SIZE
                  then s\<lparr>recentMsgIds := (case recentMsgIdRing s (ringIndex s) of
                           None \<Rightarrow> recentMsgIds s | Some oldest \<Rightarrow> recentMsgIds s - {oldest})\<rparr>
                  else s\<lparr>ringCount := ringCount s + 1\<rparr>)
        in Some (s1\<lparr>recentMsgIds := insert idStr (recentMsgIds s1),
                    recentMsgIdRing := (recentMsgIdRing s1)(ringIndex s1 := Some idStr),
                    ringIndex := (ringIndex s1 + 1) mod RING_SIZE\<rparr>))"

definition deliveries :: "(ws \<Rightarrow> bool) \<Rightarrow> js_string \<Rightarrow> WsServer \<Rightarrow> ws list" where
  "deliveries is_open tpc s =
     concat (map (\<lambda>(pattern, cs). if topicMatches pattern tpc then filter is_open cs else []) (topicClients s))"

definition dispatchEvent :: "(js_string \<Rightarrow> json option) \<Rightarrow> (ws \<Rightarrow> bool) \<Rightarrow> js_string \<Rightarrow> nat \<Rightarrow> bytes \<Rightarrow> Gateway \<Rightarrow> Gateway" where
  "dispatchEvent json_parse is_open tpc msgId bdy g =
     (let idStr = js (nat_digits msgId) in
      case (if bypasses tpc then Some (server g) else remember idStr (server g)) of
        None \<Rightarrow> g
      | Some s \<Rightarrow>
          (let parsedBody = (case json_parse (utf8_decode bdy) of Some v \<Rightarrow> v | None \<Rightarrow> JStr (utf8_decode bdy));
               envelope = WsEvent tpc idStr parsedBody
           in g\<lparr>server := s, ws_out := ws_out g @ map (\<lambda>ws. (ws, envelope)) (deliveries is_open tpc s)\<rparr>))"

text \<open>The \<open>frame\<close> event of the connection to the broker.\<close>

definition on_tcp_frame :: "(js_string \<Rightarrow> json option) \<Rightarrow> (ws \<Rightarrow> bool) \<Rightarrow> js_frame \<Rightarrow> Gateway \<Rightarrow> Gateway" where
  "on_tcp_frame json_parse is_open f g =
     (case f of (ty, msgId, payload) \<Rightarrow>
        if ty = Js_EVENT_DATA then
          (let g1 = g\<lparr>server := (server g)\<lparr>msgCount := msgCount (server g) + 1\<rparr>\<rparr>;
               (tpc, bdy) = decodeEventPayload payload
           in dispatchEvent json_parse is_open tpc msgId bdy g1)
        else g)"

definition broadcastStatus :: "ws list \<Rightarrow> (ws \<Rightarrow> bool) \<Rightarrow> js_string \<Rightarrow> Gateway \<Rightarrow> Gateway" where
  "broadcastStatus wss_clients is_open status g =
     g\<lparr>ws_out := ws_out g @ map (\<lambda>ws. (ws, WsStatus status)) (filter is_open wss_clients)\<rparr>"

text \<open>The frames the listener of the \<open>connect\<close> event sends, and the event as a whole.\<close>

fun resubscriptions :: "js_string list \<Rightarrow> js_error + bytes list" where
  "resubscriptions [] = Inr []"
| "resubscriptions (tpc # tpcs) =
     rbind (encodeSubscribe tpc [] 0) (\<lambda>frame. rbind (resubscriptions tpcs) (\<lambda>frames. Inr (frame # frames)))"

definition on_tcp_connect :: "ws list \<Rightarrow> (ws \<Rightarrow> bool) \<Rightarrow> Gateway \<Rightarrow> js_error + Gateway" where
  "on_tcp_connect wss_clients is_open g =
     (let g1 = broadcastStatus wss_clients is_open (js ''connected'') g in
      rbind (resubscriptions (map fst (topicClients (server g1)))) (\<lambda>frames.
      Inr (g1\<lparr>tcp := on_connect frames (tcp g1)\<rparr>)))"

definition on_tcp_disconnect :: "ws list \<Rightarrow> (ws \<Rightarrow> bool) \<Rightarrow> Gateway \<Rightarrow> Gateway" where
  "on_tcp_disconnect wss_clients is_open g =
     broadcastStatus wss_clients is_open (js ''broker_disconnected'') (g\<lparr>tcp := onDisconnect (tcp g)\<rparr>)"

definition on_stats_timer :: "(js_string \<Rightarrow> json option) \<Rightarrow> (ws \<Rightarrow> bool) \<Rightarrow> bytes \<Rightarrow> Gateway \<Rightarrow> Gateway" where
  "on_stats_timer json_parse is_open stats g =
     dispatchEvent json_parse is_open (js ''$SYS.stats'') 0 stats (g\<lparr>server := (server g)\<lparr>msgCount := 0\<rparr>\<rparr>)"

definition cleanup_topic :: "ws \<Rightarrow> js_string \<Rightarrow> (js_string \<times> ws list) list \<Rightarrow> (js_string \<times> ws list) list" where
  "cleanup_topic ws tpc tcs =
     (case map_of tcs tpc of
        None \<Rightarrow> tcs
      | Some cs \<Rightarrow>
          (let cs' = removeAll ws cs
           in if cs' = [] then AList.delete tpc tcs else AList.update tpc cs' tcs))"

definition cleanupClient :: "ws \<Rightarrow> Gateway \<Rightarrow> Gateway" where
  "cleanupClient ws g =
     (let s = server g;
          topics = (case map_of (clientTopics s) ws of None \<Rightarrow> [] | Some ts \<Rightarrow> ts)
      in g\<lparr>server := s\<lparr>topicClients := fold (cleanup_topic ws) topics (topicClients s),
                       clientTopics := AList.delete ws (clientTopics s)\<rparr>\<rparr>)"

subsection \<open>Requests of a client\<close>

text \<open>Property access throws on \<open>null\<close>; only objects have the properties the handler reads.\<close>

fun get_prop :: "json \<Rightarrow> string \<Rightarrow> js_error + json option" where
  "get_prop JNull name = Inl TypeError"
| "get_prop (JObj kvs) name = Inr (map_of kvs (js name))"
| "get_prop _ name = Inr None"

text \<open>\<open>String(v || '')\<close>.\<close>

fun string_or_empty :: "(json \<Rightarrow> js_error + js_string) \<Rightarrow> json option \<Rightarrow> js_error + js_string" where
  "string_or_empty to_str None = Inr []"
| "string_or_empty to_str (Some JNull) = Inr []"
| "string_or_empty to_str (Some (JBool b)) = (if b then to_str (JBool True) else Inr [])"
| "string_or_empty to_str (Some (JInt i)) = (if i = 0 then Inr [] else to_str (JInt i))"
| "string_or_empty to_str (Some (JStr s)) = Inr s"
| "string_or_empty to_str (Some v) = to_str v"

text \<open>\<open>BigInt(v)\<close>; arrays and objects are converted through their string.\<close>

definition bigint_of_string :: "js_string \<Rightarrow> js_error + int" where
  "bigint_of_string s = (case js_bigint s of None \<Rightarrow> Inl SyntaxError | Some i \<Rightarrow> Inr i)"

fun bigint_of :: "(json \<Rightarrow> js_error + js_string) \<Rightarrow> json \<Rightarrow> js_error + int" where
  "bigint_of to_str JNull = Inl TypeError"
| "bigint_of to_str (JBool b) = Inr (if b then 1 else 0)"
| "bigint_of to_str (JInt i) = Inr i"
| "bigint_of to_str (JReal t) = Inl RangeError"
| "bigint_of to_str (JStr s) = bigint_of_string s"
| "bigint_of to_str v = rbind (to_str v) bigint_of_string"

text \<open>The \<open>ack\<close> and \<open>nack\<close> requests.\<close>

definition settle :: "(json \<Rightarrow> js_error + js_string) \<Rightarrow> u8 \<Rightarrow> json option \<Rightarrow> Gateway \<Rightarrow> js_error + Gateway" where
  "settle to_str ty msgId g =
     (case msgId of
        None \<Rightarrow> Inr g
      | Some JNull \<Rightarrow> Inr g
      | Some v \<Rightarrow>
          rbind (bigint_of to_str v) (\<lambda>i.
          rbind (encodeAck ty i) (\<lambda>frame.
          Inr (tcp_send frame g))))"

text \<open>The text of \<open>msg.type\<close> in a template string.\<close>

fun template_text :: "(json \<Rightarrow> js_error + js_string) \<Rightarrow> json option \<Rightarrow> js_error + js_string" where
  "template_text to_str None = Inr (js ''undefined'')"
| "template_text to_str (Some (JStr s)) = Inr s"
| "template_text to_str (Some v) = to_str v"

definition handleMessage :: "(js_string \<Rightarrow> json option) \<Rightarrow> (json \<Rightarrow> js_string) \<Rightarrow> (json \<Rightarrow> js_error + js_string) \<Rightarrow>
    ws \<Rightarrow> bytes \<Rightarrow> Gateway \<Rightarrow> js_error + Gateway" where
  "handleMessage json_parse stringify to_str ws raw g =
     (case json_parse (utf8_decode raw) of
        None \<Rightarrow> Inr (ws_send ws (WsError (js ''Invalid JSON'')) g)
      | Some msg \<Rightarrow>
          rbind (get_prop msg ''type'') (\<lambda>ty.
          if ty = Some (JStr (js ''subscribe'')) then
            rbind (rbind (get_prop msg ''topic'') (string_or_empty to_str)) (\<lambda>tpc.
            rbind (rbind (get_prop msg ''group'') (string_or_empty to_str)) (\<lambda>grp.
            if tpc = [] then Inr g else subscribe_ws ws tpc grp g))
          else if ty = Some (JStr (js ''publish'')) then
            rbind (rbind (get_prop msg ''topic'') (string_or_empty to_str)) (\<lambda>tpc.
            rbind (get_prop msg ''body'') (\<lambda>b.
            let bdy = (case b of None \<Rightarrow> JObj [] | Some JNull \<Rightarrow> JObj [] | Some v \<Rightarrow> v) in
            if tpc = [] then Inr g
            else rbind (encodeDataFrame stringify Js_PUBLISH tpc (Val bdy) 0) (\<lambda>frame.
                 Inr (tcp_send frame g))))
          else if ty = Some (JStr (js ''ack'')) then
            rbind (get_prop msg ''msgId'') (\<lambda>i. settle to_str Js_ACK i g)
          else if ty = Some (JStr (js ''nack'')) then
            rbind (get_prop msg ''msgId'') (\<lambda>i. settle to_str Js_NACK i g)
          else
            rbind (template_text to_str ty) (\<lambda>t. Inr (ws_send ws (WsError (js ''Unknown type: '' @ t)) g))))"


section \<open>The window of recent ids\<close>

text \<open>
  The interface of the idempotency check: a bounded window of the ids accepted last. An id in
  the window is refused; a new id is accepted and pushes the oldest one out of a full window.
\<close>

locale id_window =
  fixes note_id :: "'i \<Rightarrow> 's \<Rightarrow> 's option"
    and window :: "'s \<Rightarrow> 'i list \<Rightarrow> bool"
    and size :: nat
  assumes note_known: "window s ids \<Longrightarrow> x \<in> set ids \<Longrightarrow> note_id x s = None"
    and note_new: "window s ids \<Longrightarrow> x \<notin> set ids \<Longrightarrow>
      \<exists>s'. note_id x s = Some s' \<and> window s' (drop (Suc (length ids) - size) (ids @ [x]))"
begin

text \<open>An id stays in the window while fewer than \<open>size\<close> ids are accepted after it.\<close>

lemma still_known:
  assumes "window s (as @ x # bs)" "length bs + 1 < size" "note_id y s = Some s'"
  shows "\<exists>as' bs'. window s' (as' @ x # bs') \<and> length bs' \<le> length bs + 1"
proof -
  let ?ids = "as @ x # bs"
  have "y \<notin> set ?ids"
    using assms note_known [of s ?ids y] by fastforce
  with assms(1,3) have w: "window s' (drop (Suc (length ?ids) - size) (?ids @ [y]))"
    using note_new by fastforce
  have "Suc (length ?ids) - size \<le> length as" using assms(2) by simp
  then have "drop (Suc (length ?ids) - size) (?ids @ [y]) = drop (Suc (length ?ids) - size) as @ x # (bs @ [y])"
    by simp
  with w show ?thesis by (intro exI [of _ "drop (Suc (length ?ids) - size) as"] exI [of _ "bs @ [y]"]) simp
qed

end

definition slot :: "nat \<Rightarrow> nat \<Rightarrow> nat \<Rightarrow> nat \<Rightarrow> nat" where
  "slot n i c k = (i + (n - c) + k) mod n"

lemma slot_step:
  assumes "i < n" "c < n"
  shows "slot n ((i + 1) mod n) (c + 1) k = slot n i c k" "slot n i c c = i"
    "k < c \<Longrightarrow> slot n i c k \<noteq> i"
proof -
  have "((i + 1) mod n + (n - (c + 1)) + k) mod n = (i + 1 + (n - (c + 1)) + k) mod n"
    by (metis add.assoc mod_add_left_eq)
  moreover have "i + 1 + (n - (c + 1)) + k = i + (n - c) + k" using assms by linarith
  ultimately show "slot n ((i + 1) mod n) (c + 1) k = slot n i c k"
    by (simp only: slot_def)
  show "slot n i c c = i" using assms by (simp add: slot_def)
  show "slot n i c k \<noteq> i" if "k < c"
  proof (cases "i + (n - c) + k < n")
    case False
    then have "slot n i c k = i + (n - c) + k - n"
      using that assms by (simp add: slot_def mod_if)
    with False that assms show ?thesis by simp
  qed (use that assms in \<open>simp add: slot_def\<close>)
qed

lemma slot_full:
  assumes "i < n"
  shows "slot n ((i + 1) mod n) n k = slot n i n (k + 1)" "slot n i n 0 = i" "0 < k \<Longrightarrow> k < n \<Longrightarrow> slot n i n k \<noteq> i"
    "slot n i n n = i"
proof -
  show "slot n ((i + 1) mod n) n k = slot n i n (k + 1)"
    using mod_add_left_eq [of "i + 1" n k] by (simp add: slot_def)
  show "slot n i n 0 = i" "slot n i n n = i" using assms by (simp_all add: slot_def)
  show "slot n i n k \<noteq> i" if "0 < k" "k < n"
  proof (cases "i + k < n")
    case False
    then have "slot n i n k = i + k - n" using that assms by (simp add: slot_def mod_if)
    with False that assms show ?thesis by linarith
  qed (use that in \<open>simp add: slot_def\<close>)
qed

definition id_ring :: "WsServer \<Rightarrow> js_string list \<Rightarrow> bool" where
  "id_ring s ids \<longleftrightarrow> ringIndex s < RING_SIZE \<and> ringCount s \<le> RING_SIZE \<and> distinct ids \<and> recentMsgIds s = set ids \<and>
     length ids = ringCount s \<and>
     (\<forall>k < ringCount s. recentMsgIdRing s (slot RING_SIZE (ringIndex s) (ringCount s) k) = Some (ids ! k))"

lemma id_ring_room:
  assumes "id_ring s ids" "x \<notin> set ids" "ringCount s < RING_SIZE"
  shows "\<exists>s'. remember x s = Some s' \<and> id_ring s' (ids @ [x])"
proof -
  let ?i = "ringIndex s" and ?c = "ringCount s" and ?n = RING_SIZE
  define s' where "s' = s\<lparr>ringCount := ?c + 1, recentMsgIds := insert x (recentMsgIds s),
    recentMsgIdRing := (recentMsgIdRing s)(?i := Some x), ringIndex := (?i + 1) mod ?n\<rparr>"
  have i: "?i < ?n" and ids: "length ids = ?c" "\<And>k. k < ?c \<Longrightarrow> recentMsgIdRing s (slot ?n ?i ?c k) = Some (ids ! k)"
    using assms(1) by (simp_all add: id_ring_def)
  have "remember x s = Some s'"
    using assms by (simp add: remember_def id_ring_def s'_def)
  moreover have "recentMsgIdRing s' (slot ?n (ringIndex s') (ringCount s') k) = Some ((ids @ [x]) ! k)" if "k < ?c + 1" for k
    using that slot_step(1,3) [OF i assms(3), of k] slot_step(2) [OF i assms(3)] ids
    by (cases "k < ?c") (auto simp: s'_def nth_append less_Suc_eq simp flip: Suc_eq_plus1)
  ultimately show ?thesis
    using assms by (auto simp: id_ring_def s'_def RING_SIZE_def)
qed

lemma id_ring_full:
  assumes "id_ring s ids" "x \<notin> set ids" "ringCount s = RING_SIZE"
  shows "\<exists>s'. remember x s = Some s' \<and> id_ring s' (tl ids @ [x])"
proof -
  let ?i = "ringIndex s" and ?n = RING_SIZE
  have pos: "0 < ?n" by (simp add: RING_SIZE_def)
  have i: "?i < ?n" and ids: "length ids = ?n" "\<And>k. k < ?n \<Longrightarrow> recentMsgIdRing s (slot ?n ?i ?n k) = Some (ids ! k)"
    using assms(1,3) by (simp_all add: id_ring_def)
  have old: "recentMsgIdRing s ?i = Some (hd ids)"
    using ids(2) [OF pos] slot_full(2) [OF i] ids(1) pos by (cases ids) simp_all
  define s' where "s' = s\<lparr>recentMsgIds := insert x (recentMsgIds s - {hd ids}),
    recentMsgIdRing := (recentMsgIdRing s)(?i := Some x), ringIndex := (?i + 1) mod ?n\<rparr>"
  have "remember x s = Some s'"
    using assms old by (simp add: remember_def id_ring_def s'_def)
  moreover have "recentMsgIdRing s' (slot ?n (ringIndex s') ?n k) = Some ((tl ids @ [x]) ! k)" if "k < ?n" for k
  proof (cases "k + 1 < ?n")
    case True
    then have "recentMsgIdRing s (slot ?n ?i ?n (k + 1)) = Some (ids ! (k + 1))" by (rule ids(2))
    moreover have "k < ?n - 1" using True by simp
    ultimately show ?thesis using True slot_full(1,3) [OF i] ids(1) by (simp add: s'_def nth_append nth_tl)
  next
    case False
    with that have "k = ?n - 1" by simp
    with pos slot_full(1,4) [OF i] ids(1) show ?thesis by (simp add: s'_def nth_append)
  qed
  moreover have "distinct (tl ids @ [x]) \<and> recentMsgIds s' = set (tl ids @ [x])"
    using assms pos ids(1) by (cases ids) (auto simp: id_ring_def s'_def)
  ultimately show ?thesis
    using assms(3) ids(1) pos by (auto simp: id_ring_def s'_def)
qed

interpretation recent: id_window remember id_ring RING_SIZE
proof
  fix s ids x assume "id_ring s ids" "x \<in> set ids"
  then show "remember x s = None" by (simp add: remember_def id_ring_def)
next
  fix s ids x assume a: "id_ring s ids" "x \<notin> set ids"
  show "\<exists>s'. remember x s = Some s' \<and> id_ring s' (drop (Suc (length ids) - RING_SIZE) (ids @ [x]))"
  proof (cases "ringCount s = RING_SIZE")
    case True
    then have "length ids = RING_SIZE" using a by (simp add: id_ring_def)
    then have "drop (Suc (length ids) - RING_SIZE) (ids @ [x]) = tl ids @ [x]"
      by (cases ids) (auto simp: RING_SIZE_def)
    with id_ring_full [OF a True] show ?thesis by simp
  next
    case False
    with a have "ringCount s < RING_SIZE" "length ids < RING_SIZE" by (auto simp: id_ring_def)
    with id_ring_room [OF a] show ?thesis by simp
  qed
qed


section \<open>The two tables\<close>

definition ws_subscribed :: "WsServer \<Rightarrow> ws \<Rightarrow> js_string \<Rightarrow> bool" where
  "ws_subscribed s ws tpc \<longleftrightarrow> (\<exists>ts. map_of (clientTopics s) ws = Some ts \<and> tpc \<in> set ts)"

definition listed :: "WsServer \<Rightarrow> ws \<Rightarrow> js_string \<Rightarrow> bool" where
  "listed s ws tpc \<longleftrightarrow> (\<exists>cs. map_of (topicClients s) tpc = Some cs \<and> ws \<in> set cs)"

definition tables_inv :: "WsServer \<Rightarrow> bool" where
  "tables_inv s \<longleftrightarrow> um_invar (clientTopics s) \<and> um_invar (topicClients s) \<and>
     (\<forall>tpc cs. map_of (topicClients s) tpc = Some cs \<longrightarrow> distinct cs \<and> cs \<noteq> [] \<and> length (utf8_encode tpc) < 2 ^ 16) \<and>
     (\<forall>ws tpc. ws_subscribed s ws tpc \<longleftrightarrow> listed s ws tpc)"

lemma set_set_add [simp]: "set (set_add x xs) = insert x (set xs)"
  by (auto simp: set_add_def)

lemma distinct_set_add [simp]: "distinct (set_add x xs) \<longleftrightarrow> distinct xs"
  by (auto simp: set_add_def)

lemma set_add_not_Nil [simp]: "set_add x xs \<noteq> []"
  by (auto simp: set_add_def)

lemma tables_inv_subscribe:
  assumes "tables_inv s" "map_of (clientTopics s) ws = Some ts" "length (utf8_encode tpc) < 2 ^ 16"
    and "tcs = (if map_of (topicClients s) tpc = None then AList.update tpc [] (topicClients s) else topicClients s)"
    and "cs = (case map_of tcs tpc of None \<Rightarrow> [] | Some cs \<Rightarrow> cs)"
  shows "tables_inv (s\<lparr>clientTopics := AList.update ws (set_add tpc ts) (clientTopics s),
      topicClients := AList.update tpc (set_add ws cs) tcs\<rparr>)"
proof -
  have cs: "cs = (case map_of (topicClients s) tpc of None \<Rightarrow> [] | Some cs \<Rightarrow> cs)"
    using assms(4,5) by (auto simp: update_conv' split: option.splits)
  then have "distinct cs"
    using assms(1) by (auto simp: tables_inv_def split: option.splits)
  have tcs: "map_of (AList.update tpc (set_add ws cs) tcs) = (map_of (topicClients s))(tpc \<mapsto> set_add ws cs)"
    using assms(4) by (simp add: update_conv' fun_eq_iff)
  have sub: "ws' \<in> set cs \<longleftrightarrow> ws_subscribed s ws' tpc" for ws'
    using assms(1) cs by (auto simp: tables_inv_def listed_def split: option.splits)
  have inv: "um_invar (clientTopics s)" "um_invar (topicClients s)" "\<And>w t. ws_subscribed s w t \<longleftrightarrow> listed s w t"
    "\<And>t c. map_of (topicClients s) t = Some c \<Longrightarrow> distinct c \<and> c \<noteq> [] \<and> length (utf8_encode t) < 2 ^ 16"
    using assms(1) by (simp_all add: tables_inv_def)
  let ?s = "s\<lparr>clientTopics := AList.update ws (set_add tpc ts) (clientTopics s),
      topicClients := AList.update tpc (set_add ws cs) tcs\<rparr>"
  have "ws_subscribed ?s w t \<longleftrightarrow> ws_subscribed s w t \<or> w = ws \<and> t = tpc" for w t
    using assms(2) by (auto simp: ws_subscribed_def update_conv')
  moreover have "listed ?s w t \<longleftrightarrow> listed s w t \<or> w = ws \<and> t = tpc" for w t
    using sub [of w] inv(3) by (auto simp: listed_def tcs)
  moreover have "um_invar (clientTopics ?s)" "um_invar (topicClients ?s)"
    using inv(1,2) assms(4) by (auto simp: um.invar_update)
  ultimately show ?thesis
    unfolding tables_inv_def using inv(3,4) \<open>distinct cs\<close> assms(3) by (auto simp: tcs)
qed

lemma map_of_cleanup_topic:
  "um_invar tcs \<Longrightarrow> map_of (cleanup_topic ws tpc tcs) t =
     (if t = tpc then (case map_of tcs t of None \<Rightarrow> None | Some cs \<Rightarrow>
        if removeAll ws cs = [] then None else Some (removeAll ws cs)) else map_of tcs t)"
  by (auto simp: cleanup_topic_def Let_def um.lookup_update um.lookup_delete split: option.split)

lemma um_invar_cleanup_topic: "um_invar tcs \<Longrightarrow> um_invar (cleanup_topic ws tpc tcs)"
  by (auto simp: cleanup_topic_def Let_def um.invar_update um.invar_delete split: option.split)

lemma fold_cleanup_topic:
  "um_invar tcs \<Longrightarrow> um_invar (fold (cleanup_topic ws) ts tcs) \<and>
     map_of (fold (cleanup_topic ws) ts tcs) t =
       (if t \<in> set ts then (case map_of tcs t of None \<Rightarrow> None | Some cs \<Rightarrow>
          if removeAll ws cs = [] then None else Some (removeAll ws cs)) else map_of tcs t)"
  by (induction ts arbitrary: tcs) (auto simp: um_invar_cleanup_topic map_of_cleanup_topic split: option.split)

lemma removeAll_eq_Nil: "removeAll x xs = [] \<longleftrightarrow> set xs \<subseteq> {x}"
  by (auto simp: removeAll_filter_not_eq filter_empty_conv)

lemma cleanup_tables:
  assumes "tables_inv s" "ts = (case map_of (clientTopics s) ws of None \<Rightarrow> [] | Some ts \<Rightarrow> ts)"
    and "s' = s\<lparr>topicClients := fold (cleanup_topic ws) ts (topicClients s), clientTopics := AList.delete ws (clientTopics s)\<rparr>"
  shows "tables_inv s'" "ws_subscribed s' w t \<longleftrightarrow> w \<noteq> ws \<and> ws_subscribed s w t"
proof -
  have inv: "um_invar (clientTopics s)" "um_invar (topicClients s)" "\<And>w t. ws_subscribed s w t \<longleftrightarrow> listed s w t"
    "\<And>t c. map_of (topicClients s) t = Some c \<Longrightarrow> distinct c \<and> c \<noteq> [] \<and> length (utf8_encode t) < 2 ^ 16"
    using assms(1) by (simp_all add: tables_inv_def)
  have tc: "um_invar (topicClients s')" "map_of (topicClients s') t = (if t \<in> set ts then (case map_of (topicClients s) t of
      None \<Rightarrow> None | Some cs \<Rightarrow> if removeAll ws cs = [] then None else Some (removeAll ws cs)) else map_of (topicClients s) t)" for t
    using fold_cleanup_topic [OF inv(2)] assms(3) by simp_all
  have mem: "t \<in> set ts \<longleftrightarrow> ws_subscribed s ws t" for t
    using assms(2) by (auto simp: ws_subscribed_def split: option.splits)
  have sub: "ws_subscribed s' w t \<longleftrightarrow> w \<noteq> ws \<and> ws_subscribed s w t" for w t
    using assms(3) by (auto simp: ws_subscribed_def um.lookup_delete [OF inv(1)])
  then show "ws_subscribed s' w t \<longleftrightarrow> w \<noteq> ws \<and> ws_subscribed s w t" .
  have "listed s' w t \<longleftrightarrow> w \<noteq> ws \<and> listed s w t" for w t
  proof (cases "t \<in> set ts")
    case True
    then show ?thesis by (auto simp: listed_def tc removeAll_eq_Nil split: option.splits if_splits)
  next
    case False
    with mem inv(3) have "\<not> listed s ws t" by simp
    with False show ?thesis by (auto simp: listed_def tc)
  qed
  moreover have "um_invar (clientTopics s')" using inv(1) assms(3) by (simp add: um.invar_delete)
  moreover have "distinct c \<and> c \<noteq> [] \<and> length (utf8_encode t) < 2 ^ 16" if "map_of (topicClients s') t = Some c" for t c
    using that inv(4) by (auto simp: tc distinct_removeAll split: if_splits option.splits)
  ultimately show "tables_inv s'"
    unfolding tables_inv_def using sub inv(3) tc(1) by simp
qed


section \<open>Steps of the gateway\<close>

inductive gateway_step :: "(js_string \<Rightarrow> json option) \<Rightarrow> (json \<Rightarrow> js_string) \<Rightarrow> (json \<Rightarrow> js_error + js_string) \<Rightarrow>
    Gateway \<Rightarrow> Gateway \<Rightarrow> bool" for json_parse stringify to_str where
  g_connection: "map_of (clientTopics (server g)) ws = None \<Longrightarrow> gateway_step json_parse stringify to_str g (on_connection ws g)"
| g_message: "handleMessage json_parse stringify to_str ws raw g = Inr g' \<Longrightarrow> gateway_step json_parse stringify to_str g g'"
| g_close: "gateway_step json_parse stringify to_str g (cleanupClient ws g)"
| g_data: "on_data chunk (tcp g) = (fs, c) \<Longrightarrow>
    gateway_step json_parse stringify to_str g (fold (on_tcp_frame json_parse is_open) fs (g\<lparr>tcp := c\<rparr>))"
| g_connect: "on_tcp_connect wss_clients is_open g = Inr g' \<Longrightarrow> gateway_step json_parse stringify to_str g g'"
| g_disconnect: "gateway_step json_parse stringify to_str g (on_tcp_disconnect wss_clients is_open g)"
| g_stats: "gateway_step json_parse stringify to_str g (on_stats_timer json_parse is_open stats g)"
| g_tcp: "gateway_step json_parse stringify to_str g (g\<lparr>tcp := c\<rparr>)"

inductive gateway_reachable :: "(js_string \<Rightarrow> json option) \<Rightarrow> (json \<Rightarrow> js_string) \<Rightarrow> (json \<Rightarrow> js_error + js_string) \<Rightarrow>
    Gateway \<Rightarrow> bool" for json_parse stringify to_str where
  g_start: "gateway_reachable json_parse stringify to_str \<lparr>tcp = new_client, server = new_ws_server, ws_out = []\<rparr>"
| g_next: "gateway_reachable json_parse stringify to_str g \<Longrightarrow> gateway_step json_parse stringify to_str g g' \<Longrightarrow>
    gateway_reachable json_parse stringify to_str g'"

definition gateway_inv :: "WsServer \<Rightarrow> bool" where
  "gateway_inv s \<longleftrightarrow> tables_inv s \<and> (\<exists>ids. id_ring s ids)"

lemma gateway_inv_cong:
  "gateway_inv s \<Longrightarrow> clientTopics s' = clientTopics s \<Longrightarrow> topicClients s' = topicClients s \<Longrightarrow>
   recentMsgIds s' = recentMsgIds s \<Longrightarrow> recentMsgIdRing s' = recentMsgIdRing s \<Longrightarrow> ringIndex s' = ringIndex s \<Longrightarrow>
   ringCount s' = ringCount s \<Longrightarrow> gateway_inv s'"
  by (simp add: gateway_inv_def tables_inv_def id_ring_def ws_subscribed_def listed_def)

lemma tables_inv_cong:
  "clientTopics s' = clientTopics s \<Longrightarrow> topicClients s' = topicClients s \<Longrightarrow> tables_inv s' = tables_inv s"
  by (simp add: tables_inv_def ws_subscribed_def listed_def)

lemma id_ring_cong:
  "recentMsgIds s' = recentMsgIds s \<Longrightarrow> recentMsgIdRing s' = recentMsgIdRing s \<Longrightarrow> ringIndex s' = ringIndex s \<Longrightarrow>
   ringCount s' = ringCount s \<Longrightarrow> id_ring s' = id_ring s"
  by (simp add: id_ring_def fun_eq_iff)

lemma remember_tables:
  "remember x s = Some s' \<Longrightarrow> clientTopics s' = clientTopics s \<and> topicClients s' = topicClients s"
  by (auto simp: remember_def Let_def split: if_splits)

lemma remember_inv: "gateway_inv s \<Longrightarrow> remember x s = Some s' \<Longrightarrow> gateway_inv s'"
proof -
  assume a: "gateway_inv s" "remember x s = Some s'"
  then obtain ids where "id_ring s ids" by (auto simp: gateway_inv_def)
  with a(2) have "\<exists>ids. id_ring s' ids"
    using recent.note_known [of s ids x] recent.note_new [of s ids x] by fastforce
  with a show ?thesis
    using tables_inv_cong [of s' s] remember_tables [OF a(2)] by (simp add: gateway_inv_def)
qed

lemma dispatchEvent_inv: "gateway_inv (server g) \<Longrightarrow> gateway_inv (server (dispatchEvent json_parse is_open tpc mid bdy g))"
  by (auto simp: dispatchEvent_def Let_def dest: remember_inv split: option.split)

lemma on_tcp_frame_inv: "gateway_inv (server g) \<Longrightarrow> gateway_inv (server (on_tcp_frame json_parse is_open f g))"
proof -
  assume "gateway_inv (server g)"
  then have "gateway_inv ((server g)\<lparr>msgCount := n\<rparr>)" for n by (rule gateway_inv_cong) simp_all
  with \<open>gateway_inv (server g)\<close> show ?thesis
    by (auto simp: on_tcp_frame_def Let_def split: prod.split intro!: dispatchEvent_inv)
qed

lemma subscribe_ws_inv:
  assumes "gateway_inv (server g)" "subscribe_ws ws tpc grp g = Inr g'"
  shows "gateway_inv (server g')"
proof (cases "map_of (clientTopics (server g)) ws")
  case (Some ts)
  with assms(2) have "length (utf8_encode tpc) < 2 ^ 16"
    by (auto simp: subscribe_ws_def Let_def encodeSubscribe_eq split: if_splits)
  from tables_inv_subscribe [OF _ Some this refl refl] assms Some show ?thesis
    using id_ring_cong [of "server g'" "server g"]
    by (auto simp: gateway_inv_def subscribe_ws_def Let_def encodeSubscribe_eq ws_send_def tcp_send_def id_ring_def split: if_splits)
qed (use assms in \<open>simp add: subscribe_ws_def\<close>)

lemma handleMessage_cases:
  assumes "handleMessage json_parse stringify to_str ws raw g = Inr g'"
  obtains "server g' = server g" | tpc grp where "subscribe_ws ws tpc grp g = Inr g'"
proof -
  have rb: "rbind m f = Inr y \<longleftrightarrow> (\<exists>x. m = Inr x \<and> f x = Inr y)" for m :: "js_error + 'x" and f :: "'x \<Rightarrow> js_error + 'y" and y
    by (cases m) auto
  have settle: "server h = server g" if "settle to_str ty i g = Inr h" for ty i h
    using that by (auto simp: settle_def rb tcp_send_def split: option.splits json.splits)
  from assms have "server g' = server g \<or> (\<exists>tpc grp. subscribe_ws ws tpc grp g = Inr g')"
    by (auto simp: handleMessage_def rb tcp_send_def ws_send_def Let_def split: option.splits if_splits dest: settle)
  with that show thesis by blast
qed

lemma cleanupClient_inv:
  assumes "gateway_inv (server g)"
  shows "gateway_inv (server (cleanupClient ws g))"
    "ws_subscribed (server (cleanupClient ws g)) w t \<longleftrightarrow> w \<noteq> ws \<and> ws_subscribed (server g) w t"
  using assms cleanup_tables(1) [OF _ refl refl, of "server g" ws] cleanup_tables(2) [OF _ refl refl, of "server g" ws w t]
  by (auto simp: gateway_inv_def cleanupClient_def Let_def id_ring_def)

lemma on_connection_inv:
  assumes "gateway_inv (server g)" "map_of (clientTopics (server g)) ws = None"
  shows "gateway_inv (server (on_connection ws g))"
proof -
  have "ws_subscribed (server (on_connection ws g)) = ws_subscribed (server g)"
    using assms(2) by (auto simp: ws_subscribed_def on_connection_def update_conv' fun_eq_iff)
  then show ?thesis
    using assms(1) by (auto simp: gateway_inv_def tables_inv_def on_connection_def um.invar_update listed_def id_ring_def)
qed

lemma gateway_step_inv:
  assumes "gateway_step json_parse stringify to_str g g'" "gateway_inv (server g)"
  shows "gateway_inv (server g')"
  using assms
proof cases
  case (g_message ws raw)
  from g_message show ?thesis
    by (rule handleMessage_cases) (use assms(2) subscribe_ws_inv in auto)
next
  case (g_data chunk fs c is_open)
  have "gateway_inv (server h) \<Longrightarrow> gateway_inv (server (fold (on_tcp_frame json_parse is_open) fs h))" for h
    by (induction fs arbitrary: h) (simp_all add: on_tcp_frame_inv)
  with g_data assms(2) show ?thesis by simp
next
  case (g_connect wss_clients is_open)
  then have "server g' = server g"
    by (cases "resubscriptions (map fst (topicClients (server g)))") (auto simp: on_tcp_connect_def broadcastStatus_def Let_def)
  with assms(2) show ?thesis by simp
next
  case (g_stats is_open stats)
  have "gateway_inv ((server g)\<lparr>msgCount := 0\<rparr>)" by (rule gateway_inv_cong [OF assms(2)]) simp_all
  with g_stats show ?thesis by (simp add: on_stats_timer_def dispatchEvent_inv)
qed (use assms(2) in \<open>auto simp: on_connection_inv cleanupClient_inv on_tcp_disconnect_def broadcastStatus_def\<close>)

lemma new_ws_server_inv: "gateway_inv new_ws_server"
proof -
  have "id_ring new_ws_server []" by (simp add: id_ring_def new_ws_server_def RING_SIZE_def)
  moreover have "tables_inv new_ws_server"
    by (simp add: tables_inv_def new_ws_server_def um_invar_def ws_subscribed_def listed_def)
  ultimately show ?thesis by (auto simp: gateway_inv_def)
qed

lemma gateway_reachable_inv: "gateway_reachable json_parse stringify to_str g \<Longrightarrow> gateway_inv (server g)"
  by (induction rule: gateway_reachable.induct) (auto simp: new_ws_server_inv intro: gateway_step_inv)


section \<open>Dispatching events\<close>

lemma count_deliveries_filter:
  "(\<forall>(p, cs) \<in> set tcs. distinct cs) \<Longrightarrow>
   count_list (concat (map (\<lambda>(p, cs). if topicMatches p tpc then filter is_open cs else []) tcs)) w =
     (if is_open w then length (filter (\<lambda>(p, cs). topicMatches p tpc \<and> w \<in> set cs) tcs) else 0)"
proof (induction tcs)
  case (Cons a tcs)
  obtain p cs where a: "a = (p, cs)" by (cases a)
  with Cons.prems have "count_list (filter is_open cs) w = (if is_open w \<and> w \<in> set cs then 1 else 0)"
    by (subst count_list_distinct) auto
  with Cons a show ?case by auto
qed simp

lemma count_deliveries:
  assumes "tables_inv s"
  shows "count_list (deliveries is_open tpc s) w = (if is_open w then card {p. ws_subscribed s w p \<and> topicMatches p tpc} else 0)"
proof -
  have d: "distinct (map fst (topicClients s))" "\<forall>(p, cs) \<in> set (topicClients s). distinct cs"
    using assms by (auto simp: tables_inv_def um_invar_def)
  let ?l = "filter (\<lambda>(p, cs). topicMatches p tpc \<and> w \<in> set cs) (topicClients s)"
  have "distinct (map fst ?l)" using d(1) by (rule distinct_map_filter)
  from distinct_card [OF this] have "length ?l = card (set (map fst ?l))" by (simp only: length_map)
  also have "set (map fst ?l) = {p. ws_subscribed s w p \<and> topicMatches p tpc}"
  proof -
    have "ws_subscribed s w p \<longleftrightarrow> (\<exists>cs. (p, cs) \<in> set (topicClients s) \<and> w \<in> set cs)" for p
      using assms d(1) by (simp add: tables_inv_def listed_def map_of_eq_Some_iff)
    then show ?thesis by (auto simp: image_iff)
  qed
  finally show ?thesis
    unfolding deliveries_def using count_deliveries_filter [OF d(2)] by simp
qed

lemma dispatchEvent_eq:
  "dispatchEvent json_parse is_open tpc mid bdy g =
     (case (if bypasses tpc then Some (server g) else remember (js (nat_digits mid)) (server g)) of
        None \<Rightarrow> g
      | Some s \<Rightarrow> g\<lparr>server := s, ws_out := ws_out g @ map (\<lambda>ws. (ws, WsEvent tpc (js (nat_digits mid))
          (case json_parse (utf8_decode bdy) of Some v \<Rightarrow> v | None \<Rightarrow> JStr (utf8_decode bdy)))) (deliveries is_open tpc (server g))\<rparr>)"
proof -
  have "deliveries is_open tpc s = deliveries is_open tpc (server g)" if "remember x (server g) = Some s" for x s
    using remember_tables [OF that] by (simp add: deliveries_def)
  then show ?thesis by (auto simp: dispatchEvent_def Let_def split: option.split)
qed

text \<open>Every frame notes at most one id.\<close>

lemma on_tcp_frame_note:
  "\<exists>s. server (on_tcp_frame json_parse is_open f g) = s \<and>
     (id_ring s = id_ring (server g) \<or> (\<exists>x s1. id_ring s1 = id_ring (server g) \<and> remember x s1 = Some s))"
proof -
  obtain ty mid payload where f: "f = (ty, mid, payload)" by (cases f)
  obtain tpc bdy where p: "decodeEventPayload payload = (tpc, bdy)" by fastforce
  have c: "id_ring ((server g)\<lparr>msgCount := n\<rparr>) = id_ring (server g)" for n
    by (rule id_ring_cong) simp_all
  then show ?thesis
    by (auto simp: on_tcp_frame_def f p Let_def dispatchEvent_eq split: option.split)
qed

lemma id_stays_known:
  assumes "id_ring (server g) (as @ x # bs)" "length bs + length fs < RING_SIZE"
  shows "\<exists>as' bs'. id_ring (server (fold (on_tcp_frame json_parse is_open) fs g)) (as' @ x # bs')"
  using assms
proof (induction fs arbitrary: g as bs)
  case (Cons f fs)
  let ?g = "on_tcp_frame json_parse is_open f g"
  have "\<exists>as' bs'. id_ring (server ?g) (as' @ x # bs') \<and> length bs' \<le> length bs + 1"
  proof -
    consider "id_ring (server ?g) = id_ring (server g)"
      | y s1 where "id_ring s1 = id_ring (server g)" "remember y s1 = Some (server ?g)"
      using on_tcp_frame_note [of json_parse is_open f g] by blast
    then show ?thesis
    proof cases
      case 1
      then show ?thesis using Cons.prems(1) by (intro exI [of _ as] exI [of _ bs]) simp
    next
      case (2 y s1)
      then show ?thesis using recent.still_known [of s1 as x bs y "server ?g"] Cons.prems by simp
    qed
  qed
  then obtain as' bs' where "id_ring (server ?g) (as' @ x # bs')" "length bs' \<le> length bs + 1" by blast
  with Cons.IH [of ?g as' bs'] Cons.prems(2) show ?case by simp
qed auto

text \<open>An event frame of the broker, as the client emits it.\<close>

definition event_frame :: "u64 \<Rightarrow> js_string \<Rightarrow> bytes \<Rightarrow> js_frame" where
  "event_frame mid tpc bdy = emitted (EVENT_DATA, mid, be_bytes 2 (length (utf8_encode tpc)) @ utf8_encode tpc @ bdy)"

definition bump :: "Gateway \<Rightarrow> Gateway" where
  "bump g = g\<lparr>server := (server g)\<lparr>msgCount := msgCount (server g) + 1\<rparr>\<rparr>"

lemma on_tcp_frame_event:
  assumes "well_formed tpc" "length (utf8_encode tpc) < 2 ^ 16"
  shows "on_tcp_frame json_parse is_open (event_frame mid tpc bdy) g =
    dispatchEvent json_parse is_open tpc (unat mid) bdy (bump g)"
  using decodeEventPayload_wire [OF assms(2,1), of bdy]
  by (simp add: on_tcp_frame_def event_frame_def Js_EVENT_DATA_def bump_def)

lemma event_frame_bytes:
  assumes "length (utf8_encode tpc) < 2 ^ 16" "2 + length (utf8_encode tpc) + length bdy < 2 ^ 32"
  shows "encode_frame EVENT_DATA mid (broker_string tpc) bdy =
      frame_bytes (EVENT_DATA, mid, be_bytes 2 (length (utf8_encode tpc)) @ utf8_encode tpc @ bdy)"
    and "frame_ok (EVENT_DATA, mid, be_bytes 2 (length (utf8_encode tpc)) @ utf8_encode tpc @ bdy)"
  using frame_bytes_encode_frame [of "broker_string tpc" bdy EVENT_DATA mid] assms by simp_all

text \<open>The frames the client emits for a stream of event frames, however it is cut.\<close>

lemma receive_events:
  assumes "live c" and "readBuf c = []"
    and "\<forall>(mid, tpc, bdy) \<in> set evs. well_formed tpc \<and> length (utf8_encode tpc) < 2 ^ 16 \<and>
      2 + length (utf8_encode tpc) + length bdy < 2 ^ 32"
    and "concat (chunk # chunks) = concat (map (\<lambda>(mid, tpc, bdy). encode_frame EVENT_DATA mid (broker_string tpc) bdy) evs)"
  shows "fst (receive (chunk # chunks) c) = map (\<lambda>(mid, tpc, bdy). event_frame mid tpc bdy) evs"
proof -
  let ?f = "\<lambda>(mid, tpc, bdy). (EVENT_DATA, mid, be_bytes 2 (length (utf8_encode tpc)) @ utf8_encode tpc @ bdy)"
  have f: "\<forall>f \<in> set (map ?f evs). frame_ok f"
    "concat (map frame_bytes (map ?f evs)) = concat (map (\<lambda>(mid, tpc, bdy). encode_frame EVENT_DATA mid (broker_string tpc) bdy) evs)"
    using assms(3) event_frame_bytes by (fastforce simp del: frame_bytes.simps frame_ok.simps intro!: arg_cong [of _ _ concat])+
  obtain fs c' where r: "receive (chunk # chunks) c = (fs, c')" by fastforce
  have "js_next_frame [] = NeedMore" by (simp add: js_next_frame_def JS_HEADER_SIZE_def)
  then have "js_drain [] (map emitted (map ?f evs)) = Done (Open [] (map emitted (map ?f evs)))"
    using gw.drain_eq [of "[]"] by simp
  then have "fs = map emitted (map ?f evs)"
    using receive_drain [OF assms(1) r, of "[]"] js_drain_frames [OF f(1), of "[]" "[]"] f(2) assms(2,4)
    by (auto split: if_splits simp del: emitted.simps)
  then show ?thesis
    by (simp add: r event_frame_def case_prod_unfold o_def del: receive.simps)
qed

text \<open>The first event under an id is noted, and from then on dropped.\<close>

lemma id_ring_bump [simp]: "id_ring (server (bump g)) = id_ring (server g)"
  by (rule id_ring_cong) (simp_all add: bump_def)

lemma accepted_event_known:
  assumes "gateway_inv (server g)" "well_formed tpc" "length (utf8_encode tpc) < 2 ^ 16" "\<not> bypasses tpc"
    and "js (nat_digits (unat mid)) \<notin> recentMsgIds (server g)"
  shows "\<exists>as. id_ring (server (on_tcp_frame json_parse is_open (event_frame mid tpc bdy) g)) (as @ [js (nat_digits (unat mid))])"
proof -
  let ?x = "js (nat_digits (unat mid))"
  obtain ids where ids: "id_ring (server g) ids" "?x \<notin> set ids"
    using assms(1,5) by (auto simp: gateway_inv_def id_ring_def)
  then obtain s where "remember ?x (server (bump g)) = Some s" "id_ring s (drop (Suc (length ids) - RING_SIZE) (ids @ [?x]))"
    using recent.note_new [of "server (bump g)" ids ?x] by auto
  moreover have "drop (Suc (length ids) - RING_SIZE) (ids @ [?x]) = drop (Suc (length ids) - RING_SIZE) ids @ [?x]"
    by (simp add: RING_SIZE_def)
  ultimately have "id_ring (server (on_tcp_frame json_parse is_open (event_frame mid tpc bdy) g))
      (drop (Suc (length ids) - RING_SIZE) ids @ [?x])"
    using assms(4) by (simp add: on_tcp_frame_event [OF assms(2,3)] dispatchEvent_eq)
  then show ?thesis ..
qed

lemma known_event_dropped:
  assumes "well_formed tpc" "length (utf8_encode tpc) < 2 ^ 16" "\<not> bypasses tpc"
    and "id_ring (server g) (as @ js (nat_digits (unat mid)) # bs)"
  shows "on_tcp_frame json_parse is_open (event_frame mid tpc bdy) g = bump g"
proof -
  have "remember (js (nat_digits (unat mid))) (server (bump g)) = None"
    by (rule recent.note_known [of _ "as @ js (nat_digits (unat mid)) # bs"]) (simp_all add: assms(4))
  then show ?thesis using assms(3) by (simp add: on_tcp_frame_event [OF assms(1,2)] dispatchEvent_eq)
qed

lemma type_literals [simp]:
  "js ''publish'' \<noteq> js ''subscribe''" "js ''ack'' \<noteq> js ''subscribe''" "js ''ack'' \<noteq> js ''publish''"
  "js ''nack'' \<noteq> js ''subscribe''" "js ''nack'' \<noteq> js ''publish''" "js ''nack'' \<noteq> js ''ack''"
  by (simp_all add: js_def)

lemma encodeAck_literals:
  "encodeAck Js_ACK i = (if 0 \<le> i \<and> i < 2 ^ 64 then Inr (encode_ack_frame ACK (of_int i)) else Inl RangeError)"
  "encodeAck Js_NACK i = (if 0 \<le> i \<and> i < 2 ^ 64 then Inr (encode_ack_frame NACK (of_int i)) else Inl RangeError)"
  using encodeAck_eq [of ACK i] encodeAck_eq [of NACK i] by (simp_all add: Js_ACK_def Js_NACK_def)

lemma encode_publish_literal:
  "encodeDataFrame stringify Js_PUBLISH tpc (Val v) 0 =
     (if length (utf8_encode tpc) < 2 ^ 16 \<and> 2 + length (utf8_encode tpc) + length (utf8_encode (stringify v)) < 2 ^ 32
      then Inr (encode_frame PUBLISH 0 (broker_string tpc) (utf8_encode (stringify v))) else Inl RangeError)"
  using encodeDataFrame_eq [of stringify PUBLISH tpc "Val v" 0] by (simp add: Js_PUBLISH_def Let_def)

lemma handleMessage_publish:
  assumes "json_parse (utf8_decode raw) = Some msg" "get_prop msg ''type'' = Inr (Some (JStr (js ''publish'')))"
    and "get_prop msg ''topic'' = Inr (Some (JStr t))" "t \<noteq> []" "get_prop msg ''body'' = Inr (Some v)" "v \<noteq> JNull"
  shows "handleMessage json_parse stringify to_str ws raw g =
    (if length (utf8_encode t) < 2 ^ 16 \<and> 2 + length (utf8_encode t) + length (utf8_encode (stringify v)) < 2 ^ 32
     then Inr (tcp_send (encode_frame PUBLISH 0 (broker_string t) (utf8_encode (stringify v))) g) else Inl RangeError)"
proof -
  have "(case Some v of None \<Rightarrow> JObj [] | Some JNull \<Rightarrow> JObj [] | Some w \<Rightarrow> w) = v" using assms(6) by (cases v) simp_all
  with assms show ?thesis by (simp add: handleMessage_def Let_def encode_publish_literal)
qed

lemma resubscriptions_eq:
  "\<forall>t \<in> set ts. length (utf8_encode t) < 2 ^ 16 \<Longrightarrow>
   resubscriptions ts = Inr (map (\<lambda>t. encode_subscribe_frame (broker_string t) [] 0) ts)"
  by (induction ts) (simp_all add: encodeSubscribe_eq, simp_all add: broker_string_def utf8_encode_def)


section \<open>Properties\<close>

text \<open>
  C26: the tables of the gateway are consistent. In every state it reaches, whatever its clients
  and the broker send, a client is listed under a topic exactly when the topic is in the
  client's set, no set is empty, and the idempotency check holds at most 50,000 ids, as many
  as it counts; when a client closes, exactly its entries disappear.
\<close>

theorem gateway_tables_consistent:
  assumes "gateway_reachable json_parse stringify to_str g"
  shows "(\<forall>w t. ws_subscribed (server g) w t \<longleftrightarrow> listed (server g) w t) \<and>
    (\<forall>t cs. map_of (topicClients (server g)) t = Some cs \<longrightarrow> distinct cs \<and> cs \<noteq> []) \<and>
    card (recentMsgIds (server g)) = ringCount (server g) \<and> ringCount (server g) \<le> 50000 \<and>
    (\<forall>w t. listed (server (cleanupClient ws g)) w t \<longleftrightarrow> w \<noteq> ws \<and> listed (server g) w t)"
proof -
  have inv: "gateway_inv (server g)" by (rule gateway_reachable_inv [OF assms])
  from cleanupClient_inv [OF this, of ws] have "listed (server (cleanupClient ws g)) w t \<longleftrightarrow> w \<noteq> ws \<and> listed (server g) w t" for w t
    using inv by (auto simp: gateway_inv_def tables_inv_def)
  with inv show ?thesis
    by (auto simp: gateway_inv_def tables_inv_def id_ring_def RING_SIZE_def distinct_card)
qed

text \<open>The witnesses start from a gateway with one client, number 1, subscribed to \<open>order.*\<close>, whose
  requests are all the same.\<close>

definition subscribe_request :: "js_string \<Rightarrow> json option" where
  "subscribe_request text = (if text = [] then None
     else Some (JObj [(js ''type'', JStr (js ''subscribe'')), (js ''topic'', JStr (js ''order.*''))]))"

definition no_text :: "json \<Rightarrow> js_error + js_string" where "no_text _ = Inl TypeError"

definition started_gateway :: Gateway where
  "started_gateway = \<lparr>tcp = new_client, server = new_ws_server, ws_out = []\<rparr>"

definition subscribed_gateway :: Gateway where
  "subscribed_gateway = (case subscribe_ws 1 (js ''order.*'') [] (on_connection 1 started_gateway) of
     Inl e \<Rightarrow> started_gateway | Inr g \<Rightarrow> g)"

lemma started_gateway_reachable: "gateway_reachable json_parse stringify to_str started_gateway"
  unfolding started_gateway_def by (rule g_start)

lemma started_client_reachable: "gateway_reachable json_parse stringify to_str (on_connection 1 started_gateway)"
  by (rule g_next [OF started_gateway_reachable], rule g_connection) (simp add: started_gateway_def new_ws_server_def)

lemma subscribe_started:
  "\<exists>frame. subscribe_ws 1 (js ''order.*'') [] (on_connection 1 started_gateway) =
     Inr (ws_send 1 (WsSubscribed (js ''order.*'') []) (tcp_send frame (started_gateway\<lparr>server := new_ws_server\<lparr>
       clientTopics := [(1, [js ''order.*''])], topicClients := [(js ''order.*'', [1])]\<rparr>\<rparr>)))"
proof -
  have "length (utf8_encode (js ''order.*'')) < 2 ^ 16" "length (utf8_encode []) < 2 ^ 16"
    by (subst utf8_encode_js) (simp_all add: utf8_encode_def)
  then show ?thesis
    by (intro exI [of _ "encode_subscribe_frame (broker_string (js ''order.*'')) (broker_string []) 0"])
      (simp add: subscribe_ws_def on_connection_def started_gateway_def new_ws_server_def Let_def set_add_def encodeSubscribe_eq)
qed

lemma subscribed_gateway_tables: "server subscribed_gateway = new_ws_server\<lparr>clientTopics := [(1, [js ''order.*''])],
    topicClients := [(js ''order.*'', [1])]\<rparr>" "recentMsgIds (server subscribed_gateway) = {}"
  using subscribe_started by (auto simp: subscribed_gateway_def ws_send_def tcp_send_def new_ws_server_def)

definition subscribe_object :: json where
  "subscribe_object = JObj [(js ''type'', JStr (js ''subscribe'')), (js ''topic'', JStr (js ''order.*''))]"

lemma utf8_decode_A: "utf8_decode [0x41] \<noteq> []"
  by (simp add: utf8_decode_def utf8_lead_def string_of_points_def)

lemma subscribed_gateway_reachable_by:
  assumes "json_parse (utf8_decode [0x41]) = Some subscribe_object"
  shows "gateway_reachable json_parse stringify no_text subscribed_gateway"
proof (rule g_next [OF started_client_reachable], rule g_message)
  have k: "js ''topic'' \<noteq> js ''type''" "js ''group'' \<noteq> js ''type''" "js ''group'' \<noteq> js ''topic''"
    by (simp_all add: js_def)
  have "js ''order.*'' \<noteq> []" by (simp add: js_def)
  then show "handleMessage json_parse stringify no_text 1 [0x41] (on_connection 1 started_gateway) = Inr subscribed_gateway"
    using subscribe_started k assms by (auto simp: handleMessage_def subscribe_object_def subscribed_gateway_def)
qed

lemma subscribed_gateway_reachable: "gateway_reachable subscribe_request stringify no_text subscribed_gateway"
  by (rule subscribed_gateway_reachable_by) (simp add: subscribe_request_def subscribe_object_def utf8_decode_A)

theorem gateway_tables_consistent_witness:
  "ringCount (server subscribed_gateway) \<le> 50000 \<and> \<not> listed (server (cleanupClient 1 subscribed_gateway)) 1 (js ''order.*'')"
proof -
  show ?thesis
    using gateway_tables_consistent [OF subscribed_gateway_reachable, of 1] by blast
qed

text \<open>
  The ring of message ids implements a window of the last 50,000 accepted ids. An id in the
  window is refused; any other id is accepted, becomes the newest, and pushes out the oldest
  one exactly when the window is full.
\<close>

theorem idempotency_window:
  assumes "id_ring s ids"
  shows "(remember x s = None \<longleftrightarrow> x \<in> set ids) \<and>
    (\<forall>s'. remember x s = Some s' \<longrightarrow> id_ring s' (drop (Suc (length ids) - RING_SIZE) (ids @ [x])))"
proof (cases "x \<in> set ids")
  case True
  then show ?thesis using recent.note_known [OF assms] by simp
next
  case False
  then show ?thesis using recent.note_new [OF assms] by fastforce
qed

theorem idempotency_window_witness:
  "remember (js ''7'') new_ws_server \<noteq> None"
proof -
  have "id_ring new_ws_server []" by (simp add: id_ring_def new_ws_server_def RING_SIZE_def)
  from idempotency_window [OF this, of "js ''7''"] show ?thesis by simp
qed

text \<open>
  A new event goes to exactly the open clients with a matching subscription. It is sent to
  a client once per matching pattern of that client, so a client with overlapping patterns
  gets it several times; the message carries the topic, the id in decimal and the body,
  parsed as JSON or as text.
\<close>

theorem event_dispatch_exact:
  assumes "gateway_reachable json_parse stringify to_str g"
    and "bypasses tpc \<or> js (nat_digits mid) \<notin> recentMsgIds (server g)"
  shows "\<exists>receivers. ws_out (dispatchEvent json_parse is_open tpc mid bdy g) = ws_out g @ map (\<lambda>w. (w, WsEvent tpc (js (nat_digits mid))
      (case json_parse (utf8_decode bdy) of Some v \<Rightarrow> v | None \<Rightarrow> JStr (utf8_decode bdy)))) receivers \<and>
    (\<forall>w. count_list receivers w = (if is_open w then card {p. ws_subscribed (server g) w p \<and> topicMatches p tpc} else 0))"
proof -
  have inv: "tables_inv (server g)" "\<exists>ids. id_ring (server g) ids"
    using gateway_reachable_inv [OF assms(1)] by (simp_all add: gateway_inv_def)
  obtain s where "(if bypasses tpc then Some (server g) else remember (js (nat_digits mid)) (server g)) = Some s"
    using assms(2) by (cases "bypasses tpc") (simp_all add: remember_def Let_def)
  then show ?thesis
    by (intro exI [of _ "deliveries is_open tpc (server g)"]) (simp add: dispatchEvent_eq count_deliveries [OF inv(1)])
qed

theorem event_dispatch_exact_witness:
  "(1, WsEvent (js ''order.created'') (js (nat_digits 7)) (JStr (utf8_decode [])))
     \<in> set (ws_out (dispatchEvent subscribe_request (\<lambda>_. True) (js ''order.created'') 7 [] subscribed_gateway))"
proof -
  have "ws_subscribed (server subscribed_gateway) 1 p \<longleftrightarrow> p = js ''order.*''" for p
    by (simp add: ws_subscribed_def subscribed_gateway_tables)
  moreover have "topicMatches (js ''order.*'') (js ''order.created'')"
    by (simp add: topicMatches_def ends_with_def starts_with_def js_def)
  ultimately have c: "{p. ws_subscribed (server subscribed_gateway) 1 p \<and> topicMatches p (js ''order.created'')} = {js ''order.*''}"
    by auto
  have "js (nat_digits 7) \<notin> recentMsgIds (server subscribed_gateway)"
    by (simp only: subscribed_gateway_tables(2)) simp
  with event_dispatch_exact [OF subscribed_gateway_reachable, of "js ''order.created''" 7 "\<lambda>_. True" "[]"]
  obtain receivers where r: "ws_out (dispatchEvent subscribe_request (\<lambda>_. True) (js ''order.created'') 7 [] subscribed_gateway) =
      ws_out subscribed_gateway @ map (\<lambda>w. (w, WsEvent (js ''order.created'') (js (nat_digits 7))
        (case subscribe_request (utf8_decode []) of Some v \<Rightarrow> v | None \<Rightarrow> JStr (utf8_decode [])))) receivers"
    "count_list receivers 1 = 1"
    using c by auto
  then have "1 \<in> set receivers" by (metis count_notin zero_neq_one)
  moreover have "subscribe_request (utf8_decode []) = None"
    by (simp add: subscribe_request_def utf8_decode_def string_of_points_def)
  ultimately show ?thesis by (simp add: r(1))
qed

text \<open>
  Retries do not pass the gateway. Once an event has been accepted, the same event from the
  broker is dropped for every client as long as it comes among the next 49,999 frames,
  whatever they are. The broker repeats a rejected or expired delivery under its old id, so
  the clients behind the gateway never see the repetition.
\<close>

theorem redelivered_event_is_dropped:
  assumes "gateway_reachable json_parse stringify to_str g" and "well_formed tpc" and "length (utf8_encode tpc) < 2 ^ 16"
    and "\<not> bypasses tpc" and "js (nat_digits (unat mid)) \<notin> recentMsgIds (server g)" and "length fs < RING_SIZE"
    and "g' = fold (on_tcp_frame json_parse is_open) fs (on_tcp_frame json_parse is_open (event_frame mid tpc bdy) g)"
  shows "ws_out (on_tcp_frame json_parse is_open (event_frame mid tpc bdy) g') = ws_out g'"
proof -
  obtain as where "id_ring (server (on_tcp_frame json_parse is_open (event_frame mid tpc bdy) g)) (as @ js (nat_digits (unat mid)) # [])"
    using accepted_event_known [OF gateway_reachable_inv [OF assms(1)] assms(2-5)] by blast
  from id_stays_known [OF this, of fs json_parse is_open] assms(6,7)
  obtain as' bs where "id_ring (server g') (as' @ js (nat_digits (unat mid)) # bs)" by auto
  from known_event_dropped [OF assms(2-4) this] show ?thesis by (simp add: bump_def)
qed

theorem redelivered_event_is_dropped_witness:
  "ws_out (on_tcp_frame subscribe_request (\<lambda>_. True) (event_frame 7 (js ''a'') [])
     (on_tcp_frame subscribe_request (\<lambda>_. True) (event_frame 7 (js ''a'') []) started_gateway)) =
   ws_out (on_tcp_frame subscribe_request (\<lambda>_. True) (event_frame 7 (js ''a'') []) started_gateway)"
proof -
  have "length (utf8_encode (js ''a'')) < 2 ^ 16" by (subst utf8_encode_js) simp_all
  moreover have "\<not> bypasses (js ''a'')" by (simp add: bypasses_def starts_with_def js_def)
  moreover have "js (nat_digits (unat (7 :: u64))) \<notin> recentMsgIds (server started_gateway)"
    by (simp add: started_gateway_def new_ws_server_def)
  ultimately show ?thesis
    using redelivered_event_is_dropped [OF started_gateway_reachable well_formed_js, of "''a''" 7 "[]"]
    by (simp add: RING_SIZE_def)
qed



text \<open>
  A reconnection forgets the groups. When the gateway connects to the broker again, it
  subscribes to every topic in its table, without a group, whatever group the clients had
  asked for, and only then sends the frames that had been queued; the broker decodes each of
  these frames as a subscription without a group, that is, a private one.
\<close>

theorem reconnection_forgets_groups:
  assumes "gateway_reachable json_parse stringify to_str g"
    and "socket (tcp g) = Some s" and "idle_socket s" and "\<not> corkTimer (tcp g)" and "ticks (tcp g) = 0"
  shows "\<exists>g'. on_tcp_connect wss_clients is_open g = Inr g' \<and>
    (\<exists>s'. socket (run_ticks (tcp g')) = Some s' \<and> passed_on s' = passed_on s @
      concat (map (\<lambda>t. encode_subscribe_frame (broker_string t) [] 0) (map fst (topicClients (server g)))) @ concat (outQueue (tcp g))) \<and>
    (\<forall>t \<in> set (map fst (topicClients (server g))).
      decode_subscribe (drop HEADER_SIZE (encode_subscribe_frame (broker_string t) [] 0)) = Done \<lparr>sub_topic = broker_string t, sub_group = []\<rparr>)"
proof -
  let ?ts = "map fst (topicClients (server g))"
  have len: "\<forall>t \<in> set ?ts. length (utf8_encode t) < 2 ^ 16"
    using gateway_reachable_inv [OF assms(1)]
    by (auto simp: gateway_inv_def tables_inv_def um_invar_def dest!: map_of_is_SomeI [rotated])
  have "decode_subscribe (drop HEADER_SIZE (encode_subscribe_frame (broker_string t) [] 0)) =
      Done \<lparr>sub_topic = broker_string t, sub_group = []\<rparr>" if "t \<in> set ?ts" for t
    using bspec [OF len that] decode_subscribe_wire [of "broker_string t" "[]"] by (simp add: encode_subscribe_frame_layout HEADER_SIZE_def)
  moreover have "on_tcp_connect wss_clients is_open g =
      Inr ((broadcastStatus wss_clients is_open (js ''connected'') g)\<lparr>tcp := on_connect
        (map (\<lambda>t. encode_subscribe_frame (broker_string t) [] 0) ?ts) (tcp g)\<rparr>)"
    using resubscriptions_eq [OF len] by (simp add: on_tcp_connect_def broadcastStatus_def Let_def)
  moreover note on_connect_turn [OF assms(2,4,5,3), of "map (\<lambda>t. encode_subscribe_frame (broker_string t) [] 0) ?ts"]
  ultimately show ?thesis by simp
qed

theorem reconnection_forgets_groups_witness:
  "\<exists>g' s'. on_tcp_connect [] (\<lambda>_. True) (subscribed_gateway\<lparr>tcp := connect new_client\<rparr>) = Inr g' \<and>
     socket (run_ticks (tcp g')) = Some s' \<and> passed_on s' = encode_subscribe_frame ''order.*'' [] 0"
proof -
  let ?g = "subscribed_gateway\<lparr>tcp := connect new_client\<rparr>"
  have "gateway_reachable subscribe_request (\<lambda>_. []) no_text ?g"
    by (rule g_next [OF subscribed_gateway_reachable g_tcp])
  from reconnection_forgets_groups [OF this, of new_socket "[]" "\<lambda>_. True"] show ?thesis
    by (auto simp: connect_def new_client_def idle_socket_def new_socket_def subscribed_gateway_tables(1) new_ws_server_def broker_string_js)
qed

text \<open>
  From the broker's socket to the WebSocket clients. When the bytes of any number of event
  frames built by the broker arrive over a fresh connection, in any fragmentation, the gateway
  dispatches each event once, in order, under its topic, id and body.
\<close>

theorem broker_events_are_dispatched:
  assumes "live c" and "readBuf c = []"
    and "\<forall>(mid, tpc, bdy) \<in> set evs. well_formed tpc \<and> length (utf8_encode tpc) < 2 ^ 16 \<and>
      2 + length (utf8_encode tpc) + length bdy < 2 ^ 32"
    and "concat (chunk # chunks) = concat (map (\<lambda>(mid, tpc, bdy). encode_frame EVENT_DATA mid (broker_string tpc) bdy) evs)"
  shows "fold (on_tcp_frame json_parse is_open) (fst (receive (chunk # chunks) c)) g =
    fold (\<lambda>(mid, tpc, bdy) h. dispatchEvent json_parse is_open tpc (unat mid) bdy
      (h\<lparr>server := (server h)\<lparr>msgCount := msgCount (server h) + 1\<rparr>\<rparr>)) evs g"
proof -
  have "fst (receive (chunk # chunks) c) = map (\<lambda>(mid, tpc, bdy). event_frame mid tpc bdy) evs"
    by (rule receive_events [OF assms])
  moreover have "fold (on_tcp_frame json_parse is_open) (map (\<lambda>(mid, tpc, bdy). event_frame mid tpc bdy) evs) g =
      fold (\<lambda>(mid, tpc, bdy) h. dispatchEvent json_parse is_open tpc (unat mid) bdy (bump h)) evs g"
    using assms(3) by (induction evs arbitrary: g) (auto simp: on_tcp_frame_event)
  ultimately show ?thesis by (simp add: bump_def)
qed

theorem broker_events_are_dispatched_witness:
  "fold (on_tcp_frame subscribe_request (\<lambda>_. True)) (fst (receive
       [take 9 (encode_frame EVENT_DATA 7 ''a'' [1]), drop 9 (encode_frame EVENT_DATA 7 ''a'' [1])] connected_client)) started_gateway =
   dispatchEvent subscribe_request (\<lambda>_. True) (js ''a'') 7 [1] (started_gateway\<lparr>server := new_ws_server\<lparr>msgCount := 1\<rparr>\<rparr>)"
proof -
  have "utf8_encode (js ''a'') = bytes_of_string ''a''" by (rule utf8_encode_js) simp
  then have "length (utf8_encode (js ''a'')) = 1" by simp
  moreover have "broker_string (js ''a'') = ''a''" by (rule broker_string_js) simp
  ultimately show ?thesis
    using broker_events_are_dispatched [of connected_client "[(7, js ''a'', [1])]" "take 9 (encode_frame EVENT_DATA 7 ''a'' [1])"
        "[drop 9 (encode_frame EVENT_DATA 7 ''a'' [1])]" subscribe_request "\<lambda>_. True" started_gateway] well_formed_js
    by (simp add: connected_client_def new_client_def new_socket_def live_def started_gateway_def new_ws_server_def del: receive.simps)
qed

end
