(* ===== verification/MQ_System.thy ===== *)
theory MQ_System
  imports MQ_Running MQ_GatewayServer
begin

text \<open>
  Broker and gateways together: a publication from the request of one WebSocket client to the
  messages the others get, and what becomes of a delivery that a client behind a gateway rejects.
  There are no definitions of code here; the handlers of the two programs are composed over
  the bytes of the connections between them.
\<close>

section \<open>Event frames at a gateway\<close>

text \<open>The same event several times in a row has the effect of the first, apart from the count of messages.\<close>

lemma repeated_event_dropped:
  assumes "well_formed tpc" "length (utf8_encode tpc) < 2 ^ 16" "\<not> bypasses tpc"
    and "id_ring (server g) (as @ js (nat_digits (unat mid)) # bs)"
  shows "ws_out (fold (on_tcp_frame json_parse is_open) (replicate n (event_frame mid tpc bdy)) g) = ws_out g"
  using assms(4)
proof (induction n arbitrary: g)
  case (Suc n)
  have "on_tcp_frame json_parse is_open (event_frame mid tpc bdy) g = bump g"
    by (rule known_event_dropped [OF assms(1-3) Suc.prems])
  moreover have "ws_out (bump g) = ws_out g" by (simp add: bump_def)
  ultimately show ?case using Suc.IH [of "bump g"] Suc.prems by simp
qed simp

lemma replicated_event:
  assumes "gateway_inv (server g)" "well_formed tpc" "length (utf8_encode tpc) < 2 ^ 16" "\<not> bypasses tpc"
    and "js (nat_digits (unat mid)) \<notin> recentMsgIds (server g)" and "0 < n"
  shows "ws_out (fold (on_tcp_frame json_parse is_open) (replicate n (event_frame mid tpc bdy)) g) =
    ws_out g @ map (\<lambda>w. (w, WsEvent tpc (js (nat_digits (unat mid)))
      (case json_parse (utf8_decode bdy) of Some v \<Rightarrow> v | None \<Rightarrow> JStr (utf8_decode bdy)))) (deliveries is_open tpc (server g))"
proof -
  obtain k where n: "n = Suc k" using assms(6) by (cases n) simp_all
  let ?g1 = "on_tcp_frame json_parse is_open (event_frame mid tpc bdy) g"
  obtain as where "id_ring (server ?g1) (as @ js (nat_digits (unat mid)) # [])"
    using accepted_event_known [OF assms(1-5)] by blast
  from repeated_event_dropped [OF assms(2-4) this]
  have "ws_out (fold (on_tcp_frame json_parse is_open) (replicate n (event_frame mid tpc bdy)) g) = ws_out ?g1"
    by (simp add: n)
  moreover have "remember (js (nat_digits (unat mid))) (server (bump g)) \<noteq> None" "deliveries is_open tpc (server (bump g)) = deliveries is_open tpc (server g)"
    using assms(5) by (simp_all add: remember_def bump_def Let_def deliveries_def)
  ultimately show ?thesis
    using assms(4) by (auto simp: on_tcp_frame_event [OF assms(2,3)] dispatchEvent_eq bump_def)
qed


text \<open>Copies of an event that arrive over a connection, cut in any way, go once to the clients that want it.\<close>

lemma copies_reach_clients:
  assumes "gateway_reachable json_parse stringify to_str g" "live c" "readBuf c = []"
    and "js (nat_digits (unat mid)) \<notin> recentMsgIds (server g)"
    and "well_formed tpc" "\<not> bypasses tpc" "length (utf8_encode tpc) < 2 ^ 16" "2 + length (utf8_encode tpc) + length bdy < 2 ^ 32"
    and "0 < n" "concat (chunk # chunks) = concat (replicate n (encode_frame EVENT_DATA mid (broker_string tpc) bdy))"
  shows "\<exists>receivers. ws_out (fold (on_tcp_frame json_parse is_open) (fst (receive (chunk # chunks) c)) g) =
      ws_out g @ map (\<lambda>w. (w, WsEvent tpc (js (nat_digits (unat mid)))
        (case json_parse (utf8_decode bdy) of Some v \<Rightarrow> v | None \<Rightarrow> JStr (utf8_decode bdy)))) receivers \<and>
    (\<forall>w. count_list receivers w = (if is_open w then card {p. ws_subscribed (server g) w p \<and> topicMatches p tpc} else 0))"
proof -
  have "fst (receive (chunk # chunks) c) = replicate n (event_frame mid tpc bdy)"
    using receive_events [OF assms(2,3), of "replicate n (mid, tpc, bdy)"] assms(5,7,8,10) by simp
  moreover have inv: "gateway_inv (server g)" by (rule gateway_reachable_inv [OF assms(1)])
  moreover have "tables_inv (server g)" using inv by (simp add: gateway_inv_def)
  ultimately show ?thesis
    using replicated_event [OF inv assms(5,7,6,4,9)]
    by (intro exI [of _ "deliveries is_open tpc (server g)"]) (simp add: count_deliveries)
qed


section \<open>The broker between two connections\<close>

lemma publish_frame_bytes:
  assumes "length (utf8_encode t) < 2 ^ 16" "2 + length (utf8_encode t) + length bdy < 2 ^ 32"
  shows "encode_frame ty mid (broker_string t) bdy =
      frame_bytes (ty, mid, be_bytes 2 (length (broker_string t)) @ bytes_of_string (broker_string t) @ bdy)"
  using frame_bytes_encode_frame [of "broker_string t" bdy ty mid] assms by simp

text \<open>A PUBLISH frame that a connection thread reads into an empty queue: the message is logged and
  queued, and nothing stays in the read buffer.\<close>

lemma publish_read:
  assumes "utf8_encode t \<noteq> []" "length (utf8_encode t) < 2 ^ 16" "2 + length (utf8_encode t) + length bdy < 2 ^ 32"
    and "queue (main_queue (queues b)) = []" "0 < capacity (main_queue (queues b))"
    and "m = \<lparr>msg_id = next_id b, topic = broker_string t, body = bdy, retry_count = 0\<rparr>"
  shows "parse_frames (on_frame os_send now) cid (encode_frame PUBLISH 0 (broker_string t) bdy) b =
    Done (Open [] (b\<lparr>next_id := next_id b + 1, wal := append (wal b) m,
      queues := (queues b)\<lparr>main_queue := (main_queue (queues b))\<lparr>queue := [m]\<rparr>\<rparr>\<rparr>))"
proof -
  let ?p = "be_bytes 2 (length (broker_string t)) @ bytes_of_string (broker_string t) @ bdy"
  let ?b = "b\<lparr>next_id := next_id b + 1, wal := append (wal b) m, queues := (queues b)\<lparr>main_queue := (main_queue (queues b))\<lparr>queue := [m]\<rparr>\<rparr>\<rparr>"
  have "next_frame (frame_bytes (PUBLISH, 0, ?p) @ []) = Frame (PUBLISH, 0, ?p) []"
    using assms(2,3) by (intro next_frame_frame_bytes) simp
  then have f: "next_frame (encode_frame PUBLISH 0 (broker_string t) bdy) = Frame (PUBLISH, 0, ?p) []"
    by (simp only: publish_frame_bytes [OF assms(2,3)] append_Nil2)
  have "on_frame os_send now cid PUBLISH 0 ?p b = Done ?b"
    using assms on_frame_publish_wire [of "broker_string t" m 0 b bdy os_send now cid]
    by (simp add: push_main_eq counter_after_def enqueue_def)
  moreover have "parse_frames (on_frame os_send now) cid [] c = Done (Open [] c)" for c
    by (subst parse_frames_eq) (simp add: next_frame_def HEADER_SIZE_def)
  ultimately show ?thesis by (subst parse_frames_eq) (simp add: f)
qed

lemma dispatched_wire:
  assumes "broker_reachable b" "queue (main_queue (queues b)) = m # ms" "server_ptr b = Some s" "\<And>j. healthy (os_send j)"
    and "length (encode_frame EVENT_DATA (msg_id m) (topic m) (body m)) < 2 ^ 31" "map_of (clients s) c = Some c"
  shows "\<exists>s'. server_ptr (dispatcher_step os_send clock b) = Some s' \<and> wire s' c = wire s c @
    concat (replicate (count_list (map fst (fst (route (router b) m))) c) (encode_frame EVENT_DATA (msg_id m) (topic m) (body m)))"
proof -
  have "server_inv s" by (rule broker_inv_parts(4) [OF broker_reachable_inv [OF assms(1)] assms(3)])
  then show ?thesis
    using dispatch_targets_wire [where os_send = os_send and m = m and b = "b\<lparr>queues := (queues b)\<lparr>main_queue := (main_queue (queues b))\<lparr>queue := ms\<rparr>\<rparr>,
        router := snd (route (router b) m)\<rparr>" and s = s and clock = clock and k = 0 and
        ts = "fst (route (router b) m)"] assms(3-6)
    unfolding dispatcher_Cons [OF assms(2)] by auto
qed


section \<open>Properties\<close>

text \<open>
  C8: a publication travels through the whole system. A WebSocket client of one gateway sends a
  publish request; the gateway passes the PUBLISH frame on; the broker reads it, gives the
  message its next id, logs and queues it; the dispatcher sends the event to the connection of
  another gateway that the router chose, once per matching subscription; and however these
  bytes are cut on the way, that gateway sends its open clients the topic and the value that
  were published, once per matching pattern of the client and no more often because the broker
  sent it several times. (Printing a JSON value and parsing it again gives the value.)
\<close>

theorem publication_reaches_websocket_clients:
  assumes request: "json_parse (utf8_decode raw) = Some msg" "get_prop msg ''type'' = Inr (Some (JStr (js ''publish'')))"
      "get_prop msg ''topic'' = Inr (Some (JStr t))" "get_prop msg ''body'' = Inr (Some v)" "v \<noteq> JNull" "t \<noteq> []"
    and texts: "well_formed t" "\<not> bypasses t" "well_formed (stringify v)" "json_parse (stringify v) = Some v"
      "length (utf8_encode t) < 2 ^ 16" "19 + length (utf8_encode t) + length (utf8_encode (stringify v)) < 2 ^ 31"
    and publisher: "connected (tcp gp)" "socket (tcp gp) = Some sk" "\<not> corkTimer (tcp gp)" "ticks (tcp gp) = 0" "idle_socket sk"
    and broker: "broker_reachable b" "queue (main_queue (queues b)) = []" "0 < capacity (main_queue (queues b))"
      "server_ptr b = Some s" "map_of (clients s) cid = Some cid" "\<And>j. healthy (os_sends j)"
      "m = \<lparr>msg_id = next_id b, topic = broker_string t, body = utf8_encode (stringify v), retry_count = 0\<rparr>"
      "cid \<in> set (map fst (fst (route (router b) m)))"
    and subscriber: "gateway_reachable json_parse stringify to_str g" "live (tcp g)" "readBuf (tcp g) = []"
      "js (nat_digits (unat (next_id b))) \<notin> recentMsgIds (server g)"
  shows "\<exists>gp' f b1 s2 ev. handleMessage json_parse stringify to_str ws raw gp = Inr gp' \<and>
    socket (run_ticks (tcp gp')) = Some (sk\<lparr>passed_on := passed_on sk @ f\<rparr>) \<and>
    parse_frames (on_frame os_send now) pid f b = Done (Open [] b1) \<and>
    server_ptr (dispatcher_step os_sends clock b1) = Some s2 \<and> wire s2 cid = wire s cid @ ev \<and>
    (\<forall>chunk chunks. concat (chunk # chunks) = ev \<longrightarrow> (\<exists>receivers.
      ws_out (fold (on_tcp_frame json_parse is_open) (fst (receive (chunk # chunks) (tcp g))) g) =
        ws_out g @ map (\<lambda>w. (w, WsEvent t (js (nat_digits (unat (next_id b)))) v)) receivers \<and>
      (\<forall>w. count_list receivers w = (if is_open w then card {p. ws_subscribed (server g) w p \<and> topicMatches p t} else 0))))"
proof -
  let ?bdy = "utf8_encode (stringify v)"
  let ?f = "encode_frame PUBLISH 0 (broker_string t) ?bdy" and ?e = "encode_frame EVENT_DATA (next_id b) (broker_string t) ?bdy"
  let ?n = "count_list (map fst (fst (route (router b) m))) cid"
  let ?b1 = "b\<lparr>next_id := next_id b + 1, wal := append (wal b) m, queues := (queues b)\<lparr>main_queue := (main_queue (queues b))\<lparr>queue := [m]\<rparr>\<rparr>\<rparr>"
  have "utf8_decode [] = []" by (simp add: utf8_decode_def string_of_points_def)
  then have t: "utf8_encode t \<noteq> []" using utf8_round_trip [OF texts(1)] request(6) by force
  have len: "2 + length (utf8_encode t) + length ?bdy < 2 ^ 32" "length ?e < 2 ^ 31"
    using texts(5,6) by (simp_all add: length_encode_frame HEADER_SIZE_def)
  have n: "0 < ?n" using broker(8) by (metis count_list_0_iff gr0I)
  have "handleMessage json_parse stringify to_str ws raw gp = Inr (tcp_send ?f gp)"
    using handleMessage_publish [of json_parse raw msg t v] request texts(5) len(1) by simp
  moreover have "socket (run_ticks (tcp (tcp_send ?f gp))) = Some (sk\<lparr>passed_on := passed_on sk @ ?f\<rparr>)"
    using send_turn [OF publisher, of "[?f]"] by (simp add: tcp_send_def)
  moreover have read: "parse_frames (on_frame os_send now) pid ?f b = Done (Open [] ?b1)"
    by (rule publish_read [OF t texts(5) len(1) broker(2,3,7)])
  moreover have "broker_reachable ?b1"
    using reader.parse_frames_safe [OF broker(1), of os_send now pid ?f] by (simp add: read safe_outcome_def)
  then obtain s2 where "server_ptr (dispatcher_step os_sends clock ?b1) = Some s2"
    "wire s2 cid = wire s cid @ concat (replicate ?n ?e)"
    using dispatched_wire [of ?b1 m "[]" s os_sends cid clock] broker(4-7) len(2) by auto
  moreover have "\<exists>receivers. ws_out (fold (on_tcp_frame json_parse is_open) (fst (receive (chunk # chunks) (tcp g))) g) =
        ws_out g @ map (\<lambda>w. (w, WsEvent t (js (nat_digits (unat (next_id b)))) v)) receivers \<and>
      (\<forall>w. count_list receivers w = (if is_open w then card {p. ws_subscribed (server g) w p \<and> topicMatches p t} else 0))"
    if "concat (chunk # chunks) = concat (replicate ?n ?e)" for chunk chunks
    using copies_reach_clients [OF subscriber texts(1,2,5) len(1) n that] texts(3,4) by (simp add: utf8_round_trip)
  ultimately show ?thesis by blast
qed

text \<open>
  The smallest instance: a JSON parser that knows three texts, a publisher and a subscriber behind
  gateways connected to a broker whose connection 4 has subscribed to \<open>order.*\<close>.
\<close>

definition three_texts :: "js_string \<Rightarrow> json option" where
  "three_texts text = (if text = [] then Some (JObj [(js ''type'', JStr (js ''publish'')), (js ''topic'', JStr (js ''order.created'')),
       (js ''body'', JInt 1)])
     else if text = js ''1'' then Some (JInt 1) else Some subscribe_object)"

definition publishing_gateway :: Gateway where
  "publishing_gateway = started_gateway\<lparr>tcp := connected_client\<rparr>"

definition listening_gateway :: Gateway where
  "listening_gateway = subscribed_gateway\<lparr>tcp := connected_client\<rparr>"

lemma listening_gateway_reachable: "gateway_reachable three_texts stringify no_text listening_gateway"
proof -
  have "utf8_decode [0x41] \<noteq> js ''1''"
    by (simp add: utf8_decode_def utf8_lead_def string_of_points_def js_def)
  then have "gateway_reachable three_texts stringify no_text subscribed_gateway"
    using utf8_decode_A by (intro subscribed_gateway_reachable_by) (simp add: three_texts_def)
  then show ?thesis unfolding listening_gateway_def by (rule g_next [OF _ g_tcp])
qed

lemma order_created_js: "utf8_encode (js ''order.created'') = bytes_of_string ''order.created''"
    "broker_string (js ''order.created'') = ''order.created''" "\<not> bypasses (js ''order.created'')"
  by (rule utf8_encode_js, simp) (rule broker_string_js, simp, simp add: bypasses_def starts_with_def js_def)

lemma connected_client_live: "live connected_client" "readBuf connected_client = []" "connected connected_client"
    "socket connected_client = Some new_socket" "\<not> corkTimer connected_client" "ticks connected_client = 0" "idle_socket new_socket"
  by (simp_all add: live_def connected_client_def new_client_def idle_socket_def new_socket_def)

lemma order_request:
  "three_texts (utf8_decode []) = Some (JObj [(js ''type'', JStr (js ''publish'')), (js ''topic'', JStr (js ''order.created'')), (js ''body'', JInt 1)])"
  "js ''topic'' \<noteq> js ''type''" "js ''body'' \<noteq> js ''type''" "js ''body'' \<noteq> js ''topic''" "js ''order.created'' \<noteq> []" "js ''1'' \<noteq> []"
  by (simp_all add: three_texts_def utf8_decode_def string_of_points_def js_def)

lemma listening_gateway_state:
  "tcp listening_gateway = connected_client" "js (nat_digits i) \<notin> recentMsgIds (server listening_gateway)"
  "utf8_encode (js ''1'') = bytes_of_string ''1''"
proof -
  show "utf8_encode (js ''1'') = bytes_of_string ''1''" by (rule utf8_encode_js) simp
qed (simp_all add: listening_gateway_def subscribed_gateway_tables new_ws_server_def)

lemma subscribed_broker_idle:
  "queue (main_queue (queues subscribed_broker)) = []" "0 < capacity (main_queue (queues subscribed_broker))"
  "next_id subscribed_broker = 1"
  by (simp_all add: subscribed_broker_def started_def new_queue_def)

lemma subscribed_broker_target:
  "topic m = ''order.created'' \<Longrightarrow> 4 \<in> set (map fst (fst (route (router subscribed_broker) m)))"
  by (simp add: subscribed_broker_def subscribe_def new_router_def effective_group_def
      route_def matches_def route_group_def is_unique_group_def Let_def)

theorem publication_reaches_websocket_clients_witness:
  "\<exists>gp' f b1 s2. handleMessage three_texts (\<lambda>_. js ''1'') no_text 9 [] publishing_gateway = Inr gp' \<and>
    socket (run_ticks (tcp gp')) = Some (new_socket\<lparr>passed_on := f\<rparr>) \<and>
    parse_frames (on_frame (\<lambda>k len. len) 0) 5 f subscribed_broker = Done (Open [] b1) \<and>
    server_ptr (dispatcher_step (\<lambda>j k len. len) (\<lambda>j. 0) b1) = Some s2 \<and>
    (\<exists>receivers. ws_out (fold (on_tcp_frame three_texts (\<lambda>_. True)) (fst (receive [wire s2 4] connected_client)) listening_gateway) =
      ws_out listening_gateway @ map (\<lambda>w. (w, WsEvent (js ''order.created'') (js (nat_digits 1)) (JInt 1))) receivers)"
proof -
  let ?s = "(new_server 9099)\<lparr>listen_sock := 3, running := True, clients := [(4, 4)]\<rparr>"
  let ?m = "\<lparr>msg_id = next_id subscribed_broker, topic = broker_string (js ''order.created''), body = utf8_encode (js ''1''), retry_count = 0\<rparr>"
  let ?req = "JObj [(js ''type'', JStr (js ''publish'')), (js ''topic'', JStr (js ''order.created'')), (js ''body'', JInt 1)]"
  have b: "server_ptr subscribed_broker = Some ?s" "map_of (clients ?s) 4 = Some 4" "wire ?s 4 = []"
    by (simp_all add: subscribed_broker_def new_server_def)
  have target: "4 \<in> set (map fst (fst (route (router subscribed_broker) ?m)))"
    by (rule subscribed_broker_target) (simp add: order_created_js)
  have "\<exists>gp' f b1 s2 ev. handleMessage three_texts (\<lambda>_. js ''1'') no_text 9 [] publishing_gateway = Inr gp' \<and>
    socket (run_ticks (tcp gp')) = Some (new_socket\<lparr>passed_on := passed_on new_socket @ f\<rparr>) \<and>
    parse_frames (on_frame (\<lambda>k len. len) 0) 5 f subscribed_broker = Done (Open [] b1) \<and>
    server_ptr (dispatcher_step (\<lambda>j k len. len) (\<lambda>j. 0) b1) = Some s2 \<and> wire s2 4 = wire ?s 4 @ ev \<and>
    (\<forall>chunk chunks. concat (chunk # chunks) = ev \<longrightarrow> (\<exists>receivers.
      ws_out (fold (on_tcp_frame three_texts (\<lambda>_. True)) (fst (receive (chunk # chunks) (tcp listening_gateway))) listening_gateway) =
        ws_out listening_gateway @ map (\<lambda>w. (w, WsEvent (js ''order.created'') (js (nat_digits (unat (next_id subscribed_broker)))) (JInt 1))) receivers \<and>
      (\<forall>w. count_list receivers w =
        (if True then card {p. ws_subscribed (server listening_gateway) w p \<and> topicMatches p (js ''order.created'')} else 0))))"
    by (rule publication_reaches_websocket_clients [where msg = ?req and m = ?m])
      (use b subscribed_broker_idle target listening_gateway_state order_request in \<open>simp_all add: well_formed_js order_created_js connected_client_live publishing_gateway_def
        three_texts_def subscribed_broker_reachable listening_gateway_reachable healthy_def\<close>)
  then obtain gp' f b1 s2 ev where r: "handleMessage three_texts (\<lambda>_. js ''1'') no_text 9 [] publishing_gateway = Inr gp'"
    "socket (run_ticks (tcp gp')) = Some (new_socket\<lparr>passed_on := passed_on new_socket @ f\<rparr>)"
    "parse_frames (on_frame (\<lambda>k len. len) 0) 5 f subscribed_broker = Done (Open [] b1)"
    "server_ptr (dispatcher_step (\<lambda>j k len. len) (\<lambda>j. 0) b1) = Some s2" "wire s2 4 = ev"
    and d: "\<forall>chunk chunks. concat (chunk # chunks) = ev \<longrightarrow> (\<exists>receivers.
      ws_out (fold (on_tcp_frame three_texts (\<lambda>_. True)) (fst (receive (chunk # chunks) connected_client)) listening_gateway) =
        ws_out listening_gateway @ map (\<lambda>w. (w, WsEvent (js ''order.created'') (js (nat_digits 1)) (JInt 1))) receivers \<and>
      (\<forall>w. count_list receivers w =
        (if True then card {p. ws_subscribed (server listening_gateway) w p \<and> topicMatches p (js ''order.created'')} else 0)))"
    unfolding b(3) subscribed_broker_idle(3) listening_gateway_state(1) append_Nil unat_1 by (elim exE conjE) (rule that; assumption)
  have "passed_on new_socket = []" "concat [ev] = ev" by (simp_all add: new_socket_def)
  moreover from d [rule_format, OF this(2)] have "\<exists>receivers.
      ws_out (fold (on_tcp_frame three_texts (\<lambda>_. True)) (fst (receive [ev] connected_client)) listening_gateway) =
        ws_out listening_gateway @ map (\<lambda>w. (w, WsEvent (js ''order.created'') (js (nat_digits 1)) (JInt 1))) receivers"
    by (elim exE conjE) (rule exI)
  ultimately show ?thesis
    using r by (intro exI [of _ gp'] exI [of _ f] exI [of _ b1] exI [of _ s2]) (simp del: receive.simps)
qed

text \<open>
  C25: a retry does not pass a gateway. When a client behind a gateway rejects a delivery that has
  retries left, the broker takes it out of its table and queues the message again under the
  same id, one retry counted; but the gateway, which has let the first delivery through, sends
  nothing to any client when the event of the repetition arrives, cut in any way, if fewer
  than 50,000 frames came in between. The broker counts attempts no client ever sees.
\<close>

theorem retry_is_invisible_behind_gateway:
  assumes broker: "broker_reachable b" "map_of (in_flight (ack_engine b)) (mid, cid) = Some e" "topic (fl_msg e) = broker_string tpc"
      "fl_retry e < max_retries (ack_engine b)" "length (queue (main_queue (queues b))) < capacity (main_queue (queues b))"
    and texts: "well_formed tpc" "\<not> bypasses tpc" "length (utf8_encode tpc) < 2 ^ 16"
      "2 + length (utf8_encode tpc) + length (body (fl_msg e)) < 2 ^ 32"
    and gateway: "gateway_reachable json_parse stringify to_str g" "js (nat_digits (unat mid)) \<notin> recentMsgIds (server g)"
      "length fs < RING_SIZE" "live c" "readBuf c = []"
      "g' = fold (on_tcp_frame json_parse is_open) fs
        (on_tcp_frame json_parse is_open (event_frame mid tpc (body (fl_msg e))) g)"
  shows "\<exists>b' m. on_frame os_send now cid NACK mid [] b = Done b' \<and>
    queue (main_queue (queues b')) = queue (main_queue (queues b)) @ [m] \<and> retry_count m = retry_count (fl_msg e) + 1 \<and>
    map_of (in_flight (ack_engine b')) (mid, cid) = None \<and>
    (\<forall>chunk chunks. concat (chunk # chunks) = encode_frame EVENT_DATA (msg_id m) (topic m) (body m) \<longrightarrow>
      ws_out (fold (on_tcp_frame json_parse is_open) (fst (receive (chunk # chunks) c)) g') = ws_out g')"
proof -
  have ack: "ack_inv (ack_engine b)" by (rule broker_inv_parts(2) [OF broker_reachable_inv [OF broker(1)]])
  then have om: "om_invar (in_flight (ack_engine b))" and e: "msg_id (fl_msg e) = mid" "fl_retry e = retry_count (fl_msg e)"
    using map_of_SomeD [OF broker(2)] by (auto simp: ack_inv_def entry_ok_def)
  let ?m = "requeue_msg e"
  let ?b = "b\<lparr>ack_engine := (ack_engine b)\<lparr>in_flight := om_delete (mid, cid) (in_flight (ack_engine b))\<rparr>,
      queues := (queues b)\<lparr>main_queue := enqueue [?m] (main_queue (queues b))\<rparr>\<rparr>"
  have m: "msg_id ?m = mid" "topic ?m = broker_string tpc" "body ?m = body (fl_msg e)" "retry_count ?m = retry_count (fl_msg e) + 1"
    using e broker(3) by (simp_all add: requeue_msg_def)
  have "on_frame os_send now cid NACK mid [] b = Done ?b"
    using broker(2,4,5) by (simp add: on_frame_def nack_def requeue_or_dlq_eq)
  moreover have "ws_out (fold (on_tcp_frame json_parse is_open) (fst (receive (chunk # chunks) c)) g') = ws_out g'"
    if "concat (chunk # chunks) = encode_frame EVENT_DATA (msg_id ?m) (topic ?m) (body ?m)" for chunk chunks
  proof -
    obtain as where "id_ring (server (on_tcp_frame json_parse is_open (event_frame mid tpc (body (fl_msg e))) g))
        (as @ js (nat_digits (unat mid)) # [])"
      using accepted_event_known [OF gateway_reachable_inv [OF gateway(1)] texts(1,3,2) gateway(2)] by blast
    from id_stays_known [OF this, of fs json_parse is_open] gateway(3,6)
    obtain as' bs where "id_ring (server g') (as' @ js (nat_digits (unat mid)) # bs)" by auto
    from known_event_dropped [OF texts(1,3,2) this]
    have "ws_out (on_tcp_frame json_parse is_open (event_frame mid tpc (body (fl_msg e))) g') = ws_out g'"
      by (simp add: bump_def)
    moreover have "fst (receive (chunk # chunks) c) = [event_frame mid tpc (body (fl_msg e))]"
      using receive_events [OF gateway(4,5), of "[(mid, tpc, body (fl_msg e))]" chunk chunks] texts that by (simp add: m)
    ultimately show ?thesis by simp
  qed
  ultimately show ?thesis
    using om m by (intro exI [of _ ?b] exI [of _ ?m]) (simp add: map_of_om_delete enqueue_def)
qed

theorem retry_is_invisible_behind_gateway_witness:
  "\<exists>b' m. on_frame (\<lambda>k len. len) 0 4 NACK 7 [] waiting_broker = Done b' \<and> queue (main_queue (queues b')) = [m] \<and> retry_count m = 1 \<and>
    (\<forall>chunk chunks. concat (chunk # chunks) = encode_frame EVENT_DATA (msg_id m) (topic m) (body m) \<longrightarrow>
      ws_out (fold (on_tcp_frame three_texts (\<lambda>_. True)) (fst (receive (chunk # chunks) connected_client))
        (on_tcp_frame three_texts (\<lambda>_. True) (event_frame 7 (js ''order.created'') [1, 2]) listening_gateway)) =
      ws_out (on_tcp_frame three_texts (\<lambda>_. True) (event_frame 7 (js ''order.created'') [1, 2]) listening_gateway))"
proof -
  let ?e = "\<lparr>fl_msg = order_created, subscriber_id = 4, deadline = 5000, fl_retry = 0\<rparr>"
  have o: "topic order_created = broker_string (js ''order.created'')" "body order_created = [1, 2]" "retry_count order_created = 0"
    by (simp_all add: order_created_js) (simp_all add: order_created_def)
  have new: "js (nat_digits (unat (7 :: u64))) \<notin> recentMsgIds (server listening_gateway)" by (rule listening_gateway_state(2))
  show ?thesis
    using retry_is_invisible_behind_gateway [of waiting_broker 7 4 ?e "js ''order.created''" three_texts "\<lambda>_. []" no_text
        listening_gateway "[]" connected_client _ "\<lambda>_. True" "\<lambda>k len. len" 0, OF waiting_broker_reachable waiting_broker_state(1)]
      waiting_broker_state(2-4) o new
    by (simp add: well_formed_js order_created_js connected_client_live listening_gateway_reachable RING_SIZE_def del: receive.simps)
      blast
qed

end
