(* ===== verification/MQ_GatewayMain.thy ===== *)
theory MQ_GatewayMain
  imports MQ_GatewayServer
begin

text \<open>
  \<open>gateway/src/index.js\<close>: the configuration from the environment, the start of the two classes and
  the shutdown on a signal.
\<close>

section \<open>Definitions\<close>

text \<open>\<open>parseInt(s, 10)\<close>: leading white space, a sign, the longest run of digits; \<open>None\<close> is \<open>NaN\<close>.\<close>

definition parse_int10 :: "js_string \<Rightarrow> int option" where
  "parse_int10 s =
     (let t = dropWhile js_space s;
          neg = (take 1 t = js ''-'');
          u = (if neg \<or> take 1 t = js ''+'' then drop 1 t else t);
          n = js_number 10 (takeWhile (\<lambda>c. js_digit 10 c \<noteq> None) u)
      in map_option (\<lambda>k. if neg then - k else k) n)"

text \<open>The nullish default: an empty variable is not replaced.\<close>

definition env_default :: "(string \<Rightarrow> js_string option) \<Rightarrow> string \<Rightarrow> string \<Rightarrow> js_string" where
  "env_default env key dflt = (case env key of None \<Rightarrow> js dflt | Some v \<Rightarrow> v)"

record GatewayConfig =
  gw_tcp_host :: js_string
  gw_tcp_port :: "int option"
  gw_ws_port :: "int option"

definition gateway_config :: "(string \<Rightarrow> js_string option) \<Rightarrow> GatewayConfig" where
  "gateway_config env = \<lparr>gw_tcp_host = env_default env ''TCP_HOST'' ''localhost'',
     gw_tcp_port = parse_int10 (env_default env ''TCP_PORT'' ''9099''),
     gw_ws_port = parse_int10 (env_default env ''WS_PORT'' ''8080'')\<rparr>"

definition gateway_main :: Gateway where
  "gateway_main = \<lparr>tcp = connect new_client, server = new_ws_server, ws_out = []\<rparr>"

text \<open>\<open>WsServer::stop\<close> clears a timer and closes the listening socket; neither is state here.\<close>

definition gateway_shutdown :: "Gateway \<Rightarrow> Gateway" where
  "gateway_shutdown g = g\<lparr>tcp := stop_client (tcp g)\<rparr>"


section \<open>Lemmas\<close>

lemma js_append: "js (s @ t) = js s @ js t"
  by (simp add: js_def)

text \<open>A client that was told to stop has no live socket and gets none.\<close>

definition down :: "TcpClient \<Rightarrow> bool" where
  "down c \<longleftrightarrow> stopping c \<and> \<not> live c"

lemma down_stop: "down (stop_client c)"
  by (auto simp: down_def stop_client_def live_def)

lemma down_send: "down c \<Longrightarrow> down (send_buffer frame c)"
  by (auto simp: down_def live_def send_buffer_def sock_write_def cork_def Let_def split: prod.splits bool.splits option.splits)

lemma down_tick: "down c \<Longrightarrow> down (tick c)"
  by (cases "socket c") (simp_all add: down_def live_def tick_def uncork_def)

lemma down_ticks: "down c \<Longrightarrow> down (run_ticks c)"
proof -
  assume c: "down c"
  have "down ((tick ^^ n) c)" for n by (induction n) (simp_all add: c down_tick)
  then show "down (run_ticks c)" by (simp add: run_ticks_def)
qed

lemma rbind_InrD: "MQ_GatewayProtocol.rbind r f = Inr y \<Longrightarrow> \<exists>x. r = Inr x \<and> f x = Inr y"
  by (cases r) simp_all

lemma down_event: "client_event c fs c' \<Longrightarrow> down c \<Longrightarrow> down c' \<and> fs = []"
proof (induction rule: client_event.induct)
  case (ev_beat c c')
  then have "c' = c \<or> (\<exists>frame. c' = send_buffer frame c)"
    by (auto simp: heartbeat_def split: if_splits dest!: rbind_InrD)
  with ev_beat show ?case using down_send down_ticks by auto
qed (auto simp: down_send down_ticks down_stop, auto simp: down_def live_def onDisconnect_def connect_def Let_def)

lemma js_digit_char: "d < 10 \<Longrightarrow> js_digit 10 (48 + of_nat d) = Some d"
proof -
  assume d: "d < 10"
  have "unat (of_nat (48 + d) :: u16) = 48 + d" using d by (subst unat_of_nat) simp
  then have "unat (48 + of_nat d :: u16) = 48 + d" by simp
  then show "js_digit 10 (48 + of_nat d) = Some d" using d by (simp add: js_digit_def Let_def)
qed

lemma js_digits_append:
  "js_digits r acc (s @ t) = (case js_digits r acc s of None \<Rightarrow> None | Some n \<Rightarrow> js_digits r n t)"
  by (induction s arbitrary: acc) (simp_all split: option.split)

lemma js_digits_nat_digits: "js_digits 10 0 (js (nat_digits n)) = Some n"
proof (induction n rule: nat_digits.induct)
  case (1 n)
  then show ?case
    by (subst nat_digits.simps) (auto simp: js_append js_digits_append js_digit_char js_def)
qed

lemma parse_int10_nat_digits: "parse_int10 (js (nat_digits n)) = Some (int n)"
proof -
  have digit: "js_digit 10 u \<noteq> None" if "u \<in> set (js (nat_digits n))" for u
    using that digits_in_nat_digits js_digit_char by (fastforce simp: js_def)
  have ne: "js (nat_digits n) \<noteq> []" by (subst nat_digits.simps) (simp add: js_def)
  have first: "\<not> js_space u \<and> [u] \<noteq> js ''-'' \<and> [u] \<noteq> js ''+''" if "js_digit 10 u \<noteq> None" for u
    using that by (auto simp: js_digit_def js_space_def js_def Let_def split: if_splits)
  obtain u us where s: "js (nat_digits n) = u # us" using ne by (cases "js (nat_digits n)") auto
  have "takeWhile (\<lambda>c. js_digit 10 c \<noteq> None) us = us"
    using digit unfolding s takeWhile_eq_all_conv by simp
  then show ?thesis
    using first [of u] digit [of u] js_digits_nat_digits [of n]
    by (simp add: parse_int10_def s js_number_def del: not_None_eq takeWhile_eq_all_conv)
qed


section \<open>Properties\<close>

text \<open>
  The life of the gateway. Without variables it connects to port 9099 of \<open>localhost\<close> and listens on
  8080; a variable set to a decimal number is that number, and one that is empty is not a
  number. It starts in a reachable state with a socket that is connecting; and once it was
  told to stop, no sequence of events of its broker connection, reconnection timers and
  heartbeats included, gives it a live socket again or emits a frame.
\<close>

theorem gateway_life:
  shows "gateway_config (\<lambda>_. None) = \<lparr>gw_tcp_host = js ''localhost'', gw_tcp_port = Some 9099, gw_ws_port = Some 8080\<rparr> \<and>
    gw_ws_port (gateway_config ((\<lambda>_. None)(''WS_PORT'' \<mapsto> js (nat_digits n)))) = Some (int n) \<and>
    gw_ws_port (gateway_config ((\<lambda>_. None)(''WS_PORT'' \<mapsto> []))) = None \<and>
    gateway_reachable json_parse stringify to_str gateway_main \<and> live (tcp gateway_main) \<and>
    (\<forall>c. client_leads_to (tcp (gateway_shutdown g)) c \<longrightarrow> \<not> live c \<and> (\<forall>fs c'. client_event c fs c' \<longrightarrow> fs = []))"
proof -
  have "parse_int10 (js ''9099'') = Some 9099" "parse_int10 (js ''8080'') = Some 8080"
    by (simp_all add: parse_int10_def js_number_def js_space_def js_digit_def js_def Let_def)
  moreover have "parse_int10 [] = None" by (simp add: parse_int10_def js_number_def js_def)
  moreover have "gateway_reachable json_parse stringify to_str gateway_main"
    unfolding gateway_main_def by (rule g_next [OF g_start]) (use g_tcp [of _ _ _ "\<lparr>tcp = new_client, server = new_ws_server, ws_out = []\<rparr>" "connect new_client"] in simp)
  moreover have "down c" if "client_leads_to (tcp (gateway_shutdown g)) c" for c
    using that unfolding client_leads_to_def
    by (induction rule: rtranclp_induct) (auto simp: gateway_shutdown_def down_stop dest: down_event)
  ultimately show ?thesis
    using down_event by (auto simp: gateway_config_def env_default_def parse_int10_nat_digits gateway_main_def connect_def
        new_client_def live_def new_socket_def down_def)
qed

end
