(* ===== verification/Spec2Isabelle.thy ===== *)
theory Spec2Isabelle
  imports MQ_Senders MQ_Monitor MQ_WalThread MQ_Shutdown MQ_Delivery MQ_CoreTests MQ_System MQ_GatewayMain
begin

text \<open>
  Verification of a message-driven event queue: a broker in C++ (\<open>broker/\<close>) and the Node.js
  gateway in front of it (\<open>gateway/\<close>).

  \<^bold>\<open>The program.\<close> Clients connect to the broker over TCP and send frames: they subscribe to topic
  patterns, alone or in a consumer group, publish messages and acknowledge or reject
  deliveries. A publication is logged (\<open>WalWriter\<close>) and pushed to a bounded queue
  (\<open>SafeQueue\<close>). The dispatcher pops it, asks \<open>TopicRouter\<close> for its targets, tracks each
  delivery in \<open>AckEngine\<close> and sends the event (\<open>TcpServer\<close>). A delivery that is rejected, not
  acknowledged in time or lost with its connection goes back to the queue with its retry
  count incremented, or to the dead-letter queue, whose consumer publishes it again with an
  audit event. At start-up the log is replayed into the queue. The gateway keeps one
  connection to the broker, translates JSON requests of WebSocket clients into frames and
  events into JSON, and filters events whose id it has already seen.

  \<^bold>\<open>Theories and what they model.\<close>
  \<^item> \<open>MQ_Prelude\<close>: machine types, bytes and characters, the outcomes of a call (\<open>Done\<close>, \<open>Blocked\<close>:
    it waits for another thread, \<open>Fault\<close>: a read outside a vector), checked reads, decimal
    digits. \<open>MQ_Containers\<close>: \<open>std::map\<close>, \<open>std::unordered_map\<close> and \<open>std::priority_queue\<close> behind
    the interfaces \<open>key_map\<close> and \<open>min_heap\<close>.
  \<^item> \<open>MQ_Endian\<close>, \<open>MQ_Message\<close>, \<open>MQ_Protocol\<close>: \<open>include/Message.hpp\<close> and \<open>include/Protocol.hpp\<close>; integers
    keep their width, so the truncating casts of the encoders and the byte swaps are those of
    the code. Lemmas: layout, round trips, safety of the decoders on every input.
  \<^item> \<open>MQ_SafeQueue\<close>: \<open>include/SafeQueue.hpp\<close> with each operation as one step on the contents, and
    \<open>MQ_Monitor\<close>: the same class with mutex, wait sets, notifications, time-outs and spurious
    wake-ups. Lemmas: bounded FIFO behaviour, refinement of the former by the latter, no lost
    wake-up.
  \<^item> \<open>MQ_TopicRouter\<close>: \<open>TopicRouter.hpp\<close>, \<open>TopicRouter.cpp\<close>. Lemmas: refinement of an abstract
    subscription relation, the exact targets of a message, fairness of the round robin,
    the meaning of patterns.
  \<^item> \<open>MQ_TcpServer\<close>: \<open>TcpServer.hpp\<close>, \<open>TcpServer.cpp\<close>. Lemmas: reassembly of frames from any
    fragmentation (interface \<open>stream_framer\<close>), harmless readers for every handler that keeps an
    invariant (interface \<open>frame_consumer\<close>), complete sends. \<open>MQ_Senders\<close>: the same \<open>send_to\<close> called by
    many threads, with the mutexes of the table and of each connection, the loop of \<open>send\<close> calls
    as steps, and descriptors that the operating system reuses. Lemmas: frames are never mixed
    on a connection, and where a frame can go to the wrong one.
  \<^item> \<open>MQ_Wal\<close>: \<open>WalWriter.hpp\<close>, \<open>WalWriter.cpp\<close>. Lemmas: what replay recovers after any
    interleaving of appends and flushes and a crash at any byte (interface \<open>torn_log\<close>).
    \<open>MQ_WalThread\<close>: the loop of its flush thread and the destructor that joins it. Lemmas: after
    four steps of that thread everything logged before is in the file; the destructor as one
    operation is what the thread does.
  \<^item> \<open>MQ_AckEngine\<close>: \<open>AckEngine.hpp\<close>, \<open>AckEngine.cpp\<close>. Lemmas: the three ways a delivery fails have
    one contract (\<open>failure_op\<close>), no message is lost, deadlines are kept, retries are bounded.
  \<^item> \<open>MQ_Broker\<close>: \<open>main.cpp\<close>: configuration, start-up, \<open>on_frame\<close>, dispatcher, dead-letter logger,
    scanner, shutdown, on one record of the shared state. \<open>component_call\<close> is the step relation
    of the critical sections of all threads; \<open>broker_reachable\<close> and \<open>broker_inv\<close> are its
    reachable states and their invariant. \<open>MQ_Threads\<close> adds who holds the mutex of the engine.
    Lemmas: every handler is a sequence of critical sections; operations end while the queues
    have room, and the deadlock that a full queue causes. \<open>MQ_Shutdown\<close> puts the threads of
    \<open>MQ_Threads\<close> into their loops, with the flags they test, the signal and the joins at the end
    of \<open>main\<close>. Lemmas: an invariant of the process, termination of the shutdown by a lexicographic
    measure, and how it can hang. \<open>MQ_Running\<close>: the concrete, reachable states that the
    properties of the whole broker are tried on. \<open>MQ_Delivery\<close>: many turns of the dispatcher. Lemmas:
    how often a client is a target of a message, delivery in the order of publication, and
    the fate of the messages a restart recovers.
  \<^item> \<open>MQ_JsText\<close>, \<open>MQ_GatewayProtocol\<close>, \<open>MQ_GatewayClient\<close>, \<open>MQ_GatewayServer\<close>: \<open>protocol.js\<close>,
    \<open>tcpClient.js\<close> and \<open>wsServer.js\<close>. Strings are sequences of UTF-16 units, with the UTF-8
    conversions of \<open>Buffer\<close>; what throws in the code is an error value. Lemmas: agreement with
    the broker's encoders, decoders and matching, reassembly (the same interface
    \<open>stream_framer\<close>), the idempotency window (interface \<open>id_window\<close>), consistency of the
    subscription tables, the behaviour over reconnections. \<open>MQ_GatewayMain\<close>: \<open>index.js\<close>, the
    configuration, the start and the shutdown; a gateway that was told to stop stays down.
  \<^item> \<open>MQ_CoreTests\<close>: \<open>tests/test_core.cpp\<close> on the models of the queue and the router. Lemmas: its
    assertions hold, those of the concurrent part for any number of threads and items, in
    every schedule, and every schedule ends.
  \<^item> \<open>MQ_System\<close>: broker and gateways composed over the bytes between them: a publication from
    request to WebSocket message, and the fate of a retry.
  \<^item> This theory: the properties of the running broker that span its components, stated on the
    handlers of \<open>MQ_Broker\<close>.

  \<^bold>\<open>How the model corresponds to the code.\<close> A class is a record with the fields of the class, a
  method a function that takes and returns it, with the guards, early returns and the order
  of calls of the source. A method that holds a mutex for its whole body is one step; where
  the code gives up a mutex (waiting in a queue, swapping the buffers of the log) the parts
  are separate steps. What the code takes from outside is an argument: clock readings,
  results of socket calls, the bytes \<open>recv\<close> returns, the environment, JSON parsing and
  printing, the ready state of a WebSocket. Loops are total functions with a measure (bytes
  left, heap entries left); there is no fuel. The iteration order of an unordered map is the
  order of an arbitrary list. Theorems about broker start-up and the witnesses use the
  default configuration (queue capacity 10,000, three retries, 5 seconds).

  \<^bold>\<open>Where the code does not do what it means to\<close> the theorem states what it does: a torn record at
  the end of the log swallows later ones; ids are reused after a restart; replay waits for
  room before there is a consumer; an acknowledgement by one group counts for all after a
  restart; the dispatcher discards what replay recovered, because it runs before anybody can
  subscribe; a reused descriptor lets an old connection unregister a new client; the engine
  holds its mutex while it waits for room in the queue that only the dispatcher empties; a
  shutdown can hang for the same reason, depends on \<open>close\<close> waking \<open>accept\<close>, and does not wait for
  the connection threads, which may log what is never written; a sender can reach a reused descriptor; the gateway drops retries,
  keeps unread bytes over connections, forgets groups when it reconnects, matches fewer
  patterns than the broker and does not catch what malformed requests throw.

  \<^bold>\<open>Not modelled.\<close> Console output, socket options and process exit have no effect on the
  state modelled here; a signal is an event that clears \<open>g_running\<close>. The destructors are modelled by
  what their bodies do (they stop what is already stopped, and close the log); the end of the
  storage of the objects \<open>main\<close> owns is not, so what a connection thread that outlives them
  reads is not either. Threads are interleaved at critical sections; the memory model below
  the mutexes is not modelled. The file of the log is its content: errors of the file system
  and the behaviour of the disk cache are not modelled. The example services, the dashboard, the load generator and the
  fault-injection script are clients of the system, and the build files configure it.
\<close>

section \<open>Properties of the running broker\<close>

text \<open>
  C1: the shared state stays well formed under every interleaving. In every state a broker
  reaches by any sequence of critical sections of its threads, the router's table and the
  engine's table are well formed, both queues are within their capacity, no message in the
  main queue or in flight counts more retries than the configured maximum, dead letters
  count none, and a delivery in flight is recorded under its own message id and client.
\<close>

theorem broker_invariant:
  assumes "broker_reachable b"
  shows "router_inv (router b) \<and> ack_inv (ack_engine b) \<and>
    length (queue (main_queue (queues b))) \<le> capacity (main_queue (queues b)) \<and>
    length (queue (dlq (queues b))) \<le> capacity (dlq (queues b)) \<and>
    (\<forall>m \<in> set (queue (main_queue (queues b))). 0 \<le> retry_count m \<and> retry_count m \<le> max 0 (max_retries (ack_engine b))) \<and>
    (\<forall>m \<in> set (queue (dlq (queues b))). retry_count m = 0) \<and>
    (\<forall>(k, e) \<in> set (in_flight (ack_engine b)). k = (msg_id (fl_msg e), subscriber_id e) \<and>
       fl_retry e \<le> max 0 (max_retries (ack_engine b)))"
proof -
  have inv: "broker_inv b" by (rule broker_reachable_inv [OF assms])
  then have "\<forall>(k, e) \<in> set (in_flight (ack_engine b)). k = (msg_id (fl_msg e), subscriber_id e) \<and>
      fl_retry e \<le> max 0 (max_retries (ack_engine b))"
    by (force simp: broker_inv_def ack_inv_def entry_ok_def fair_retries_def retry_limit_def)
  with inv show ?thesis
    by (auto simp: broker_inv_def queues_invar_def queue_invar_def fair_retries_def retry_limit_def)
qed

theorem broker_invariant_witness:
  "order_created \<in> set (queue (main_queue (queues loaded_broker))) \<and>
   retry_count order_created \<le> max 0 (max_retries (ack_engine loaded_broker)) \<and> router_inv (router loaded_broker)"
proof -
  have "order_created \<in> set (queue (main_queue (queues loaded_broker)))"
    by (simp add: loaded_broker_def)
  with broker_invariant [OF loaded_broker_reachable] show ?thesis by blast
qed



text \<open>
  C6: no client can crash the broker. Whatever bytes a connection delivers, in whatever
  pieces, the reader and the handlers it calls never read outside a buffer, and when the
  connection has ended the broker is in a reachable state.
\<close>

theorem hostile_client_is_harmless:
  assumes "broker_reachable b"
  shows "safe_outcome broker_reachable (handle_client (on_frame os_send now) close_connection cid [] chunks b)"
  by (rule reader.handle_client_safe [OF assms])

theorem hostile_client_is_harmless_witness:
  "safe_outcome broker_reachable (handle_client (on_frame (\<lambda>k len. len) 0) close_connection 4 []
     [[0xDE, 0xAD], [0xBE, 0xEF, 1, 0xFF, 0xFF, 0xFF, 0xFF], replicate 20 0] loaded_broker)"
  by (rule hostile_client_is_harmless [OF loaded_broker_reachable])






section \<open>Shutdown and restart\<close>

text \<open>
  C19: a published message survives a restart. When the broker is shut down with the
  publication in its log, no acknowledgement of its id anywhere in the log and no later
  publication under it, the restarted broker has the message in its main queue, with its
  topic and body and a fresh retry count, provided the queue has room for what is pending.
\<close>

theorem restart_recovers_published:
  assumes "wal_inv (wal b) (rs @ [Published mid t bdy] @ ext)" and "Acked mid \<notin> set (rs @ ext)"
    and "\<forall>r \<in> set ext. \<forall>t' b'. r \<noteq> Published mid t' b'"
    and "length (pending (rs @ [Published mid t bdy] @ ext)) \<le> unat (QUEUE_CAP cfg)"
    and "socket_res \<noteq> INVALID_SOCK" and "0 \<le> bind_res" and "0 \<le> listen_res"
  shows "\<exists>b'. boot cfg True (wal_file (wal (shutdown b))) True socket_res bind_res listen_res = Done (Inr b') \<and>
    \<lparr>msg_id = mid, topic = t, body = bdy, retry_count = 0\<rparr> \<in> set (queue (main_queue (queues b')))"
proof -
  let ?rs = "rs @ [Published mid t bdy] @ ext"
  let ?m = "\<lparr>msg_id = mid, topic = t, body = bdy, retry_count = 0\<rparr>"
  have ok: "\<forall>r \<in> set ?rs. record_ok r" using assms(1) by (simp add: wal_inv_def)
  obtain b' where b': "boot cfg True (concat (map record_bytes ?rs)) True socket_res bind_res listen_res = Done (Inr b')"
    using boot_pending [OF ok assms(4-7)] by blast
  moreover have "queue (main_queue (queues b')) = pending ?rs"
    using boot_inv [OF b' ok] by simp
  moreover have "?m \<in> set (pending ?rs)"
    using assms(2) last_published_append [OF assms(3), of rs t bdy] by (simp add: pending_iff)
  ultimately show ?thesis
    by (simp add: shutdown_log [OF assms(1)])
qed

definition logged_broker :: Broker where
  "logged_broker = started\<lparr>wal := append (wal started) order_created\<rparr>"

lemma logged_broker_inv: "wal_inv (wal logged_broker) ([] @ [Published 7 ''order.created'' [1, 2]] @ [])"
  using wal_inv_append [OF started_wal_inv, of order_created]
  by (simp add: logged_broker_def publish_record_def order_created_def)

theorem restart_recovers_published_witness:
  "\<exists>b'. boot default_config True (wal_file (wal (shutdown logged_broker))) True 3 0 0 = Done (Inr b') \<and>
     order_created \<in> set (queue (main_queue (queues b')))"
  using restart_recovers_published [OF logged_broker_inv, of default_config 3 0 0]
  by (simp add: default_config_def INVALID_SOCK_def order_created_def pending_def)


definition settled_broker :: Broker where
  "settled_broker = logged_broker\<lparr>wal := acknowledge (wal logged_broker) 7\<rparr>"

lemma settled_broker_inv: "wal_inv (wal settled_broker) ([Published 7 ''order.created'' [1, 2]] @ [Acked 7] @ [])"
  using wal_inv_acknowledge [OF logged_broker_inv, of 7] by (simp add: settled_broker_def)

lemma boot_settled: "\<exists>b. boot default_config True (wal_file (wal (shutdown settled_broker))) True 3 0 0 = Done (Inr b)"
  unfolding shutdown_log [OF settled_broker_inv]
  by (rule boot_pending) (simp_all add: default_config_def INVALID_SOCK_def pending_def)





section \<open>Clients that leave\<close>



text \<open>
  Descriptors are reused. \<open>handle_client\<close> closes the socket before it takes the client
  out of the table, and the client identifier is the descriptor. When the operating system
  gives the descriptor to a new connection in between, the new client is accepted and can
  subscribe, and then the end of the old connection takes the new one out of the table and
  cancels its subscriptions: it is still connected, but nothing is ever sent to it.
\<close>

theorem reused_descriptor_loses_new_client:
  assumes "broker_reachable b" and "server_ptr b = Some s" and "accept_step s cid = Some (cid, s1)"
    and "on_frame os_send now cid SUBSCRIBE mid payload (b\<lparr>server_ptr := Some s1\<rparr>) = Done b2"
    and "disconnect (on_frame os_send now) close_connection cid b2 = Done b3"
  shows "map_of (clients s1) cid = Some cid \<and>
    (\<exists>s3. server_ptr b3 = Some s3 \<and> (\<forall>os frame. send_to os s3 cid frame = s3)) \<and>
    (\<forall>p g. \<not> subscribed (router b3) p g cid)"
proof -
  have s1: "map_of (clients s1) cid = Some cid"
    using assms(3) by (auto simp: accept_step_def update_conv' split: if_splits)
  have "server_ptr b2 = Some s1"
    using assms(4) by (auto simp: on_frame_def decode_subscribe_eq split: if_splits)
  then obtain ae qs where "b3 = b2\<lparr>server_ptr := Some (close_client cid s1), router := unsubscribe (router b2) cid,
      ack_engine := ae, queues := qs\<rparr>"
    using assms(5) by (auto simp: disconnect_eq elim!: obind_DoneE)
  then show ?thesis
    using s1 by (auto simp: send_to_def close_client_lookup subscribed_unsubscribe)
qed

theorem reused_descriptor_loses_new_client_witness:
  "\<exists>b2 b3 s3. on_frame (\<lambda>k len. len) 0 4 SUBSCRIBE 0 [] subscribed_broker = Done b2 \<and>
     disconnect (on_frame (\<lambda>k len. len) 0) close_connection 4 b2 = Done b3 \<and> server_ptr b3 = Some s3 \<and>
     send_to (\<lambda>k len. len) s3 4 [1] = s3"
proof -
  let ?s = "(new_server 9099)\<lparr>listen_sock := 3, running := True, clients := [(4, 4)]\<rparr>"
  have s: "server_ptr subscribed_broker = Some ?s" by (simp add: subscribed_broker_def)
  have a: "accept_step ?s 4 = Some (4, ?s)" by (simp add: accept_step_def INVALID_SOCK_def)
  have f: "on_frame (\<lambda>k len. len) 0 4 SUBSCRIBE 0 [] (subscribed_broker\<lparr>server_ptr := Some ?s\<rparr>) = Done subscribed_broker"
    by (simp add: on_frame_def decode_subscribe_def subscribed_broker_def)
  obtain b3 where d: "disconnect (on_frame (\<lambda>k len. len) 0) close_connection 4 subscribed_broker = Done b3"
    by (simp add: disconnect_eq client_disconnected_def subscribed_broker_def started_def new_ack_engine_def)
  have "subscribed_broker\<lparr>server_ptr := Some ?s\<rparr> = subscribed_broker"
    by (simp add: subscribed_broker_def)
  with f have "on_frame (\<lambda>k len. len) 0 4 SUBSCRIBE 0 [] subscribed_broker = Done subscribed_broker"
    by (simp only:)
  with reused_descriptor_loses_new_client [OF subscribed_broker_reachable s a f d] d show ?thesis
    by blast
qed


section \<open>Dead letters, heartbeats, configuration\<close>

text \<open>
  A turn of the dead-letter logger. The dead letter leaves its queue and goes to the
  back of the main queue unchanged, followed by an event on \<open>$SYS.dlq\<close> with the next id of
  the counter, whose body is the JSON object with the letter's id, topic and body. Only
  the audit event is logged, so after a restart the original message is recovered under
  its original topic. With room for fewer than two messages the logger waits.
\<close>

theorem dead_letter_cycle:
  assumes "queue (dlq (queues b)) = m # ms" and "wal_inv (wal b) rs" and "length (audit_body m) < 2 ^ 32"
    and "sys = \<lparr>msg_id = next_id b, topic = ''$SYS.dlq'', body = bytes_of_string
      (''{\"original_id\": \"'' @ to_string (uint (msg_id m)) @ ''\", \"original_topic\": \"'' @ topic m @
       ''\", \"original_body\": '' @ (if body m = [] then ''{}'' else string_of_bytes (body m)) @ ''}''), retry_count = 0\<rparr>"
  shows "dlq_logger_step b =
      (if length (queue (main_queue (queues b))) + 2 \<le> capacity (main_queue (queues b))
       then Done (b\<lparr>queues := \<lparr>main_queue = enqueue [m, sys] (main_queue (queues b)), dlq = (dlq (queues b))\<lparr>queue := ms\<rparr>\<rparr>,
         next_id := next_id b + 1, wal := append (wal b) sys\<rparr>)
       else Blocked) \<and>
    wal_inv (append (wal b) sys) (rs @ [Published (next_id b) ''$SYS.dlq'' (body sys)])"
proof -
  have sys: "audit_message (next_id b) m = sys"
    by (simp add: audit_message_def audit_body_def assms(4) Let_def)
  have "record_ok (publish_record sys)"
    using assms(3) by (simp add: publish_record_def flip: sys) (simp add: audit_message_def)
  moreover have "publish_record sys = Published (next_id b) ''$SYS.dlq'' (body sys)"
    by (simp add: publish_record_def assms(4))
  ultimately have "wal_inv (append (wal b) sys) (rs @ [Published (next_id b) ''$SYS.dlq'' (body sys)])"
    using wal_inv_append [OF assms(2), of sys] by simp
  moreover have "dlq_logger_step b =
      (if length (queue (main_queue (queues b))) + 2 \<le> capacity (main_queue (queues b))
       then Done (b\<lparr>queues := \<lparr>main_queue = enqueue [m, sys] (main_queue (queues b)), dlq = (dlq (queues b))\<lparr>queue := ms\<rparr>\<rparr>,
         next_id := next_id b + 1, wal := append (wal b) sys\<rparr>)
       else Blocked)"
    by (auto simp: dlq_logger_Cons [OF assms(1)] push_main_eq sys enqueue_def)
  ultimately show ?thesis by simp
qed

definition buried_broker :: Broker where
  "buried_broker = started\<lparr>queues := (queues started)\<lparr>dlq := enqueue
     [\<lparr>msg_id = 7, topic = ''$DLQ.a'', body = [], retry_count = 0\<rparr>] (new_queue 10000)\<rparr>\<rparr>"

theorem dead_letter_cycle_witness:
  "\<exists>b'. dlq_logger_step buried_broker = Done b' \<and> queue (dlq (queues b')) = [] \<and>
     map topic (queue (main_queue (queues b'))) = [''$DLQ.a'', ''$SYS.dlq''] \<and> next_id b' = 2"
proof -
  let ?m = "\<lparr>msg_id = 7, topic = ''$DLQ.a'', body = [], retry_count = 0\<rparr> :: Message"
  have q: "queue (dlq (queues buried_broker)) = ?m # []"
    by (simp add: buried_broker_def new_queue_def)
  have w: "wal_inv (wal buried_broker) []"
    using started_wal_inv by (simp add: buried_broker_def)
  have "nat_digits 7 = [digit_char 7]"
    by (subst nat_digits.simps) simp
  then have "length (audit_body ?m) < 2 ^ 32"
    by (simp add: audit_body_def to_string_def)
  from dead_letter_cycle [OF q w this refl] show ?thesis
    by (simp add: buried_broker_def started_def new_queue_def)
qed

text \<open>
  A heartbeat is answered to its sender only, with a frame that decodes as a heartbeat
  with id 0 and no payload; frames of type EVENT_DATA and of unnamed types change nothing.
\<close>

theorem heartbeat_is_echoed:
  assumes "broker_reachable b" and "server_ptr b = Some s" and "map_of (clients s) cid = Some cid"
    and "healthy os_send"
  shows "\<exists>s' f. on_frame os_send now cid HEARTBEAT mid payload b = Done (b\<lparr>server_ptr := Some s'\<rparr>) \<and>
    wire s' cid = wire s cid @ f \<and> next_frame f = Frame (HEARTBEAT, 0, []) [] \<and>
    (\<forall>c. map_of (clients s) c = Some c \<and> c \<noteq> cid \<longrightarrow> wire s' c = wire s c) \<and>
    on_frame os_send now cid EVENT_DATA mid payload b = Done b \<and>
    on_frame os_send now cid (UNNAMED u) mid payload b = Done b"
proof -
  let ?f = "encode_ack_frame HEARTBEAT 0"
  have inv: "server_inv s"
    by (rule broker_inv_parts(4) [OF broker_reachable_inv [OF assms(1)] assms(2)])
  have l: "length ?f < 2 ^ 31" by (simp add: frame_bytes_encode_ack_frame)
  have "next_frame (frame_bytes (HEARTBEAT, 0, []) @ []) = Frame (HEARTBEAT, 0, []) []"
    by (rule next_frame_frame_bytes) simp
  then have "next_frame ?f = Frame (HEARTBEAT, 0, []) []"
    by (simp only: frame_bytes_encode_ack_frame append_Nil2)
  moreover have "on_frame os_send now cid HEARTBEAT mid payload b = Done (b\<lparr>server_ptr := Some (send_to os_send s cid ?f)\<rparr>)"
    by (simp add: on_frame_def send_frame_def assms(2))
  ultimately show ?thesis
    using send_to_wire [OF assms(4) l inv, of _ cid] assms(3)
    by (intro exI [of _ "send_to os_send s cid ?f"] exI [of _ ?f]) (auto simp: on_frame_def)
qed

theorem heartbeat_is_echoed_witness:
  "\<exists>s' f. on_frame (\<lambda>k len. len) 0 4 HEARTBEAT 9 [] subscribed_broker = Done (subscribed_broker\<lparr>server_ptr := Some s'\<rparr>) \<and>
     wire s' 4 = [] @ f \<and> next_frame f = Frame (HEARTBEAT, 0, []) []"
proof -
  let ?s = "(new_server 9099)\<lparr>listen_sock := 3, running := True, clients := [(4, 4)]\<rparr>"
  have "server_ptr subscribed_broker = Some ?s" "map_of (clients ?s) 4 = Some 4" "wire ?s 4 = []" "healthy (\<lambda>k len. len)"
    by (simp_all add: subscribed_broker_def new_server_def healthy_def)
  then show ?thesis
    using heartbeat_is_echoed [OF subscribed_broker_reachable, of ?s 4 "\<lambda>k len. len" 0 9 "[]"] by metis
qed

text \<open>
  The configuration. Without environment variables the documented defaults apply; a
  variable set to the decimal form of an \<open>int\<close> is read back as that number; the queue
  capacity is then converted to \<open>size_t\<close>, so a negative one becomes a capacity of nearly
  \<open>2 ^ 64\<close>, and a variable without digits ends the process with an exception.
\<close>

theorem configuration_is_read:
  assumes "- (2 ^ 31) \<le> n" and "n < 2 ^ 31"
  shows "load_config (\<lambda>_. None) = Inr default_config \<and>
    load_config ((\<lambda>_. None)(''QUEUE_CAPACITY'' \<mapsto> to_string n)) = Inr (default_config\<lparr>QUEUE_CAP := word_of_int n\<rparr>) \<and>
    unat (word_of_int n :: u64) = (if 0 \<le> n then nat n else 2 ^ 64 - nat (- n)) \<and>
    load_config ((\<lambda>_. None)(''QUEUE_CAPACITY'' \<mapsto> ''many'')) = Inl ''std::invalid_argument''"
proof -
  have d: "stoi ''9099'' = Inr 9099" "stoi ''10000'' = Inr 10000" "stoi ''3'' = Inr 3" "stoi ''5000'' = Inr 5000"
    by (simp_all add: stoi_def is_space_def is_digit_def digits_val_def Let_def)
  have "stoi ''many'' = Inl ''std::invalid_argument''"
    by (simp add: stoi_def is_space_def is_digit_def Let_def)
  moreover have "unat (word_of_int n :: u64) = (if 0 \<le> n then nat n else 2 ^ 64 - nat (- n))"
  proof (cases "0 \<le> n")
    case True
    with assms(2) have "n mod 2 ^ 64 = n" by simp
    with True show ?thesis by (simp add: unat_eq_nat_uint uint_word_of_int)
  next
    case False
    have "n mod 2 ^ 64 = (n + 2 ^ 64) mod 2 ^ 64" by simp
    also have "\<dots> = n + 2 ^ 64" using False assms(1) by (intro mod_pos_pos_trivial) simp_all
    finally show ?thesis using False by (simp add: unat_eq_nat_uint uint_word_of_int nat_diff_distrib)
  qed
  ultimately show ?thesis
    using stoi_to_string [OF assms] by (simp add: load_config_def env_or_def d default_config_def)
qed

theorem configuration_is_read_witness:
  "load_config ((\<lambda>_. None)(''QUEUE_CAPACITY'' \<mapsto> to_string (- 1))) = Inr (default_config\<lparr>QUEUE_CAP := word_of_int (- 1)\<rparr>) \<and>
   unat (word_of_int (- 1) :: u64) = 2 ^ 64 - 1"
  using configuration_is_read [of "- 1"] by simp

end
